(* ===== verification/Prelude.thy ===== *)
theory Prelude
  imports Main "HOL-Library.Word" "HOL-Library.Multiset"
begin

text \<open>
  Shared vocabulary of the development: the error type that stands for the ways a C++ call can
  fail to return, the byte-level types, little-endian encoding of unsigned integers, byte
  memories, and the confluence argument that carries the proofs about interleaved executions.

  \<^item> \<open>cxx_error\<close>: a thrown exception, a call of \<open>exit\<close>, a failed \<open>assert\<close>, or an operation the
    language leaves undefined (dereferencing \<open>end()\<close>, dividing by zero, reading out of bounds).
  \<^item> \<open>le_enc\<close>, \<open>le_dec\<close>: the byte order of the machines the program runs on.
  \<^item> \<open>read_mem\<close>, \<open>write_mem\<close>: contiguous access to a memory, the model of \<open>memcpy\<close>.
  \<^item> locale \<open>diamond_system\<close>: a labelled transition system whose steps commute; one complete run
    then determines every run.
\<close>

named_theorems mem_simps \<open>reading and writing byte memories\<close>
named_theorems enc_simps \<open>lengths and round trips of byte encodings\<close>

section \<open>Failures\<close>

datatype cxx_error =
    Undefined_behaviour string
  | Exception string
  | Exit nat
  | Assert_failed string

type_synonym 'a res = "cxx_error + 'a"

fun res_bind :: "'a res \<Rightarrow> ('a \<Rightarrow> 'b res) \<Rightarrow> 'b res" where
  "res_bind (Inl e) f = Inl e"
| "res_bind (Inr x) f = f x"

fun res_map :: "('a \<Rightarrow> 'b) \<Rightarrow> 'a res \<Rightarrow> 'b res" where
  "res_map f (Inl e) = Inl e"
| "res_map f (Inr x) = Inr (f x)"

text \<open>A loop that collects the results of a call and stops at the first failure.\<close>

fun res_mapM :: "('a \<Rightarrow> 'b res) \<Rightarrow> 'a list \<Rightarrow> 'b list res" where
  "res_mapM f [] = Inr []"
| "res_mapM f (x # xs) = res_bind (f x) (\<lambda>y. res_bind (res_mapM f xs) (\<lambda>ys. Inr (y # ys)))"

section \<open>Bytes and little-endian integers\<close>

type_synonym byte = "8 word"
type_synonym u16 = "16 word"
type_synonym u32 = "32 word"
type_synonym u64 = "64 word"

fun le_enc :: "nat \<Rightarrow> nat \<Rightarrow> byte list" where
  "le_enc 0 x = []"
| "le_enc (Suc n) x = word_of_nat x # le_enc n (x div 256)"

fun le_dec :: "byte list \<Rightarrow> nat" where
  "le_dec [] = 0"
| "le_dec (b # bs) = unat b + 256 * le_dec bs"

section \<open>Byte memories\<close>

type_synonym mem = "nat \<Rightarrow> byte"

definition read_mem :: "mem \<Rightarrow> nat \<Rightarrow> nat \<Rightarrow> byte list" where
  "read_mem m p n = map m [p..<p + n]"

definition write_mem :: "mem \<Rightarrow> nat \<Rightarrow> byte list \<Rightarrow> mem" where
  "write_mem m p bs = (\<lambda>a. if p \<le> a \<and> a < p + length bs then bs ! (a - p) else m a)"

section \<open>Chunks of a list\<close>

text \<open>A buffer of \<open>n\<close> elements of \<open>s\<close> bytes each, seen as its elements.\<close>

fun chunks :: "nat \<Rightarrow> nat \<Rightarrow> 'a list \<Rightarrow> 'a list list" where
  "chunks s 0 xs = []"
| "chunks s (Suc n) xs = take s xs # chunks s n (drop s xs)"

section \<open>Lemmas\<close>

lemma res_bind_Inr [simp]: "res_bind x Inr = x"
  by (cases x) simp_all

lemma res_bind_eq_Inr:
  "res_bind x f = Inr y \<longleftrightarrow> (\<exists>z. x = Inr z \<and> f z = Inr y)"
  by (cases x) simp_all

lemma res_map_eq_Inr: "res_map f x = Inr y \<longleftrightarrow> (\<exists>z. x = Inr z \<and> y = f z)"
  by (cases x) auto

lemma res_mapM_Inr: "(\<And>x. x \<in> set xs \<Longrightarrow> f x = Inr (g x)) \<Longrightarrow> res_mapM f xs = Inr (map g xs)"
  by (induction xs) auto

lemma length_le_enc [simp, enc_simps]: "length (le_enc n x) = n"
  by (induction n x rule: le_enc.induct) simp_all

lemma unat_byte_of_nat: "unat (word_of_nat x :: byte) = x mod 256"
  by (simp add: unat_of_nat)

lemma unat_byte_less: "unat (b :: byte) < 256"
  using unsigned_less [of b, where ?'a = nat] by simp

lemma le_dec_enc [enc_simps]: "le_dec (le_enc n x) = x mod 256 ^ n"
proof (induction n x rule: le_enc.induct)
  case (1 x)
  show ?case by simp
next
  case (2 n x)
  have "x mod 256 + 256 * (x div 256 mod 256 ^ n) = x mod (256 * 256 ^ n)"
    by (simp add: mod_mult2_eq)
  with 2 show ?case by (simp add: unat_byte_of_nat)
qed

lemma le_dec_bound: "le_dec bs < 256 ^ length bs"
proof (induction bs)
  case Nil
  show ?case by simp
next
  case (Cons b bs)
  have "unat b < 256" by (rule unat_byte_less)
  with Cons show ?case by simp
qed

lemma le_enc_dec [enc_simps]: "le_enc (length bs) (le_dec bs) = bs"
proof (induction bs)
  case Nil
  show ?case by simp
next
  case (Cons b bs)
  have b: "unat b < 256" by (rule unat_byte_less)
  have "(word_of_nat (unat b + 256 * le_dec bs) :: byte) = b"
  proof (rule word_unat_eq_iff [THEN iffD2])
    show "unat (word_of_nat (unat b + 256 * le_dec bs) :: byte) = unat b"
      using b by (simp only: unat_byte_of_nat) simp
  qed
  moreover have "(unat b + 256 * le_dec bs) div 256 = le_dec bs"
    using b by simp
  ultimately show ?case using Cons by simp
qed

lemma le_dec_inj: "length xs = length ys \<Longrightarrow> le_dec xs = le_dec ys \<Longrightarrow> xs = ys"
  by (metis le_enc_dec)

lemma length_read_mem [simp, mem_simps]: "length (read_mem m p n) = n"
  by (simp add: read_mem_def)

lemma read_mem_nth [mem_simps]: "i < n \<Longrightarrow> read_mem m p n ! i = m (p + i)"
  by (simp add: read_mem_def)

lemma read_mem_0 [simp]: "read_mem m p 0 = []"
  by (simp add: read_mem_def)

lemma read_mem_append: "read_mem m p (a + b) = read_mem m p a @ read_mem m (p + a) b"
  by (rule nth_equalityI) (simp_all add: read_mem_nth nth_append)

lemma read_write_same [simp, mem_simps]:
  "length bs = n \<Longrightarrow> read_mem (write_mem m p bs) p n = bs"
  by (rule nth_equalityI) (simp_all add: read_mem_nth write_mem_def)

lemma read_write_disjoint [mem_simps]:
  "q + n \<le> p \<or> p + length bs \<le> q \<Longrightarrow> read_mem (write_mem m p bs) q n = read_mem m q n"
  by (rule nth_equalityI) (auto simp: read_mem_nth write_mem_def)

lemma write_write_same [simp, mem_simps]:
  "length bs = length bs' \<Longrightarrow> write_mem (write_mem m p bs) p bs' = write_mem m p bs'"
  by (auto simp: write_mem_def)

lemma write_read_same [simp, mem_simps]: "write_mem m p (read_mem m p n) = m"
proof (rule ext)
  fix a
  have "p \<le> a \<and> a < p + n \<Longrightarrow> a - p < n" by arith
  then show "write_mem m p (read_mem m p n) a = m a"
    by (auto simp: write_mem_def read_mem_nth)
qed

lemma write_mem_outside: "a < p \<or> p + length bs \<le> a \<Longrightarrow> write_mem m p bs a = m a"
  by (auto simp: write_mem_def)

lemma length_chunks [simp]: "length (chunks s n xs) = n"
  by (induction s n xs rule: chunks.induct) simp_all

lemma concat_chunks: "length xs = n * s \<Longrightarrow> concat (chunks s n xs) = xs"
  by (induction s n xs rule: chunks.induct) simp_all

lemma chunks_length: "length xs = n * s \<Longrightarrow> x \<in> set (chunks s n xs) \<Longrightarrow> length x = s"
  by (induction s n xs rule: chunks.induct) auto

lemma chunks_concat:
  "(\<And>x. x \<in> set xss \<Longrightarrow> length x = s) \<Longrightarrow> length xss = n \<Longrightarrow> chunks s n (concat xss) = xss"
  by (induction xss arbitrary: n) auto

lemma length_concat_const:
  "(\<And>x. x \<in> set xss \<Longrightarrow> length x = s) \<Longrightarrow> length (concat xss) = length xss * s"
  by (induction xss) auto

section \<open>Commuting steps\<close>

text \<open>
  A system whose enabled steps commute: two different labels enabled in one state can be taken in
  either order, with the same result. \<open>run\<close> executes a list of labels.
\<close>

fun run_labels :: "('l \<Rightarrow> 's \<Rightarrow> 's option) \<Rightarrow> 'l list \<Rightarrow> 's \<Rightarrow> 's option" where
  "run_labels f [] s = Some s"
| "run_labels f (l # ls) s = (case f l s of None \<Rightarrow> None | Some s' \<Rightarrow> run_labels f ls s')"

lemma run_labels_append:
  "run_labels f (xs @ ys) s =
     (case run_labels f xs s of None \<Rightarrow> None | Some s' \<Rightarrow> run_labels f ys s')"
  by (induction xs arbitrary: s) (auto split: option.splits)

lemma run_labels_trans:
  "run_labels f xs s = Some s' \<Longrightarrow> run_labels f ys s' = Some s'' \<Longrightarrow>
   run_labels f (xs @ ys) s = Some s''"
  by (simp add: run_labels_append)

definition halted :: "('l \<Rightarrow> 's \<Rightarrow> 's option) \<Rightarrow> 's \<Rightarrow> bool" where
  "halted f s \<longleftrightarrow> (\<forall>l. f l s = None)"

lemma run_labels_keep:
  "(\<And>s l s'. P s \<Longrightarrow> f l s = Some s' \<Longrightarrow> P s') \<Longrightarrow> P s \<Longrightarrow> run_labels f ls s = Some t \<Longrightarrow> P t"
  by (induction ls arbitrary: s) (auto split: option.splits)

text \<open>A system every step of which keeps an invariant and uses up some of a finite amount of work.\<close>

locale measured_system =
  fixes step :: "'l \<Rightarrow> 's \<Rightarrow> 's option"
    and good :: "'s \<Rightarrow> bool"
    and work :: "'s \<Rightarrow> nat"
  assumes good_step: "good s \<Longrightarrow> step l s = Some s' \<Longrightarrow> good s'"
    and work_step: "good s \<Longrightarrow> step l s = Some s' \<Longrightarrow> work s' < work s"
begin

lemma run_good: "good s \<Longrightarrow> run_labels step ls s = Some t \<Longrightarrow> good t \<and> length ls + work t \<le> work s"
proof (induction ls arbitrary: s)
  case (Cons l ls)
  then obtain s' where s': "step l s = Some s'" "run_labels step ls s' = Some t" by (auto split: option.splits)
  have "good s'" "work s' < work s" using good_step [OF Cons.prems(1) s'(1)] work_step [OF Cons.prems(1) s'(1)] .
  with Cons.IH [of s'] s'(2) show ?case by simp
qed simp

end

text \<open>... and which is never stuck before it is done: every run ends, and every end is a done state.\<close>

locale draining_system = measured_system +
  fixes done_state :: "'s \<Rightarrow> bool"
  assumes progress: "good s \<Longrightarrow> \<not> done_state s \<Longrightarrow> \<exists>l s'. step l s = Some s'"
begin

lemma halted_done: "good s \<Longrightarrow> halted step s \<Longrightarrow> done_state s"
  using progress by (fastforce simp: halted_def)

lemma can_finish: "good s \<Longrightarrow> \<exists>ls t. run_labels step ls s = Some t \<and> good t \<and> done_state t"
proof (induction "work s" arbitrary: s rule: less_induct)
  case less
  show ?case
  proof (cases "done_state s")
    case True
    with less.prems show ?thesis by (intro exI [of _ "[]"] exI [of _ s]) simp
  next
    case False
    with progress [OF less.prems] obtain l s' where s': "step l s = Some s'" by blast
    from less.hyps [OF work_step [OF less.prems s'] good_step [OF less.prems s']] obtain ls t where
      "run_labels step ls s' = Some t" "good t" "done_state t" by blast
    with s' show ?thesis by (intro exI [of _ "l # ls"] exI [of _ t]) simp
  qed
qed

end

locale diamond_system =
  fixes exec :: "'l \<Rightarrow> 's \<Rightarrow> 's option"
    and inv :: "'s \<Rightarrow> bool"
  assumes inv_step: "inv s \<Longrightarrow> exec l s = Some s' \<Longrightarrow> inv s'"
    and diamond: "inv s \<Longrightarrow> l \<noteq> l' \<Longrightarrow> exec l s = Some s1 \<Longrightarrow> exec l' s = Some s2 \<Longrightarrow>
      \<exists>t. exec l' s1 = Some t \<and> exec l s2 = Some t"
begin

lemma inv_run: "inv s \<Longrightarrow> run_labels exec ls s = Some s' \<Longrightarrow> inv s'"
  by (induction ls arbitrary: s) (auto split: option.splits dest: inv_step)

text \<open>A first step of any label can be moved to the front of a complete run.\<close>

lemma step_into_run:
  assumes "inv s" and "run_labels exec ls s = Some t" and "halted exec t"
    and "exec l s = Some s'"
  shows "\<exists>ls'. length ls = Suc (length ls') \<and> run_labels exec ls' s' = Some t"
  using assms
proof (induction ls arbitrary: s s')
  case Nil
  then show ?case by (simp add: halted_def)
next
  case (Cons k ls)
  from Cons.prems(2) obtain s1 where k: "exec k s = Some s1" and r: "run_labels exec ls s1 = Some t"
    by (auto split: option.splits)
  show ?case
  proof (cases "k = l")
    case True
    with k Cons.prems(4) r show ?thesis by auto
  next
    case False
    with diamond [OF Cons.prems(1) _ k Cons.prems(4)] obtain u
      where u: "exec l s1 = Some u" "exec k s' = Some u" by blast
    from Cons.IH [OF inv_step [OF Cons.prems(1) k] r Cons.prems(3) u(1)]
    obtain ls' where "length ls = Suc (length ls')" "run_labels exec ls' u = Some t" by blast
    with u(2) have "length (k # ls) = Suc (length (k # ls'))" "run_labels exec (k # ls') s' = Some t"
      by auto
    then show ?thesis by blast
  qed
qed

text \<open>
  With one complete run, every execution is a prefix of a run to the same final state: no
  schedule deadlocks, none runs forever, and all end in the same state.
\<close>

lemma any_run_completes:
  assumes "inv s" and "run_labels exec ls s = Some t" and "halted exec t"
    and "run_labels exec ks s = Some u"
  shows "length ks \<le> length ls \<and>
    (\<exists>ms. length ls = length ks + length ms \<and> run_labels exec ms u = Some t)"
  using assms
proof (induction ks arbitrary: s ls)
  case Nil
  then show ?case by auto
next
  case (Cons k ks)
  from Cons.prems(4) obtain s' where k: "exec k s = Some s'" and r: "run_labels exec ks s' = Some u"
    by (auto split: option.splits)
  from step_into_run [OF Cons.prems(1-3) k] obtain ls'
    where "length ls = Suc (length ls')" "run_labels exec ls' s' = Some t" by blast
  with Cons.IH [OF inv_step [OF Cons.prems(1) k] _ Cons.prems(3) r] show ?case by auto
qed

lemma halted_unique:
  assumes "inv s" and "run_labels exec ls s = Some t" and "halted exec t"
    and "run_labels exec ks s = Some u" and "halted exec u"
  shows "u = t"
proof -
  from any_run_completes [OF assms(1-4)] obtain ms where "run_labels exec ms u = Some t" by blast
  with \<open>halted exec u\<close> show ?thesis by (cases ms) (auto simp: halted_def)
qed

end

end
