(* ===== verification/Dtype.thy ===== *)
theory Dtype
  imports Prelude
begin

text \<open>
  Element types and reductions: \<open>include/stdml/bits/collective/dtype.hpp\<close> and
  \<open>src/stdml/collective/dtype.cpp\<close>. A buffer is a list of bytes; \<open>reduce\<close> reads its elements at
  the width of the type, little-endian, and combines them pairwise. Integer arithmetic is two's
  complement at the width of the type. The arithmetic of \<open>float\<close> and \<open>double\<close> is that of the
  machine and is the argument \<open>float_ops\<close>, on the bit patterns of the operands.

  The lemmas show that a reduction acts element by element, keeps the length of a buffer and is,
  for every integer type and operation, commutative and associative; locale \<open>reduction\<close> states
  that contract, and its lemmas give the value of a sequence of reductions independently of its
  order.
\<close>

named_theorems dtype_simps \<open>evaluating element types and reductions\<close>

unbundle bit_operations_syntax

datatype dtype = i8 | i16 | i32 | i64 | u8 | u16 | u32 | u64 | bf16 | f16 | f32 | f64

datatype reduce_op = sum_op | min_op | max_op | prod_op | bit_xor_op

fun dtype_size :: "dtype \<Rightarrow> nat res" where
  "dtype_size i8 = Inr 1"
| "dtype_size i16 = Inr 2"
| "dtype_size i32 = Inr 4"
| "dtype_size i64 = Inr 8"
| "dtype_size u8 = Inr 1"
| "dtype_size u16 = Inr 2"
| "dtype_size u32 = Inr 4"
| "dtype_size u64 = Inr 8"
| "dtype_size f32 = Inr 4"
| "dtype_size f64 = Inr 8"
| "dtype_size bf16 = Inl (Exception ''invalid_argument'')"
| "dtype_size f16 = Inl (Exception ''invalid_argument'')"

text \<open>\<open>std_min\<close> and \<open>std_max\<close> are \<open>std::min\<close> and \<open>std::max\<close>, which return their first argument on ties.\<close>

definition std_min :: "('a \<Rightarrow> 'a \<Rightarrow> bool) \<Rightarrow> 'a \<Rightarrow> 'a \<Rightarrow> 'a" where
  "std_min lt x y = (if lt y x then y else x)"

definition std_max :: "('a \<Rightarrow> 'a \<Rightarrow> bool) \<Rightarrow> 'a \<Rightarrow> 'a \<Rightarrow> 'a" where
  "std_max lt x y = (if lt x y then y else x)"

definition sless :: "'a::len word \<Rightarrow> 'a word \<Rightarrow> bool" where
  "sless x y \<longleftrightarrow> sint x < sint y"

definition std_xor :: "'a::len word \<Rightarrow> 'a word \<Rightarrow> 'a word" where
  "std_xor x y = x XOR y"

fun int_op :: "('a::len word \<Rightarrow> 'a word \<Rightarrow> bool) \<Rightarrow> reduce_op \<Rightarrow> 'a word \<Rightarrow> 'a word \<Rightarrow> 'a word" where
  "int_op lt sum_op x y = x + y"
| "int_op lt min_op x y = std_min lt x y"
| "int_op lt max_op x y = std_max lt x y"
| "int_op lt prod_op x y = x * y"
| "int_op lt bit_xor_op x y = std_xor x y"

text \<open>Elements of \<open>s\<close> bytes as machine words.\<close>

definition word_of_bytes :: "byte list \<Rightarrow> 'a::len word" where
  "word_of_bytes bs = word_of_nat (le_dec bs)"

definition bytes_of_word :: "nat \<Rightarrow> 'a::len word \<Rightarrow> byte list" where
  "bytes_of_word s x = le_enc s (unat x)"

text \<open>\<open>std::transform\<close> over two arrays of \<open>n\<close> elements of \<open>s\<close> bytes.\<close>

definition transform :: "nat \<Rightarrow> nat \<Rightarrow> ('a::len word \<Rightarrow> 'a word \<Rightarrow> 'a word) \<Rightarrow> byte list \<Rightarrow> byte list \<Rightarrow> byte list" where
  "transform s n f x y = concat (map2 (\<lambda>a b. bytes_of_word s (f (word_of_bytes a) (word_of_bytes b)))
     (chunks s n x) (chunks s n y))"

record float_ops =
  op_f32 :: "reduce_op \<Rightarrow> u32 \<Rightarrow> u32 \<Rightarrow> u32"
  op_f64 :: "reduce_op \<Rightarrow> u64 \<Rightarrow> u64 \<Rightarrow> u64"

text \<open>An example of float operations, for examples whose elements are integers.\<close>

definition first_operand :: float_ops where
  "first_operand = \<lparr>op_f32 = \<lambda>_ x _. x, op_f64 = \<lambda>_ x _. x\<rparr>"

text \<open>\<open>call_as\<close> at \<open>float\<close> and \<open>double\<close>: \<open>std_xor\<close> throws at the first element.\<close>

definition call_as_float :: "nat \<Rightarrow> (reduce_op \<Rightarrow> 'a::len word \<Rightarrow> 'a word \<Rightarrow> 'a word) \<Rightarrow>
    nat \<Rightarrow> reduce_op \<Rightarrow> byte list \<Rightarrow> byte list \<Rightarrow> byte list res" where
  "call_as_float s f n oper x y =
     (if oper = bit_xor_op \<and> 0 < n then Inl (Exception ''xor does not support float'')
      else Inr (transform s n (f oper) x y))"

definition call_as_int :: "nat \<Rightarrow> ('a::len word \<Rightarrow> 'a word \<Rightarrow> bool) \<Rightarrow>
    nat \<Rightarrow> reduce_op \<Rightarrow> byte list \<Rightarrow> byte list \<Rightarrow> byte list res" where
  "call_as_int s lt n oper x y = Inr (transform s n (int_op lt oper) x y)"

fun reduce :: "float_ops \<Rightarrow> byte list \<Rightarrow> byte list \<Rightarrow> nat \<Rightarrow> dtype \<Rightarrow> reduce_op \<Rightarrow> byte list res" where
  "reduce fo y z n i8 oper = call_as_int 1 (sless :: 8 word \<Rightarrow> _) n oper y z"
| "reduce fo y z n i16 oper = call_as_int 2 (sless :: 16 word \<Rightarrow> _) n oper y z"
| "reduce fo y z n i32 oper = call_as_int 4 (sless :: 32 word \<Rightarrow> _) n oper y z"
| "reduce fo y z n i64 oper = call_as_int 8 (sless :: 64 word \<Rightarrow> _) n oper y z"
| "reduce fo y z n u8 oper = call_as_int 1 ((<) :: 8 word \<Rightarrow> _) n oper y z"
| "reduce fo y z n u16 oper = call_as_int 2 ((<) :: 16 word \<Rightarrow> _) n oper y z"
| "reduce fo y z n u32 oper = call_as_int 4 ((<) :: 32 word \<Rightarrow> _) n oper y z"
| "reduce fo y z n u64 oper = call_as_int 8 ((<) :: 64 word \<Rightarrow> _) n oper y z"
| "reduce fo y z n f32 oper = call_as_float 4 (op_f32 fo) n oper y z"
| "reduce fo y z n f64 oper = call_as_float 8 (op_f64 fo) n oper y z"
| "reduce fo y z n bf16 oper = Inl (Exit 1)"
| "reduce fo y z n f16 oper = Inl (Exit 1)"

section \<open>The contract of a reduction\<close>

definition total :: "('b \<Rightarrow> 'b \<Rightarrow> 'b) \<Rightarrow> 'b list \<Rightarrow> 'b" where
  "total f xs = fold f (tl xs) (hd xs)"

text \<open>
  \<open>total f xs\<close> combines a non-empty list of contributions from left to right.
  \<open>ok\<close> selects the buffers of the right length. The lemmas are those a collective needs: a result
  that collects contributions one by one does not depend on the order in which they arrive.
\<close>

locale reduction =
  fixes f :: "'b \<Rightarrow> 'b \<Rightarrow> 'b" and ok :: "'b \<Rightarrow> bool"
  assumes closed: "ok a \<Longrightarrow> ok b \<Longrightarrow> ok (f a b)"
    and comm: "ok a \<Longrightarrow> ok b \<Longrightarrow> f a b = f b a"
    and assoc: "ok a \<Longrightarrow> ok b \<Longrightarrow> ok c \<Longrightarrow> f (f a b) c = f a (f b c)"
begin

lemma left_comm: "ok a \<Longrightarrow> ok b \<Longrightarrow> ok c \<Longrightarrow> f a (f b c) = f b (f a c)"
  by (metis assoc comm)

lemma fold_closed: "\<forall>x\<in>set xs. ok x \<Longrightarrow> ok a \<Longrightarrow> ok (fold f xs a)"
  by (induction xs arbitrary: a) (auto intro: closed)

lemma fold_pull: "\<forall>x\<in>set xs. ok x \<Longrightarrow> ok a \<Longrightarrow> ok b \<Longrightarrow> fold f xs (f a b) = f a (fold f xs b)"
proof (induction xs arbitrary: b)
  case Nil
  show ?case by simp
next
  case (Cons x xs)
  then have "fold f (x # xs) (f a b) = fold f xs (f a (f x b))" by (simp add: left_comm)
  with Cons show ?case by (simp add: closed)
qed

lemma fold_split:
  "ys = us @ y # vs \<Longrightarrow> \<forall>x\<in>set ys. ok x \<Longrightarrow> ok a \<Longrightarrow> fold f ys a = fold f (us @ vs) (f y a)"
proof -
  assume ys: "ys = us @ y # vs" and ok: "\<forall>x\<in>set ys. ok x" "ok a"
  have "fold f ys a = fold f vs (f y (fold f us a))" using ys by simp
  also have "f y (fold f us a) = fold f us (f y a)" using ys ok by (simp add: fold_pull)
  finally show ?thesis by simp
qed

lemma fold_perm:
  "mset xs = mset ys \<Longrightarrow> \<forall>x\<in>set xs. ok x \<Longrightarrow> ok a \<Longrightarrow> fold f xs a = fold f ys a"
proof (induction xs arbitrary: ys a)
  case Nil
  then show ?case by simp
next
  case (Cons x xs)
  from Cons.prems(1) have "x \<in> set ys" by (metis list.set_intros(1) mset_eq_setD)
  then obtain us vs where ys: "ys = us @ x # vs" by (meson split_list)
  have okys: "\<forall>y\<in>set ys. ok y" using Cons.prems(1,2) by (metis mset_eq_setD)
  have "mset xs = mset (us @ vs)" using Cons.prems(1) ys by simp
  then have "fold f xs (f x a) = fold f (us @ vs) (f x a)"
    using Cons.prems by (intro Cons.IH) (auto intro: closed)
  with fold_split [OF ys okys Cons.prems(3)] show ?case by simp
qed

text \<open>The total of a non-empty list of contributions does not depend on the order.\<close>

lemma fold_total: "xs \<noteq> [] \<Longrightarrow> \<forall>x\<in>set xs. ok x \<Longrightarrow> ok a \<Longrightarrow> fold f xs a = f a (total f xs)"
proof (cases xs)
  case (Cons x xs')
  moreover assume "\<forall>x\<in>set xs. ok x" "ok a"
  ultimately show ?thesis by (simp add: total_def comm [of x a] fold_pull)
qed simp

lemma total_perm: "mset xs = mset ys \<Longrightarrow> xs \<noteq> [] \<Longrightarrow> \<forall>x\<in>set xs. ok x \<Longrightarrow> total f xs = total f ys"
proof (cases xs; cases ys)
  fix x xs' y ys'
  assume perm: "mset xs = mset ys" and ok: "\<forall>x\<in>set xs. ok x"
    and xs: "xs = x # xs'" and ys: "ys = y # ys'"
  have okys: "\<forall>y\<in>set ys. ok y" using perm ok by (metis mset_eq_setD)
  show "total f xs = total f ys"
  proof (cases "x = y")
    case True
    with perm xs ys have "mset xs' = mset ys'" by simp
    with True xs ys ok show ?thesis by (simp add: total_def fold_perm)
  next
    case False
    with perm xs ys have "x \<in> set ys'" by (metis insert_noteq_member mset.simps(2) set_mset_mset)
    then obtain us vs where sp: "ys' = us @ x # vs" by (meson split_list)
    with perm xs ys have m: "mset xs' = mset (y # us @ vs)" by simp
    have "total f xs = fold f (y # us @ vs) x"
      using fold_perm [OF m, of x] ok xs by (simp add: total_def)
    also have "\<dots> = fold f (us @ vs) (f x y)" using ok okys xs ys by (simp add: comm)
    also have "\<dots> = total f ys"
      using fold_split [OF sp, of y] okys ys by (simp add: total_def)
    finally show ?thesis .
  qed
qed auto

end

section \<open>Lemmas\<close>

lemma word_bytes_word:
  "256 ^ s = (2::nat) ^ LENGTH('a) \<Longrightarrow> word_of_bytes (bytes_of_word s (x :: 'a::len word)) = x"
  by (simp add: word_of_bytes_def bytes_of_word_def le_dec_enc unsigned_less)

lemma length_bytes_of_word [simp]: "length (bytes_of_word s x) = s"
  by (simp add: bytes_of_word_def)

lemma length_transform [simp]: "length (transform s n f x y) = n * s"
  unfolding transform_def by (subst length_concat_const [where s = s]) auto

lemma chunks_transform:
  "chunks s n (transform s n f x y) =
     map2 (\<lambda>a b. bytes_of_word s (f (word_of_bytes a) (word_of_bytes b))) (chunks s n x) (chunks s n y)"
  unfolding transform_def by (rule chunks_concat) auto

lemma sless_total: "\<not> sless x y \<Longrightarrow> \<not> sless y x \<Longrightarrow> x = y"
  by (rule signed_word_eqI [where 'a = int]) (simp add: sless_def)

lemma int_op_comm:
  assumes "lt = (<) \<or> lt = sless"
  shows "int_op lt oper x y = int_op lt oper y x"
  using assms by (cases oper)
    (auto simp: std_min_def std_max_def std_xor_def xor.commute sless_def intro: sless_total)

lemma int_op_assoc:
  assumes "lt = (<) \<or> lt = sless"
  shows "int_op lt oper (int_op lt oper x y) z = int_op lt oper x (int_op lt oper y z)"
  using assms by (cases oper)
    (auto simp: std_min_def std_max_def std_xor_def xor.assoc sless_def ac_simps)

lemma int_op_comm':
  "int_op (<) oper x y = int_op (<) oper y x" "int_op sless oper x y = int_op sless oper y x"
  by (simp_all add: int_op_comm)

text \<open>Facts on one element carry over to buffers.\<close>

lemma transform_comm:
  assumes "\<And>a b. f a b = f b a"
  shows "transform s n f x y = transform s n f y x"
  unfolding transform_def by (rule arg_cong [where f = concat], rule nth_equalityI) (simp_all add: assms)

lemma transform_assoc:
  fixes f :: "'a::len word \<Rightarrow> 'a word \<Rightarrow> 'a word"
  assumes "256 ^ s = (2::nat) ^ LENGTH('a)" and "\<And>a b c. f (f a b) c = f a (f b c)"
  shows "transform s n f (transform s n f x y) z = transform s n f x (transform s n f y z)"
  unfolding transform_def [of s n f "transform s n f x y"] transform_def [of s n f x "transform s n f y z"]
    chunks_transform
  by (rule arg_cong [where f = concat], rule nth_equalityI) (simp_all add: assms word_bytes_word)

lemma chunks_nth: "i < n \<Longrightarrow> chunks s n xs ! i = take s (drop (i * s) xs)"
proof (induction s n xs arbitrary: i rule: chunks.induct)
  case (1 s xs)
  then show ?case by simp
next
  case (2 s n xs)
  then show ?case by (cases i) (simp_all add: add.commute)
qed

text \<open>Integer types, on which the collectives are exact.\<close>

fun is_integer :: "dtype \<Rightarrow> bool" where
  "is_integer dt \<longleftrightarrow> dt \<in> {i8, i16, i32, i64, u8, u16, u32, u64}"

definition elem_size :: "dtype \<Rightarrow> nat" where
  "elem_size dt = (case dtype_size dt of Inl _ \<Rightarrow> 0 | Inr s \<Rightarrow> s)"

definition combine :: "float_ops \<Rightarrow> nat \<Rightarrow> dtype \<Rightarrow> reduce_op \<Rightarrow> byte list \<Rightarrow> byte list \<Rightarrow> byte list" where
  "combine fo n dt oper x y = (case reduce fo x y n dt oper of Inl _ \<Rightarrow> [] | Inr z \<Rightarrow> z)"

lemmas combine_simps = combine_def call_as_int_def elem_size_def

lemma elem_size_pos: "is_integer dt \<Longrightarrow> 0 < elem_size dt"
  by (cases dt) (simp_all add: elem_size_def)

lemma dtype_size_integer: "is_integer dt \<Longrightarrow> dtype_size dt = Inr (elem_size dt)"
  by (cases dt) (simp_all add: elem_size_def)

lemma reduce_integer: "is_integer dt \<Longrightarrow> reduce fo x y n dt oper = Inr (combine fo n dt oper x y)"
  by (cases dt) (simp_all add: combine_simps)

lemma combine_comm: "is_integer dt \<Longrightarrow> combine fo n dt oper x y = combine fo n dt oper y x"
  by (cases dt) (simp_all add: combine_simps transform_comm [OF int_op_comm'(1)] transform_comm [OF int_op_comm'(2)])

lemma combine_assoc: "is_integer dt \<Longrightarrow>
    combine fo n dt oper (combine fo n dt oper x y) z = combine fo n dt oper x (combine fo n dt oper y z)"
  by (cases dt) (simp_all add: combine_simps transform_assoc int_op_assoc)

lemma length_combine: "is_integer dt \<Longrightarrow> length (combine fo n dt oper x y) = n * elem_size dt"
  by (cases dt) (simp_all add: combine_simps)

text \<open>The integer reductions satisfy the contract on buffers of \<open>n\<close> elements.\<close>

definition ok_buf :: "nat \<Rightarrow> dtype \<Rightarrow> byte list \<Rightarrow> bool" where
  "ok_buf n dt b \<longleftrightarrow> is_integer dt \<and> length b = n * elem_size dt"

interpretation red: reduction "combine fo n dt oper" "ok_buf n dt" for fo n dt oper
  by unfold_locales (auto simp: ok_buf_def length_combine combine_assoc simp del: is_integer.simps intro: combine_comm)

section \<open>Properties\<close>

lemma transform_nth:
  "i < n \<Longrightarrow> take s (drop (i * s) (transform s n f x y)) =
     transform s 1 f (take s (drop (i * s) x)) (take s (drop (i * s) y))"
  by (simp add: chunks_nth [symmetric] chunks_transform)
    (simp add: transform_def chunks_nth)

lemma call_as_nth:
  "call_as_int s lt n oper x y = Inr z \<Longrightarrow> i < n \<Longrightarrow>
     call_as_int s lt 1 oper (take s (drop (i * s) x)) (take s (drop (i * s) y)) =
     Inr (take s (drop (i * s) z))"
  "call_as_float s g n oper x y = Inr z \<Longrightarrow> i < n \<Longrightarrow>
     call_as_float s g 1 oper (take s (drop (i * s) x)) (take s (drop (i * s) y)) =
     Inr (take s (drop (i * s) z))"
  by (auto simp: call_as_int_def call_as_float_def transform_nth split: if_splits)

lemma reduce_elementwise:
  assumes "reduce fo x y n dt oper = Inr z" and "i < n" and "dtype_size dt = Inr s"
  shows "reduce fo (take s (drop (i * s) x)) (take s (drop (i * s) y)) 1 dt oper =
    Inr (take s (drop (i * s) z))"
  using assms by (cases dt) (auto dest: call_as_nth)

lemma length_reduce: "reduce fo x y n dt oper = Inr z \<Longrightarrow> dtype_size dt = Inr s \<Longrightarrow> length z = n * s"
  by (cases dt) (auto simp: call_as_int_def call_as_float_def split: if_splits)

lemma reduce_fails_iff:
  "(\<exists>e. reduce fo x y n dt oper = Inl e) \<longleftrightarrow>
     dt \<in> {bf16, f16} \<or> (dt \<in> {f32, f64} \<and> oper = bit_xor_op \<and> 0 < n)"
  by (cases dt) (auto simp: call_as_int_def call_as_float_def)

text \<open>When \<open>reduce\<close> returns, element \<open>i\<close> of its result is the reduction of elements \<open>i\<close> of its
  arguments, for every element type and operation.\<close>

theorem reduce_pointwise:
  assumes "reduce fo x y n dt oper = Inr z" and "dtype_size dt = Inr s"
  shows "length z = n * s \<and> (\<forall>i<n. reduce fo (take s (drop (i * s) x)) (take s (drop (i * s) y)) 1 dt oper =
    Inr (take s (drop (i * s) z)))"
  using reduce_elementwise [OF assms(1) _ assms(2)] length_reduce [OF assms] by blast

theorem reduce_pointwise_witness:
  "\<exists>z. length (z :: byte list) = 2 * 1 \<and> (\<forall>i<2. reduce first_operand
     (take 1 (drop (i * 1) [3, 250])) (take 1 (drop (i * 1) [1, 7])) 1 u8 sum_op = Inr (take 1 (drop (i * 1) z)))"
proof (intro exI)
  let ?fo = first_operand
  let ?z = "transform 1 2 (int_op ((<) :: 8 word \<Rightarrow> _) sum_op) [3, 250] [1, 7]"
  have "reduce ?fo [3, 250] [1, 7] 2 u8 sum_op = Inr ?z" by (simp add: call_as_int_def)
  then show "length ?z = 2 * 1 \<and> (\<forall>i<2. reduce ?fo (take 1 (drop (i * 1) [3, 250]))
      (take 1 (drop (i * 1) [1, 7])) 1 u8 sum_op = Inr (take 1 (drop (i * 1) ?z)))"
    by (rule reduce_pointwise) simp
qed

text \<open>\<open>reduce\<close> fails exactly for the 16-bit float types, which end the process, and for an exclusive
  or of floating-point elements, which throws.\<close>

theorem reduce_errors:
  "(\<exists>e. reduce fo x y n dt oper = Inl e) \<longleftrightarrow>
     dt \<in> {bf16, f16} \<or> (dt \<in> {f32, f64} \<and> oper = bit_xor_op \<and> 0 < n)"
  by (rule reduce_fails_iff)

text \<open>For every integer type and operation, combining a list of buffers gives the same bytes in any
  order.\<close>

theorem reduce_order_irrelevant:
  assumes "is_integer dt" and "mset xs = mset ys" and "xs \<noteq> []" and "\<forall>x\<in>set xs. length x = n * elem_size dt"
  shows "total (combine fo n dt oper) xs = total (combine fo n dt oper) ys"
  using assms by (intro red.total_perm) (auto simp: ok_buf_def)

theorem reduce_order_irrelevant_witness:
  "total (combine first_operand 1 i32 max_op) [[1, 0, 0, 0], [255, 255, 255, 255], [7, 0, 0, 0]] =
   total (combine first_operand 1 i32 max_op) [[7, 0, 0, 0], [1, 0, 0, 0], [255, 255, 255, 255]]"
  by (rule reduce_order_irrelevant) (simp_all add: elem_size_def)

end
