(* ===== verification/Cxx_Std.thy ===== *)
theory Cxx_Std
  imports Prelude
begin

text \<open>
  The parts of the C and C++ standard libraries the sources call on strings, as executable
  functions: \<open>std::to_string\<close>, the \<open>scanf\<close> conversions \<open>%hhu\<close>, \<open>%hu\<close> and \<open>%d\<close>, \<open>std::stoi\<close>,
  \<open>std::string::find\<close>, \<open>isspace\<close> and \<open>tolower\<close> in the C locale, and \<open>std::getline\<close> with a
  separator. The \<open>scanf\<close> conversions follow glibc: the digits are converted by \<open>strtoul\<close> or
  \<open>strtol\<close> (64 bits, saturating) and the result is stored modulo the width of the target.
  The lemmas give the round trips from printing to scanning.
\<close>

section \<open>Characters\<close>

abbreviation code :: "char \<Rightarrow> nat" where
  "code c \<equiv> of_char c"

definition is_digit :: "char \<Rightarrow> bool" where
  "is_digit c \<longleftrightarrow> 48 \<le> code c \<and> code c \<le> 57"

definition digit_char :: "nat \<Rightarrow> char" where
  "digit_char d = char_of (48 + d)"

definition digit_val :: "char \<Rightarrow> nat" where
  "digit_val c = code c - 48"

definition isspace :: "char \<Rightarrow> bool" where
  "isspace c \<longleftrightarrow> code c = 32 \<or> (9 \<le> code c \<and> code c \<le> 13)"

definition tolower :: "char \<Rightarrow> char" where
  "tolower c = (if 65 \<le> code c \<and> code c \<le> 90 then char_of (code c + 32) else c)"

section \<open>Printing and scanning decimal numbers\<close>

fun to_string :: "nat \<Rightarrow> string" where
  "to_string n = (if n < 10 then [digit_char n] else to_string (n div 10) @ [digit_char (n mod 10)])"

declare to_string.simps [simp del]

definition to_string_int :: "int \<Rightarrow> string" where
  "to_string_int i = (if i < 0 then CHR ''-'' # to_string (nat (- i)) else to_string (nat i))"

fun scan_digits :: "nat \<Rightarrow> string \<Rightarrow> nat \<times> string" where
  "scan_digits acc [] = (acc, [])"
| "scan_digits acc (c # cs) =
     (if is_digit c then scan_digits (10 * acc + digit_val c) cs else (acc, c # cs))"

definition scan_sign :: "string \<Rightarrow> bool \<times> string" where
  "scan_sign s = (case s of
       [] \<Rightarrow> (False, [])
     | c # cs \<Rightarrow> if c = CHR ''-'' then (True, cs) else if c = CHR ''+'' then (False, cs) else (False, s))"

text \<open>Optional white space and sign, then at least one digit: the sign, the magnitude, the rest.\<close>

definition scan_number :: "string \<Rightarrow> ((bool \<times> nat) \<times> string) option" where
  "scan_number s =
     (let (neg, s2) = scan_sign (dropWhile isspace s) in
      case s2 of [] \<Rightarrow> None
      | c # _ \<Rightarrow> if is_digit c then (let (v, rest) = scan_digits 0 s2 in Some ((neg, v), rest)) else None)"

definition strtoul :: "bool \<Rightarrow> nat \<Rightarrow> nat" where
  "strtoul neg v = (if 2 ^ 64 \<le> v then 2 ^ 64 - 1 else if neg then (2 ^ 64 - v) mod 2 ^ 64 else v)"

definition strtol :: "bool \<Rightarrow> nat \<Rightarrow> int" where
  "strtol neg v = (if neg then max (- (2 ^ 63)) (- int v) else min (2 ^ 63 - 1) (int v))"

definition scan_unsigned :: "nat \<Rightarrow> string \<Rightarrow> (nat \<times> string) option" where
  "scan_unsigned bits s = (case scan_number s of None \<Rightarrow> None
     | Some ((neg, v), rest) \<Rightarrow> Some (strtoul neg v mod 2 ^ bits, rest))"

definition scan_int :: "string \<Rightarrow> (int \<times> string) option" where
  "scan_int s = (case scan_number s of None \<Rightarrow> None
     | Some ((neg, v), rest) \<Rightarrow> Some (sint (word_of_int (strtol neg v) :: 32 word), rest))"

text \<open>A literal character of a \<open>scanf\<close> format.\<close>

definition scan_lit :: "char \<Rightarrow> string \<Rightarrow> string option" where
  "scan_lit c s = (case s of [] \<Rightarrow> None | d # ds \<Rightarrow> if d = c then Some ds else None)"

definition stoi :: "string \<Rightarrow> int res" where
  "stoi s = (case scan_number s of
       None \<Rightarrow> Inl (Exception ''std::invalid_argument'')
     | Some ((neg, v), _) \<Rightarrow>
         (let i = strtol neg v in
          if i < - (2 ^ 31) \<or> 2 ^ 31 - 1 < i then Inl (Exception ''std::out_of_range'') else Inr i))"

section \<open>Searching and splitting\<close>

text \<open>\<open>std::string::find(c, from)\<close>; \<open>None\<close> is \<open>npos\<close>.\<close>

fun find_char :: "char \<Rightarrow> string \<Rightarrow> nat option" where
  "find_char c [] = None"
| "find_char c (d # ds) = (if d = c then Some 0 else map_option Suc (find_char c ds))"

definition find_from :: "char \<Rightarrow> nat \<Rightarrow> string \<Rightarrow> nat option" where
  "find_from c k s = map_option (\<lambda>i. i + k) (find_char c (drop k s))"

text \<open>The pieces \<open>std::getline(ss, line, sep)\<close> yields until it fails.\<close>

function getlines :: "char \<Rightarrow> string \<Rightarrow> string list" where
  "getlines sep [] = []"
| "getlines sep (c # cs) =
     takeWhile (\<lambda>x. x \<noteq> sep) (c # cs) # getlines sep (drop 1 (dropWhile (\<lambda>x. x \<noteq> sep) (c # cs)))"
  by pat_completeness auto
termination
proof (relation "measure (\<lambda>(sep, s). length s)")
  fix sep c :: char and cs :: string
  have "length (dropWhile (\<lambda>x. x \<noteq> sep) (c # cs)) \<le> length (c # cs)" by (rule length_dropWhile_le)
  then show "((sep, drop 1 (dropWhile (\<lambda>x. x \<noteq> sep) (c # cs))), (sep, c # cs))
      \<in> measure (\<lambda>(sep, s). length s)" by simp
qed simp

text \<open>Joining with a separator, as \<open>std::experimental::make_ostream_joiner\<close> writes.\<close>

fun join :: "string \<Rightarrow> string list \<Rightarrow> string" where
  "join sep [] = []"
| "join sep [x] = x"
| "join sep (x # y # ys) = x @ sep @ join sep (y # ys)"

text \<open>The input after a number does not start with another digit.\<close>

definition no_digit :: "string \<Rightarrow> bool" where
  "no_digit rest \<longleftrightarrow> rest = [] \<or> \<not> is_digit (hd rest)"

section \<open>Lemmas\<close>

lemma no_digit_Nil [simp]: "no_digit []"
  by (simp add: no_digit_def)

lemma no_digit_Cons [simp]: "no_digit (c # cs) \<longleftrightarrow> \<not> is_digit c"
  by (simp add: no_digit_def)

lemma code_digit_char: "d < 10 \<Longrightarrow> code (digit_char d) = 48 + d"
  by (simp add: digit_char_def)

lemma is_digit_digit_char [simp]: "d < 10 \<Longrightarrow> is_digit (digit_char d)"
  by (simp add: is_digit_def code_digit_char)

lemma digit_val_digit_char [simp]: "d < 10 \<Longrightarrow> digit_val (digit_char d) = d"
  by (simp add: digit_val_def code_digit_char)

lemma to_string_nonempty [simp]: "to_string n \<noteq> []"
  by (subst to_string.simps) simp

lemma to_string_digits: "c \<in> set (to_string n) \<Longrightarrow> is_digit c"
proof (induction n rule: to_string.induct)
  case (1 n)
  show ?case
  proof (cases "n < 10")
    case True
    with "1.prems" show ?thesis by (simp add: to_string.simps [of n])
  next
    case False
    with "1.prems" "1.IH" show ?thesis by (auto simp: to_string.simps [of n])
  qed
qed

lemma scan_digits_append:
  "(\<And>c. c \<in> set xs \<Longrightarrow> is_digit c) \<Longrightarrow>
   scan_digits acc (xs @ ys) = scan_digits (fst (scan_digits acc xs)) ys"
  by (induction xs arbitrary: acc) auto

lemma scan_digits_stop:
  "no_digit rest \<Longrightarrow> scan_digits acc rest = (acc, rest)"
  by (cases rest) (auto simp: no_digit_def)

lemma fst_scan_digits_to_string: "fst (scan_digits 0 (to_string n)) = n"
proof (induction n rule: to_string.induct)
  case (1 n)
  show ?case
  proof (cases "n < 10")
    case True
    then show ?thesis by (simp add: to_string.simps [of n])
  next
    case False
    with "1.IH" have "fst (scan_digits 0 (to_string (n div 10))) = n div 10" by simp
    with False show ?thesis
      by (simp add: to_string.simps [of n] scan_digits_append to_string_digits)
  qed
qed

lemma scan_digits_to_string:
  assumes "no_digit rest"
  shows "scan_digits 0 (to_string n @ rest) = (n, rest)"
  using assms
  by (simp add: scan_digits_append to_string_digits fst_scan_digits_to_string scan_digits_stop)

lemma digit_not_space: "is_digit c \<Longrightarrow> \<not> isspace c"
  by (auto simp: is_digit_def isspace_def)

lemma digit_not_sign: "is_digit c \<Longrightarrow> c \<noteq> CHR ''-'' \<and> c \<noteq> CHR ''+''"
  by (auto simp: is_digit_def)

lemma scan_number_to_string:
  assumes "no_digit rest"
  shows "scan_number (to_string n @ rest) = Some ((False, n), rest)"
proof -
  obtain c cs where c: "to_string n = c # cs" by (cases "to_string n") simp_all
  then have d: "is_digit c" using to_string_digits [of c n] by simp
  have "dropWhile isspace (to_string n @ rest) = to_string n @ rest"
    using c digit_not_space [OF d] by simp
  moreover have "scan_sign (to_string n @ rest) = (False, to_string n @ rest)"
    using c digit_not_sign [OF d] by (simp add: scan_sign_def)
  ultimately have "scan_number (to_string n @ rest) =
      (let (v, r) = scan_digits 0 (to_string n @ rest) in Some ((False, v), r))"
    using c d by (simp add: scan_number_def)
  with scan_digits_to_string [OF assms] show ?thesis by simp
qed

lemma scan_unsigned_to_string:
  assumes "n < 2 ^ 64" and "no_digit rest"
  shows "scan_unsigned bits (to_string n @ rest) = Some (n mod 2 ^ bits, rest)"
  using assms by (simp add: scan_unsigned_def scan_number_to_string strtoul_def)

lemma stoi_to_string: "n < 2 ^ 31 \<Longrightarrow> stoi (to_string n) = Inr (int n)"
  using scan_number_to_string [of "[]" n] by (simp add: stoi_def strtol_def Let_def)

lemma to_string_inj: "to_string m = to_string n \<Longrightarrow> m = n"
  by (metis fst_scan_digits_to_string)

lemma find_char_None: "find_char c s = None \<longleftrightarrow> c \<notin> set s"
  by (induction s) auto

lemma find_char_Some:
  "find_char c s = Some i \<longleftrightarrow> (\<exists>t u. s = t @ c # u \<and> length t = i \<and> c \<notin> set t)"
proof (induction s arbitrary: i)
  case Nil
  show ?case by simp
next
  case (Cons d s)
  show ?case
  proof (cases "d = c")
    case True
    then show ?thesis by (auto simp: Cons_eq_append_conv)
  next
    case False
    show ?thesis
    proof
      assume "find_char c (d # s) = Some i"
      with False obtain j where "find_char c s = Some j" "i = Suc j" by auto
      with Cons.IH obtain t u where "s = t @ c # u" "length t = j" "c \<notin> set t" by blast
      with False \<open>i = Suc j\<close> have "d # s = (d # t) @ c # u \<and> length (d # t) = i \<and> c \<notin> set (d # t)"
        by simp
      then show "\<exists>t u. d # s = t @ c # u \<and> length t = i \<and> c \<notin> set t" by blast
    next
      assume "\<exists>t u. d # s = t @ c # u \<and> length t = i \<and> c \<notin> set t"
      then obtain t u where t: "d # s = t @ c # u" "length t = i" "c \<notin> set t" by blast
      with False obtain t' where t': "t = d # t'" "s = t' @ c # u" by (cases t) auto
      with t Cons.IH [of "length t'"] have "find_char c s = Some (length t')" by auto
      with False t t' show "find_char c (d # s) = Some i" by auto
    qed
  qed
qed

lemma find_char_append: "c \<notin> set t \<Longrightarrow> find_char c (t @ c # u) = Some (length t)"
  by (auto simp: find_char_Some)

lemma getlines_piece:
  "sep \<notin> set x \<Longrightarrow> x \<noteq> [] \<Longrightarrow> getlines sep (x @ sep # rest) = x # getlines sep rest"
  by (cases x) (auto simp: takeWhile_append dropWhile_append takeWhile_eq_all_conv)

lemma getlines_last: "sep \<notin> set x \<Longrightarrow> x \<noteq> [] \<Longrightarrow> getlines sep x = [x]"
proof (cases x)
  case (Cons a as)
  moreover assume "sep \<notin> set x"
  ultimately have "dropWhile (\<lambda>y. y \<noteq> sep) x = []" "takeWhile (\<lambda>y. y \<noteq> sep) x = x"
    by (auto simp: takeWhile_eq_all_conv)
  with Cons show ?thesis by simp
qed simp

lemma getlines_join:
  "(\<And>x. x \<in> set xs \<Longrightarrow> x \<noteq> [] \<and> sep \<notin> set x) \<Longrightarrow> getlines sep (join [sep] xs) = xs"
proof (induction xs rule: induct_list012)
  case 1
  show ?case by simp
next
  case (2 x)
  then show ?case by (simp add: getlines_last)
next
  case (3 x y ys)
  then show ?case by (simp add: getlines_piece)
qed

end
