(* ===== verification/Buffer.thy ===== *)
theory Buffer
  imports Dtype Cxx_Std
begin

text \<open>
  Buffers and workspaces: \<open>include/stdml/bits/collective/buffer.hpp\<close>. A pointer is an address of
  the byte memory of its process. \<open>workspace\<close> describes one collective operation; \<open>split\<close> cuts it
  into parts with \<open>even_partition\<close>, and \<open>workspace_state\<close> accumulates what a process receives.
  Sizes are \<open>size_t\<close>, kept as \<open>nat\<close>: a buffer that exists is smaller than the address space.

  The lemmas show that a partition tiles its interval with lengths that differ by at most one,
  that the parts of a workspace tile its send and receive buffers and have different names, and
  what \<open>add_to\<close> and \<open>forward\<close> do to the memory.
\<close>

section \<open>Definitions\<close>

definition bb_append :: "byte list \<Rightarrow> mem \<Rightarrow> nat \<Rightarrow> nat \<Rightarrow> byte list" where
  "bb_append b m p n = b @ read_mem m p n"

definition divide :: "nat \<Rightarrow> nat \<Rightarrow> (nat \<times> nat) res" where
  "divide a b =
     (if b = 0 then Inl (Undefined_behaviour ''division by zero'')
      else (let q = a div b; r = a - b * q in Inr (q, r)))"

record interval =
  i_begin :: nat
  i_end :: nat

definition interval_len :: "interval \<Rightarrow> nat" where
  "interval_len i = i_end i - i_begin i"

text \<open>The loop of \<open>even_partition\<close>: \<open>j\<close> counts up, \<open>m\<close> is \<open>k - j\<close>.\<close>

fun partition_loop :: "nat \<Rightarrow> nat \<Rightarrow> nat \<Rightarrow> nat \<Rightarrow> nat \<Rightarrow> interval list" where
  "partition_loop q r off j 0 = []"
| "partition_loop q r off j (Suc m) =
     (let sz = (if j < r then q + 1 else q) in
      \<lparr>i_begin = off, i_end = off + sz\<rparr> # partition_loop q r (off + sz) (j + 1) m)"

definition even_partition :: "interval \<Rightarrow> nat \<Rightarrow> interval list res" where
  "even_partition i k =
     res_bind (divide (interval_len i) k) (\<lambda>(q, r). Inr (partition_loop q r (i_begin i) 0 k))"

record workspace =
  w_send :: nat
  w_recv :: nat
  w_count :: nat
  w_dt :: dtype
  w_op :: reduce_op
  w_name :: string

definition data_size :: "workspace \<Rightarrow> nat res" where
  "data_size w = res_map (\<lambda>s. w_count w * s) (dtype_size (w_dt w))"

definition slice_name :: "string \<Rightarrow> nat \<Rightarrow> nat \<Rightarrow> string" where
  "slice_name name i j = ''part::'' @ name @ ''['' @ to_string i @ '':'' @ to_string j @ '']''"

definition slice :: "workspace \<Rightarrow> nat \<Rightarrow> nat \<Rightarrow> workspace res" where
  "slice w i j = res_bind (dtype_size (w_dt w)) (\<lambda>s. Inr
     \<lparr>w_send = w_send w + i * s, w_recv = w_recv w + i * s, w_count = j - i,
      w_dt = w_dt w, w_op = w_op w, w_name = slice_name (w_name w) i j\<rparr>)"

definition split :: "workspace \<Rightarrow> nat \<Rightarrow> workspace list res" where
  "split w k =
     res_bind (even_partition \<lparr>i_begin = 0, i_end = w_count w\<rparr> k)
       (res_mapM (\<lambda>i. slice w (i_begin i) (i_end i)))"

definition disjoint_or_same :: "nat \<Rightarrow> nat \<Rightarrow> nat \<Rightarrow> bool" where
  "disjoint_or_same p q n \<longleftrightarrow> p = q \<or> p + n \<le> q \<or> q + n \<le> p"

text \<open>\<open>memcpy\<close> between different overlapping regions is undefined.\<close>

definition forward :: "workspace \<Rightarrow> mem \<Rightarrow> mem res" where
  "forward w m =
     (if w_recv w \<noteq> w_send w then
        res_bind (data_size w) (\<lambda>n.
          if disjoint_or_same (w_recv w) (w_send w) n then Inr (write_mem m (w_recv w) (read_mem m (w_send w) n))
          else Inl (Undefined_behaviour ''overlapping memcpy''))
      else Inr m)"

record workspace_state =
  st_w :: workspace
  recv_count :: nat

definition new_state :: "workspace \<Rightarrow> workspace_state" where
  "new_state w = \<lparr>st_w = w, recv_count = 0\<rparr>"

definition effective_data :: "workspace_state \<Rightarrow> nat" where
  "effective_data st = (if recv_count st > 0 then w_recv (st_w st) else w_send (st_w st))"

definition add_to :: "float_ops \<Rightarrow> byte list \<Rightarrow> workspace_state \<times> mem \<Rightarrow> (workspace_state \<times> mem) res" where
  "add_to fo data = (\<lambda>(st, m).
     (let w = st_w st; ptr = effective_data st in
      res_bind (dtype_size (w_dt w)) (\<lambda>s.
      res_bind (reduce fo data (read_mem m ptr (w_count w * s)) (w_count w) (w_dt w) (w_op w)) (\<lambda>z.
        Inr (st\<lparr>recv_count := recv_count st + 1\<rparr>, write_mem m (w_recv w) z)))))"

section \<open>Partitions\<close>

text \<open>\<open>tiles a b ps\<close>: the intervals are adjacent, the first begins at \<open>a\<close> and the last ends at \<open>b\<close>.\<close>

fun tiles :: "nat \<Rightarrow> nat \<Rightarrow> interval list \<Rightarrow> bool" where
  "tiles a b [] \<longleftrightarrow> a = b"
| "tiles a b (i # ps) \<longleftrightarrow> i_begin i = a \<and> a \<le> i_end i \<and> tiles (i_end i) b ps"

lemma length_partition_loop [simp]: "length (partition_loop q r off j m) = m"
  by (induction q r off j m rule: partition_loop.induct) (simp_all add: Let_def)

lemma partition_loop_tiles:
  "tiles off (off + q * m + (min r (j + m) - min r j)) (partition_loop q r off j m)"
proof (induction q r off j m rule: partition_loop.induct)
  case (1 q r off j)
  show ?case by simp
next
  case (2 q r off j m)
  have "off + (if j < r then q + 1 else q) + q * m + (min r (j + 1 + m) - min r (j + 1)) =
      off + q * Suc m + (min r (j + Suc m) - min r j)" by auto
  with 2 show ?case by (simp add: Let_def split: if_splits)
qed

lemma partition_loop_len:
  "i \<in> set (partition_loop q r off j m) \<Longrightarrow> interval_len i = q \<or> (interval_len i = q + 1 \<and> 0 < r)"
proof (induction q r off j m rule: partition_loop.induct)
  case (2 q r off j m)
  then show ?case by (cases "j < r") (auto simp: Let_def interval_len_def)
qed simp

lemma divide_eq: "0 < b \<Longrightarrow> divide a b = Inr (a div b, a mod b)"
  by (simp add: divide_def Let_def minus_mult_div_eq_mod)

lemma even_partition_eq:
  "0 < k \<Longrightarrow> even_partition i k =
     Inr (partition_loop (interval_len i div k) (interval_len i mod k) (i_begin i) 0 k)"
  by (simp add: even_partition_def divide_eq)

lemma even_partition_tiles:
  assumes "0 < k" and "i_begin i \<le> i_end i" and "even_partition i k = Inr ps"
  shows "length ps = k" "tiles (i_begin i) (i_end i) ps"
    "\<forall>p\<in>set ps. interval_len p = interval_len i div k \<or> (interval_len p = interval_len i div k + 1 \<and> 0 < interval_len i mod k)"
proof -
  let ?l = "interval_len i"
  have ps: "ps = partition_loop (?l div k) (?l mod k) (i_begin i) 0 k"
    using assms by (simp add: even_partition_eq)
  then show "length ps = k" by simp
  have "?l mod k < k" using assms(1) by simp
  then have "i_begin i + ?l div k * k + (min (?l mod k) (0 + k) - min (?l mod k) 0) = i_begin i + ?l"
    using div_mult_mod_eq [of ?l k] by simp
  also have "\<dots> = i_end i" using assms(2) by (simp add: interval_len_def)
  finally show "tiles (i_begin i) (i_end i) ps" using partition_loop_tiles ps by metis
  show "\<forall>p\<in>set ps. interval_len p = ?l div k \<or> (interval_len p = ?l div k + 1 \<and> 0 < ?l mod k)"
    using ps partition_loop_len by auto
qed

lemma tiles_le: "tiles a b ps \<Longrightarrow> a \<le> b"
  by (induction ps arbitrary: a) fastforce+

lemma tiles_bounds: "tiles a b ps \<Longrightarrow> i \<in> set ps \<Longrightarrow> a \<le> i_begin i \<and> i_begin i \<le> i_end i \<and> i_end i \<le> b"
proof (induction ps arbitrary: a)
  case (Cons x xs)
  have "i_end x \<le> b" using Cons.prems tiles_le by auto
  with Cons show ?case by fastforce
qed simp

text \<open>Contents read interval by interval are the contents of the whole.\<close>

lemma tiles_read:
  "tiles a b ps \<Longrightarrow> concat (map (\<lambda>i. read_mem m (p + i_begin i * s) (interval_len i * s)) ps) =
     read_mem m (p + a * s) ((b - a) * s)"
proof (induction ps arbitrary: a)
  case (Cons x xs)
  then have t: "tiles (i_end x) b xs" and x: "i_begin x = a" "a \<le> i_end x" by auto
  have le: "i_end x \<le> b" using t by (rule tiles_le)
  have "read_mem m (p + a * s) ((b - a) * s) =
      read_mem m (p + a * s) ((i_end x - a) * s + (b - i_end x) * s)"
    using x le by (simp add: add_mult_distrib [symmetric])
  also have "\<dots> = read_mem m (p + a * s) ((i_end x - a) * s) @
      read_mem m (p + a * s + (i_end x - a) * s) ((b - i_end x) * s)" by (rule read_mem_append)
  also have "p + a * s + (i_end x - a) * s = p + i_end x * s"
    using x by (simp add: add_mult_distrib [symmetric] add.assoc)
  finally show ?case using Cons.IH [OF t] x by (simp add: interval_len_def)
qed simp

lemma tiles_distinct:
  "tiles a b ps \<Longrightarrow> \<forall>i\<in>set ps. 0 < interval_len i \<Longrightarrow> distinct (map i_begin ps)"
proof (induction ps arbitrary: a)
  case (Cons x xs)
  then have "\<forall>i\<in>set xs. i_end x \<le> i_begin i" using tiles_bounds by auto
  moreover have "i_begin x < i_end x" using Cons.prems by (auto simp: interval_len_def)
  ultimately show ?case using Cons by force
qed simp

section \<open>Parts of a workspace\<close>

lemma slice_name_inj:
  assumes "slice_name name i j = slice_name name i' j'"
  shows "i = i'" "j = j'"
proof -
  have e: "to_string i @ '':'' @ to_string j @ '']'' = to_string i' @ '':'' @ to_string j' @ '']''"
    using assms by (simp add: slice_name_def)
  have "scan_digits 0 (to_string i @ '':'' @ to_string j @ '']'') = (i, '':'' @ to_string j @ '']'')"
    for i j by (rule scan_digits_to_string) (simp add: is_digit_def)
  with e have "(i, '':'' @ to_string j @ '']'') = (i', '':'' @ to_string j' @ '']'')" by metis
  then show "i = i'" "j = j'" by (auto dest: to_string_inj)
qed

definition slice_of :: "workspace \<Rightarrow> interval \<Rightarrow> workspace" where
  "slice_of w i = \<lparr>w_send = w_send w + i_begin i * elem_size (w_dt w),
     w_recv = w_recv w + i_begin i * elem_size (w_dt w), w_count = interval_len i,
     w_dt = w_dt w, w_op = w_op w, w_name = slice_name (w_name w) (i_begin i) (i_end i)\<rparr>"

lemma slice_eq: "dtype_size (w_dt w) = Inr s \<Longrightarrow> slice w (i_begin i) (i_end i) = Inr (slice_of w i)"
  by (simp add: slice_def slice_of_def elem_size_def interval_len_def)

text \<open>\<open>split\<close> with a positive number of parts slices along a tiling of \<open>[0, count)\<close>.\<close>

lemma split_cases:
  assumes "0 < k" and "dtype_size (w_dt w) = Inr s"
  obtains ps where "even_partition \<lparr>i_begin = 0, i_end = w_count w\<rparr> k = Inr ps"
    and "split w k = Inr (map (slice_of w) ps)"
    and "length ps = k" and "tiles 0 (w_count w) ps"
    and "\<forall>p\<in>set ps. interval_len p = w_count w div k \<or> (interval_len p = w_count w div k + 1 \<and> 0 < w_count w mod k)"
proof -
  let ?i = "\<lparr>i_begin = 0, i_end = w_count w\<rparr>"
  obtain ps where ps: "even_partition ?i k = Inr ps" using assms(1) by (simp add: even_partition_eq)
  note t = even_partition_tiles [OF assms(1) _ ps]
  have "split w k = Inr (map (slice_of w) ps)"
    unfolding split_def ps by (simp add: res_mapM_Inr slice_eq [OF assms(2)])
  with t ps that show ?thesis by (auto simp: interval_len_def)
qed

lemma split_zero: "split w 0 = Inl (Undefined_behaviour ''division by zero'')"
  by (simp add: split_def even_partition_def divide_def)

lemma split_tiles_memory:
  assumes "0 < k" and "dtype_size (w_dt w) = Inr s" and "split w k = Inr ws"
  shows "concat (map (\<lambda>v. read_mem m (w_send v) (w_count v * s)) ws) = read_mem m (w_send w) (w_count w * s)"
    and "concat (map (\<lambda>v. read_mem m (w_recv v) (w_count v * s)) ws) = read_mem m (w_recv w) (w_count w * s)"
proof -
  obtain ps where ps: "split w k = Inr (map (slice_of w) ps)" "tiles 0 (w_count w) ps"
    using split_cases [OF assms(1,2)] by metis
  have ws: "ws = map (slice_of w) ps" using ps(1) assms(3) by simp
  show "concat (map (\<lambda>v. read_mem m (w_send v) (w_count v * s)) ws) = read_mem m (w_send w) (w_count w * s)"
    using tiles_read [OF ps(2), of m "w_send w" s] assms(2)
    by (simp add: ws slice_of_def elem_size_def comp_def)
  show "concat (map (\<lambda>v. read_mem m (w_recv v) (w_count v * s)) ws) = read_mem m (w_recv w) (w_count w * s)"
    using tiles_read [OF ps(2), of m "w_recv w" s] assms(2)
    by (simp add: ws slice_of_def elem_size_def comp_def)
qed

lemma split_names_distinct:
  assumes "0 < k" and "k \<le> w_count w" and "dtype_size (w_dt w) = Inr s" and "split w k = Inr ws"
  shows "distinct (map w_name ws)"
proof -
  obtain ps where ps: "split w k = Inr (map (slice_of w) ps)" "tiles 0 (w_count w) ps"
    "\<forall>p\<in>set ps. interval_len p = w_count w div k \<or> (interval_len p = w_count w div k + 1 \<and> 0 < w_count w mod k)"
    using split_cases [OF assms(1,3)] by metis
  have ws: "ws = map (slice_of w) ps" using ps(1) assms(4) by simp
  have "0 < w_count w div k" using assms(1,2) by (simp add: div_greater_zero_iff)
  then have "\<forall>p\<in>set ps. 0 < interval_len p" using ps(3) by auto
  then have "distinct (map i_begin ps)" using ps(2) tiles_distinct by blast
  then have "distinct (map (\<lambda>p. slice_name (w_name w) (i_begin p) (i_end p)) ps)"
    by (auto simp: distinct_map inj_on_def dest: slice_name_inj(1))
  then show ?thesis by (simp add: ws slice_of_def comp_def)
qed

section \<open>State\<close>

lemma effective_new [simp]: "effective_data (new_state w) = w_send w"
  by (simp add: effective_data_def new_state_def)

lemma add_to_integer:
  assumes "is_integer (w_dt (st_w st))"
  shows "add_to fo data (st, m) =
    (let w = st_w st; n = w_count w in
     Inr (st\<lparr>recv_count := recv_count st + 1\<rparr>, write_mem m (w_recv w)
       (combine fo n (w_dt w) (w_op w) data (read_mem m (effective_data st) (n * elem_size (w_dt w))))))"
  using assms by (simp add: add_to_def Let_def dtype_size_integer reduce_integer del: is_integer.simps)

section \<open>Properties\<close>

text \<open>\<open>even_partition\<close> cuts an interval into \<open>k\<close> adjacent intervals, from its beginning to its end,
  whose lengths differ by at most one.\<close>

theorem even_partition_correct:
  assumes "0 < k" and "i_begin i \<le> i_end i"
  shows "\<exists>ps. even_partition i k = Inr ps \<and> length ps = k \<and> tiles (i_begin i) (i_end i) ps \<and>
    (\<forall>p\<in>set ps. \<forall>q\<in>set ps. interval_len p \<le> interval_len q + 1)"
proof -
  obtain ps where ps: "even_partition i k = Inr ps" using assms(1) by (simp add: even_partition_eq)
  note t = even_partition_tiles [OF assms ps]
  have "interval_len p \<le> interval_len q + 1" if "p \<in> set ps" "q \<in> set ps" for p q
    using t(3) [rule_format, OF that(1)] t(3) [rule_format, OF that(2)] by linarith
  with ps t show ?thesis by blast
qed

theorem even_partition_correct_witness:
  "\<exists>ps. even_partition \<lparr>i_begin = 2, i_end = 12\<rparr> 3 = Inr ps \<and> length ps = 3 \<and>
    tiles (i_begin \<lparr>i_begin = 2, i_end = 12\<rparr>) (i_end \<lparr>i_begin = 2, i_end = 12\<rparr>) ps \<and>
    (\<forall>p\<in>set ps. \<forall>q\<in>set ps. interval_len p \<le> interval_len q + 1)"
  by (rule even_partition_correct) simp_all

text \<open>The parts of a workspace read its send buffer and its receive buffer piece by piece, in order
  and completely, and have different names when no part is empty.\<close>

theorem split_correct:
  assumes "0 < k" and "k \<le> w_count w" and "dtype_size (w_dt w) = Inr s"
  shows "\<exists>ws. split w k = Inr ws \<and> length ws = k \<and> distinct (map w_name ws) \<and>
    concat (map (\<lambda>v. read_mem m (w_send v) (w_count v * s)) ws) = read_mem m (w_send w) (w_count w * s) \<and>
    concat (map (\<lambda>v. read_mem m (w_recv v) (w_count v * s)) ws) = read_mem m (w_recv w) (w_count w * s)"
proof -
  obtain ps where ps: "split w k = Inr (map (slice_of w) ps)" "length ps = k"
    using split_cases [OF assms(1,3)] by metis
  then show ?thesis
    using split_names_distinct [OF assms ps(1)] split_tiles_memory [OF assms(1,3) ps(1)]
    by (intro exI [of _ "map (slice_of w) ps"]) simp
qed

theorem split_correct_witness:
  "(let w = \<lparr>w_send = 0, w_recv = 100, w_count = 5, w_dt = u16, w_op = sum_op, w_name = ''x''\<rparr>; m = (\<lambda>a. word_of_nat a) in
    \<exists>ws. split w 2 = Inr ws \<and> length ws = 2 \<and> distinct (map w_name ws) \<and>
    concat (map (\<lambda>v. read_mem m (w_send v) (w_count v * 2)) ws) = read_mem m (w_send w) (w_count w * 2) \<and>
    concat (map (\<lambda>v. read_mem m (w_recv v) (w_count v * 2)) ws) = read_mem m (w_recv w) (w_count w * 2))"
  unfolding Let_def by (rule split_correct) simp_all

end
