(* ===== verification/Gather.thy ===== *)
theory Gather
  imports Buffer
begin

text \<open>
  All-gather and point-to-point messages: \<open>src/stdml/collective/all_gather.cpp\<close> and \<open>send_recv.cpp\<close>.
  Every process runs two jobs per peer at once, a send and a receive (a copy and nothing for itself); job
  \<open>k\<close> concerns peer \<open>k div 2\<close>. Sends ask the receiving handler to wait for a buffer, receives offer the
  place of the sender in the output. \<open>session::send\<close> and \<open>session::recv\<close> are single jobs of this kind.

  A cluster of processes is a labelled transition system as in \<open>Collective\<close>, with one blocking point of a
  job or one delivery per step. The lemmas show that no schedule deadlocks or runs for ever, and that at
  the end every process has the inputs of all processes in the order of their ranks.
\<close>

section \<open>Definitions\<close>

definition gather_workspaces :: "nat \<Rightarrow> nat \<Rightarrow> nat \<Rightarrow> nat \<Rightarrow> dtype \<Rightarrow> workspace list res" where
  "gather_workspaces n inp out cnt dt =
     (if n = 0 then Inr [] else res_map
       (\<lambda>s. map (\<lambda>i. \<lparr>w_send = inp, w_recv = out + cnt * s * i, w_count = cnt, w_dt = dt, w_op = sum_op, w_name = []\<rparr>) [0..<n])
       (dtype_size dt))"

datatype gjob =
    G_forward workspace
  | G_return
  | G_send nat workspace
  | G_get nat nat
  | G_await nat nat
  | G_done
  | G_failed cxx_error

text \<open>\<open>session::send\<close> and \<open>session::recv\<close> to and from the peer of rank \<open>target\<close>; \<open>at\<close> throws out of range.\<close>

definition session_send :: "nat \<Rightarrow> nat \<Rightarrow> nat \<Rightarrow> dtype \<Rightarrow> nat \<Rightarrow> gjob" where
  "session_send n inp cnt dt target =
     (if target < n then G_send target \<lparr>w_send = inp, w_recv = 0, w_count = cnt, w_dt = dt, w_op = sum_op, w_name = []\<rparr>
      else G_failed (Exception ''std::out_of_range''))"

definition session_recv :: "nat \<Rightarrow> nat \<Rightarrow> nat \<Rightarrow> gjob" where
  "session_recv n out target = (if target < n then G_get target out else G_failed (Exception ''std::out_of_range''))"

text \<open>The body of the loop of \<open>all_gather\<close>.\<close>

definition gather_job :: "nat \<Rightarrow> workspace list \<Rightarrow> nat \<Rightarrow> gjob" where
  "gather_job me ws idx =
     (let r = idx div 2 in
      if r = me then (if idx mod 2 = 0 then G_forward (ws ! r) else G_return)
      else if idx mod 2 = 0 then G_send r (ws ! r)
      else G_get r (w_recv (ws ! r)))"

record gather_proc =
  gp_mem :: mem
  gp_jobs :: "nat \<Rightarrow> gjob"
  gp_waitq :: "nat \<Rightarrow> nat list"
  gp_recvq :: "nat \<Rightarrow> nat list"

record gather_cluster =
  gc_procs :: "nat \<Rightarrow> gather_proc"
  gc_wire :: "nat \<Rightarrow> nat \<Rightarrow> byte list list"

datatype gather_label = G_step nat nat | G_hand nat nat

definition set_job :: "nat \<Rightarrow> gjob \<Rightarrow> gather_proc \<Rightarrow> gather_proc" where
  "set_job k j p = p\<lparr>gp_jobs := (gp_jobs p)(k := j)\<rparr>"

definition put_proc :: "nat \<Rightarrow> gather_proc \<Rightarrow> gather_cluster \<Rightarrow> gather_cluster" where
  "put_proc i p c = c\<lparr>gc_procs := (gc_procs c)(i := p)\<rparr>"

definition put_wire :: "nat \<Rightarrow> nat \<Rightarrow> byte list list \<Rightarrow> gather_cluster \<Rightarrow> gather_cluster" where
  "put_wire s d ms c = c\<lparr>gc_wire := (gc_wire c)(s := (gc_wire c s)(d := ms))\<rparr>"

text \<open>One step of a job: \<open>forward\<close>, one message, or one half of \<open>queue_pair::get\<close>.\<close>

definition job_step :: "nat \<Rightarrow> nat \<Rightarrow> gather_cluster \<Rightarrow> gather_cluster option" where
  "job_step i k c =
     (let p = gc_procs c i in
      case gp_jobs p k of
        G_forward w \<Rightarrow> (case forward w (gp_mem p) of
            Inl e \<Rightarrow> Some (put_proc i (set_job k (G_failed e) p) c)
          | Inr m \<Rightarrow> Some (put_proc i (set_job k G_done (p\<lparr>gp_mem := m\<rparr>)) c))
      | G_return \<Rightarrow> Some (put_proc i (set_job k G_done p) c)
      | G_send d w \<Rightarrow> (case data_size w of
            Inl e \<Rightarrow> Some (put_proc i (set_job k (G_failed e) p) c)
          | Inr sz \<Rightarrow> Some (put_wire i d (gc_wire c i d @ [read_mem (gp_mem p) (w_send w) sz]) (put_proc i (set_job k G_done p) c)))
      | G_get s ptr \<Rightarrow>
          if gp_waitq p s = [] then Some (put_proc i (set_job k (G_await s ptr) (p\<lparr>gp_waitq := (gp_waitq p)(s := [ptr])\<rparr>)) c) else None
      | G_await s ptr \<Rightarrow> (case gp_recvq p s of
            [] \<Rightarrow> None
          | q # qs \<Rightarrow> Some (put_proc i (set_job k (if q = ptr then G_done else G_failed (Assert_failed ''p == q''))
              (p\<lparr>gp_recvq := (gp_recvq p)(s := qs)\<rparr>)) c))
      | G_done \<Rightarrow> None
      | G_failed e \<Rightarrow> None)"

text \<open>The handler of process \<open>d\<close> delivers the next message from \<open>s\<close> into the buffer that waits for it.\<close>

definition hand_step :: "nat \<Rightarrow> nat \<Rightarrow> gather_cluster \<Rightarrow> gather_cluster option" where
  "hand_step s d c =
     (let p = gc_procs c d in
      case (gc_wire c s d, gp_waitq p s) of
        (m # ms, ptr # ptrs) \<Rightarrow>
          if gp_recvq p s = [] then
            Some (put_wire s d ms (put_proc d (p\<lparr>gp_mem := write_mem (gp_mem p) ptr m,
              gp_waitq := (gp_waitq p)(s := ptrs), gp_recvq := (gp_recvq p)(s := [ptr])\<rparr>) c))
          else None
      | _ \<Rightarrow> None)"

fun gather_exec :: "nat \<Rightarrow> gather_label \<Rightarrow> gather_cluster \<Rightarrow> gather_cluster option" where
  "gather_exec n (G_step i k) c = (if i < n \<and> k < 2 * n then job_step i k c else None)"
| "gather_exec n (G_hand s d) c = (if s < n \<and> d < n then hand_step s d c else None)"

definition gather_start :: "nat \<Rightarrow> (nat \<Rightarrow> workspace list) \<Rightarrow> (nat \<Rightarrow> mem) \<Rightarrow> gather_cluster" where
  "gather_start n ws M = \<lparr>gc_procs = (\<lambda>i. \<lparr>gp_mem = M i, gp_jobs = gather_job i (ws i), gp_waitq = (\<lambda>_. []), gp_recvq = (\<lambda>_. [])\<rparr>),
     gc_wire = (\<lambda>_ _. [])\<rparr>"

text \<open>One process of rank \<open>s\<close> calls \<open>send\<close> to rank \<open>d\<close>, which calls \<open>recv\<close> from \<open>s\<close>.\<close>

definition message_start :: "nat \<Rightarrow> nat \<Rightarrow> nat \<Rightarrow> gjob \<Rightarrow> gjob \<Rightarrow> (nat \<Rightarrow> mem) \<Rightarrow> gather_cluster" where
  "message_start n s d snd_job rcv_job M = \<lparr>gc_procs = (\<lambda>i. \<lparr>gp_mem = M i,
       gp_jobs = (\<lambda>k. if i = s \<and> k = 2 * d then snd_job else if i = d \<and> k = 2 * s + 1 then rcv_job else G_done),
       gp_waitq = (\<lambda>_. []), gp_recvq = (\<lambda>_. [])\<rparr>),
     gc_wire = (\<lambda>_ _. [])\<rparr>"

definition gather_returned :: "nat \<Rightarrow> gather_cluster \<Rightarrow> bool" where
  "gather_returned n c \<longleftrightarrow> (\<forall>i<n. \<forall>k<2 * n. gp_jobs (gc_procs c i) k = G_done)"

section \<open>Placing the inputs\<close>

definition place :: "nat \<Rightarrow> nat \<Rightarrow> nat \<Rightarrow> (nat \<Rightarrow> byte list) \<Rightarrow> nat set \<Rightarrow> mem \<Rightarrow> mem" where
  "place n sz out b S m = (\<lambda>a. if out \<le> a \<and> a < out + n * sz \<and> (a - out) div sz \<in> S then b ((a - out) div sz) ! ((a - out) mod sz) else m a)"

lemma place_empty [simp]: "place n sz out b {} m = m"
  by (simp add: place_def)

lemma place_outside: "p + k \<le> out \<or> out + n * sz \<le> p \<Longrightarrow> read_mem (place n sz out b S m) p k = read_mem m p k"
  by (auto simp: read_mem_def place_def)

lemma slot_range: "j < n \<Longrightarrow> j * sz + sz \<le> n * (sz :: nat)"
  using mult_le_mono1 [of "Suc j" n sz] by simp

lemma place_insert:
  assumes "j < n" and "length (b j) = sz"
  shows "write_mem (place n sz out b S m) (out + sz * j) (b j) = place n sz out b (insert j S) m"
proof
  fix a
  show "write_mem (place n sz out b S m) (out + sz * j) (b j) a = place n sz out b (insert j S) m a"
  proof (cases "out + sz * j \<le> a \<and> a < out + sz * j + sz")
    case True
    then obtain x where x: "a = out + sz * j + x" "x < sz" by (metis add_diff_inverse_nat add_less_cancel_left not_less)
    then have "(a - out) div sz = j" "(a - out) mod sz = x" by simp_all
    moreover have "a < out + n * sz" using slot_range [OF assms(1), of sz] x by (simp add: mult.commute)
    ultimately show ?thesis using x assms(2) by (simp add: place_def write_mem_def)
  next
    case False
    have "(a - out) div sz \<noteq> j" if "out \<le> a" "a < out + n * sz"
    proof
      assume e: "(a - out) div sz = j"
      have "sz > 0" using that by (cases sz) auto
      with e have "sz * j \<le> a - out" "a - out < sz * j + sz"
        by (metis times_div_less_eq_dividend, metis dividend_less_times_div mult.commute add.commute)
      with False that show False by linarith
    qed
    with False assms(2) show ?thesis by (auto simp: place_def write_mem_def)
  qed
qed

lemma place_all:
  assumes "\<And>j. j < n \<Longrightarrow> length (b j) = sz"
  shows "place n sz out b {..<n} m = write_mem m out (concat (map b [0..<n]))"
proof -
  have "place n sz out b {..<k} m = write_mem m out (concat (map b [0..<k])) \<and> length (concat (map b [0..<k])) = sz * k" if "k \<le> n" for k
    using that
  proof (induction k)
    case 0
    show ?case by (auto simp: write_mem_def fun_eq_iff)
  next
    case (Suc k)
    then have "place n sz out b {..<Suc k} m = write_mem (place n sz out b {..<k} m) (out + sz * k) (b k)"
      using place_insert [of k n b sz out "{..<k}" m] assms by (simp add: lessThan_Suc)
    with Suc assms [of k] show ?case
      by (auto simp: write_mem_def fun_eq_iff nth_append)
  qed
  then show ?thesis by simp
qed

section \<open>The invariant\<close>

text \<open>
  \<open>n\<close> processes gather buffers of \<open>sz\<close> bytes from \<open>inp i\<close> to \<open>out i\<close>, with the initial memories \<open>M\<close>. A pair
  of processes goes through three phases: before the send, message on its way, message delivered.
\<close>

definition input_of :: "nat \<Rightarrow> (nat \<Rightarrow> nat) \<Rightarrow> (nat \<Rightarrow> mem) \<Rightarrow> nat \<Rightarrow> byte list" where
  "input_of sz inp M i = read_mem (M i) (inp i) sz"

abbreviation job_at :: "gather_cluster \<Rightarrow> nat \<Rightarrow> nat \<Rightarrow> gjob" where
  "job_at c i k \<equiv> gp_jobs (gc_procs c i) k"

definition ws_ok :: "nat \<Rightarrow> nat \<Rightarrow> workspace \<Rightarrow> bool" where
  "ws_ok sz p w \<longleftrightarrow> w_send w = p \<and> data_size w = Inr sz"

definition to_come :: "nat \<Rightarrow> nat \<Rightarrow> nat \<Rightarrow> gather_cluster \<Rightarrow> bool" where
  "to_come ptr s d c \<longleftrightarrow> gp_recvq (gc_procs c d) s = [] \<and>
     (job_at c d (2 * s + 1) = G_get s ptr \<and> gp_waitq (gc_procs c d) s = [] \<or>
      job_at c d (2 * s + 1) = G_await s ptr \<and> gp_waitq (gc_procs c d) s = [ptr])"

definition delivered :: "nat \<Rightarrow> nat \<Rightarrow> nat \<Rightarrow> gather_cluster \<Rightarrow> bool" where
  "delivered ptr s d c \<longleftrightarrow> gp_waitq (gc_procs c d) s = [] \<and>
     (job_at c d (2 * s + 1) = G_await s ptr \<and> gp_recvq (gc_procs c d) s = [ptr] \<or>
      job_at c d (2 * s + 1) = G_done \<and> gp_recvq (gc_procs c d) s = [])"

definition pair_ok :: "nat \<Rightarrow> (nat \<Rightarrow> nat) \<Rightarrow> (nat \<Rightarrow> nat) \<Rightarrow> (nat \<Rightarrow> mem) \<Rightarrow> nat \<Rightarrow> nat \<Rightarrow> gather_cluster \<Rightarrow> bool" where
  "pair_ok sz inp out M s d c \<longleftrightarrow>
     (\<exists>w. job_at c s (2 * d) = G_send d w \<and> ws_ok sz (inp s) w) \<and> gc_wire c s d = [] \<and> to_come (out d + sz * s) s d c \<or>
     job_at c s (2 * d) = G_done \<and> gc_wire c s d = [input_of sz inp M s] \<and> to_come (out d + sz * s) s d c \<or>
     job_at c s (2 * d) = G_done \<and> gc_wire c s d = [] \<and> delivered (out d + sz * s) s d c"

definition self_ok :: "nat \<Rightarrow> (nat \<Rightarrow> nat) \<Rightarrow> (nat \<Rightarrow> nat) \<Rightarrow> nat \<Rightarrow> gather_cluster \<Rightarrow> bool" where
  "self_ok sz inp out i c \<longleftrightarrow> gc_wire c i i = [] \<and> (job_at c i (2 * i + 1) = G_return \<or> job_at c i (2 * i + 1) = G_done) \<and>
     ((\<exists>w. job_at c i (2 * i) = G_forward w \<and> ws_ok sz (inp i) w \<and> w_recv w = out i + sz * i) \<or> job_at c i (2 * i) = G_done)"

definition landed :: "nat \<Rightarrow> gather_cluster \<Rightarrow> nat \<Rightarrow> nat set" where
  "landed n c d = {j. j < n \<and> (if j = d then job_at c d (2 * d) = G_done
     else gp_recvq (gc_procs c d) j \<noteq> [] \<or> job_at c d (2 * j + 1) = G_done)}"

definition gather_inv :: "nat \<Rightarrow> nat \<Rightarrow> (nat \<Rightarrow> nat) \<Rightarrow> (nat \<Rightarrow> nat) \<Rightarrow> (nat \<Rightarrow> mem) \<Rightarrow> gather_cluster \<Rightarrow> bool" where
  "gather_inv n sz inp out M c \<longleftrightarrow> (\<forall>s<n. \<forall>d<n. s \<noteq> d \<longrightarrow> pair_ok sz inp out M s d c) \<and>
     (\<forall>i<n. self_ok sz inp out i c \<and> gp_mem (gc_procs c i) = place n sz (out i) (input_of sz inp M) (landed n c i) (M i))"

definition apart_buffers :: "nat \<Rightarrow> nat \<Rightarrow> (nat \<Rightarrow> nat) \<Rightarrow> (nat \<Rightarrow> nat) \<Rightarrow> bool" where
  "apart_buffers n sz inp out \<longleftrightarrow> (\<forall>i<n. inp i + sz \<le> out i \<or> out i + n * sz \<le> inp i)"

lemmas gather_ops = put_proc_def put_wire_def set_job_def

lemmas parity [simp] = Suc_double_not_eq_double double_not_eq_Suc_double

lemma index_cases:
  assumes "k < 2 * (n :: nat)"
  obtains r where "r < n" "k = 2 * r" | r where "r < n" "k = 2 * r + 1"
proof -
  have "k = 2 * (k div 2) \<or> k = 2 * (k div 2) + 1" by presburger
  moreover have "k div 2 < n" using assms by simp
  ultimately show ?thesis using that by blast
qed

lemma input_kept:
  assumes "gather_inv n sz inp out M c" and "apart_buffers n sz inp out" and "i < n"
  shows "read_mem (gp_mem (gc_procs c i)) (inp i) sz = input_of sz inp M i"
  using assms place_outside [of "inp i" sz "out i" n sz] by (auto simp: gather_inv_def apart_buffers_def input_of_def)

lemma forward_ok:
  assumes "ws_ok sz p w" and "w_recv w = out + sz * i" and "i < n" and "p + sz \<le> out \<or> out + n * sz \<le> p"
  shows "forward w m = Inr (write_mem m (out + sz * i) (read_mem m p sz))"
proof (cases "w_recv w = w_send w")
  case True
  then have "sz = 0" using assms slot_range [OF assms(3), of sz] by (auto simp: ws_ok_def mult.commute)
  with True assms(2) show ?thesis by (auto simp: forward_def write_mem_def fun_eq_iff)
next
  case False
  have "disjoint_or_same (w_recv w) (w_send w) sz"
    using assms slot_range [OF assms(3), of sz] by (auto simp: ws_ok_def disjoint_or_same_def mult.commute)
  with False assms show ?thesis by (simp add: forward_def ws_ok_def)
qed

section \<open>Steps keep the invariant\<close>

lemma pair_ok_cong:
  assumes "job_at c' s (2 * d) = job_at c s (2 * d)" and "job_at c' d (2 * s + 1) = job_at c d (2 * s + 1)"
    and "gc_wire c' s d = gc_wire c s d" and "gp_waitq (gc_procs c' d) s = gp_waitq (gc_procs c d) s"
    and "gp_recvq (gc_procs c' d) s = gp_recvq (gc_procs c d) s"
  shows "pair_ok sz inp out M s d c' = pair_ok sz inp out M s d c"
  using assms by (simp add: pair_ok_def to_come_def delivered_def)

lemma gather_invI:
  assumes "gather_inv n sz inp out M c"
    and "\<And>s d. s < n \<Longrightarrow> d < n \<Longrightarrow> s \<noteq> d \<Longrightarrow> (s, d) \<noteq> x \<Longrightarrow> job_at c' s (2 * d) = job_at c s (2 * d) \<and>
      job_at c' d (2 * s + 1) = job_at c d (2 * s + 1) \<and> gc_wire c' s d = gc_wire c s d \<and>
      gp_waitq (gc_procs c' d) s = gp_waitq (gc_procs c d) s \<and> gp_recvq (gc_procs c' d) s = gp_recvq (gc_procs c d) s"
    and "fst x < n \<Longrightarrow> snd x < n \<Longrightarrow> fst x \<noteq> snd x \<Longrightarrow> pair_ok sz inp out M (fst x) (snd x) c'"
    and "\<And>i. i < n \<Longrightarrow> self_ok sz inp out i c'"
    and "\<And>i. i < n \<Longrightarrow> gp_mem (gc_procs c' i) = place n sz (out i) (input_of sz inp M) (landed n c' i) (M i)"
  shows "gather_inv n sz inp out M c'"
proof -
  have "pair_ok sz inp out M s d c'" if "s < n" "d < n" "s \<noteq> d" for s d
  proof (cases "(s, d) = x")
    case True
    with assms(3) that show ?thesis by auto
  next
    case False
    with assms(1,2) that show ?thesis using pair_ok_cong [of c' s d c] by (simp add: gather_inv_def)
  qed
  with assms(4,5) show ?thesis by (simp add: gather_inv_def)
qed

lemma inv_self_job:
  assumes inv: "gather_inv n sz inp out M c" and ap: "apart_buffers n sz inp out" and i: "i < n"
    and k: "k = 2 * i \<or> k = 2 * i + 1" and st: "job_step i k c = Some c'"
  shows "gather_inv n sz inp out M c'"
  using k
proof
  assume k: "k = 2 * i"
  have "self_ok sz inp out i c" using inv i by (simp add: gather_inv_def)
  then obtain w where w: "job_at c i (2 * i) = G_forward w" "ws_ok sz (inp i) w" "w_recv w = out i + sz * i"
    using st k by (auto simp: self_ok_def job_step_def)
  have f: "forward w (gp_mem (gc_procs c i)) = Inr (write_mem (gp_mem (gc_procs c i)) (out i + sz * i) (input_of sz inp M i))"
    using forward_ok [OF w(2,3) i] ap i input_kept [OF inv ap i] by (simp add: apart_buffers_def)
  have c': "c' = put_proc i (set_job (2 * i) G_done ((gc_procs c i)\<lparr>gp_mem := write_mem (gp_mem (gc_procs c i)) (out i + sz * i) (input_of sz inp M i)\<rparr>)) c"
    using st w(1) f k by (simp add: job_step_def Let_def)
  have "landed n c' i = insert i (landed n c i)" "\<And>j. j \<noteq> i \<Longrightarrow> landed n c' j = landed n c j"
    using i by (auto simp: c' landed_def gather_ops)
  moreover have "length (input_of sz inp M i) = sz" by (simp add: input_of_def)
  ultimately have "gp_mem (gc_procs c' j) = place n sz (out j) (input_of sz inp M) (landed n c' j) (M j)" if "j < n" for j
    using inv that i place_insert [of i n "input_of sz inp M" sz "out i" "landed n c i" "M i"]
    by (cases "j = i") (simp_all add: c' gather_ops gather_inv_def)
  moreover have "self_ok sz inp out j c'" if "j < n" for j
    using inv that by (auto simp: c' gather_ops gather_inv_def self_ok_def)
  ultimately show ?thesis by (intro gather_invI [OF inv, where x = "(n, n)"]) (auto simp: c' gather_ops)
next
  assume k: "k = 2 * i + 1"
  have "self_ok sz inp out i c" using inv i by (simp add: gather_inv_def)
  then have c': "c' = put_proc i (set_job (2 * i + 1) G_done (gc_procs c i)) c"
    using st k by (auto simp: self_ok_def job_step_def)
  have "landed n c' j = landed n c j" for j by (auto simp: c' landed_def gather_ops)
  moreover have "self_ok sz inp out j c'" if "j < n" for j
    using inv that by (auto simp: c' gather_ops gather_inv_def self_ok_def)
  ultimately show ?thesis
    using inv by (intro gather_invI [OF inv, where x = "(n, n)"]) (auto simp: c' gather_ops gather_inv_def)
qed

lemma inv_send_job:
  assumes inv: "gather_inv n sz inp out M c" and ap: "apart_buffers n sz inp out" and i: "i < n" and r: "r < n" "r \<noteq> i"
    and st: "job_step i (2 * r) c = Some c'"
  shows "gather_inv n sz inp out M c'"
proof -
  have p: "pair_ok sz inp out M i r c" using inv i r by (simp add: gather_inv_def)
  then obtain w where w: "job_at c i (2 * r) = G_send r w" "ws_ok sz (inp i) w" "gc_wire c i r = []" "to_come (out r + sz * i) i r c"
    using st by (auto simp: pair_ok_def job_step_def)
  have c': "c' = put_wire i r [input_of sz inp M i] (put_proc i (set_job (2 * r) G_done (gc_procs c i)) c)"
    using st w input_kept [OF inv ap i] by (simp add: job_step_def Let_def ws_ok_def)
  have l: "landed n c' j = landed n c j" for j using r by (auto simp: c' landed_def gather_ops)
  have s: "self_ok sz inp out j c'" if "j < n" for j
    using inv that r by (auto simp: c' gather_ops gather_inv_def self_ok_def)
  have m: "gp_mem (gc_procs c' j) = gp_mem (gc_procs c j)" for j by (simp add: c' gather_ops)
  have "pair_ok sz inp out M i r c'"
    using w(4) r by (simp add: c' gather_ops pair_ok_def to_come_def)
  then show ?thesis
    using inv by (intro gather_invI [OF inv, where x = "(i, r)"]) (auto simp: l s m gather_inv_def, auto simp: c' gather_ops)
qed

lemma inv_recv_job:
  assumes inv: "gather_inv n sz inp out M c" and i: "i < n" and r: "r < n" "r \<noteq> i"
    and st: "job_step i (2 * r + 1) c = Some c'"
  shows "gather_inv n sz inp out M c'"
proof -
  let ?ptr = "out i + sz * r" and ?p = "gc_procs c i"
  have p: "pair_ok sz inp out M r i c" using inv i r by (simp add: gather_inv_def)
  consider "job_at c i (2 * r + 1) = G_get r ?ptr" "to_come ?ptr r i c" "gp_waitq ?p r = []"
      "c' = put_proc i (set_job (2 * r + 1) (G_await r ?ptr) (?p\<lparr>gp_waitq := (gp_waitq ?p)(r := [?ptr])\<rparr>)) c"
    | "job_at c i (2 * r + 1) = G_await r ?ptr" "delivered ?ptr r i c" "gp_recvq ?p r = [?ptr]"
      "c' = put_proc i (set_job (2 * r + 1) G_done (?p\<lparr>gp_recvq := (gp_recvq ?p)(r := [])\<rparr>)) c"
    using p st by (auto simp: pair_ok_def to_come_def delivered_def job_step_def Let_def)
  then show ?thesis
  proof cases
    case 1
    have l: "landed n c' j = landed n c j" for j using 1(1) by (auto simp: 1(4) landed_def gather_ops)
    have s: "self_ok sz inp out j c'" if "j < n" for j
      using inv that r by (auto simp: 1(4) gather_ops gather_inv_def self_ok_def)
    have m: "gp_mem (gc_procs c' j) = gp_mem (gc_procs c j)" for j by (simp add: 1(4) gather_ops)
    have "pair_ok sz inp out M r i c'"
      using p 1(1,2) r by (auto simp: 1(4) gather_ops pair_ok_def to_come_def delivered_def)
    then show ?thesis
      using inv by (intro gather_invI [OF inv, where x = "(r, i)"]) (auto simp: l s m gather_inv_def, auto simp: 1(4) gather_ops)
  next
    case 2
    have l: "landed n c' j = landed n c j" for j using 2(3) r by (auto simp: 2(4) landed_def gather_ops)
    have s: "self_ok sz inp out j c'" if "j < n" for j
      using inv that r by (auto simp: 2(4) gather_ops gather_inv_def self_ok_def)
    have m: "gp_mem (gc_procs c' j) = gp_mem (gc_procs c j)" for j by (simp add: 2(4) gather_ops)
    have "pair_ok sz inp out M r i c'"
      using p 2(1,2) r by (auto simp: 2(4) gather_ops pair_ok_def to_come_def delivered_def)
    then show ?thesis
      using inv by (intro gather_invI [OF inv, where x = "(r, i)"]) (auto simp: l s m gather_inv_def, auto simp: 2(4) gather_ops)
  qed
qed

lemma inv_hand:
  assumes inv: "gather_inv n sz inp out M c" and s: "s < n" and d: "d < n" and st: "hand_step s d c = Some c'"
  shows "gather_inv n sz inp out M c'"
proof -
  let ?p = "gc_procs c d" and ?ptr = "out d + sz * s" and ?b = "input_of sz inp M s"
  have "gc_wire c s d \<noteq> []" using st by (auto simp: hand_step_def Let_def split: list.splits)
  then have sd: "s \<noteq> d" using inv s by (auto simp: gather_inv_def self_ok_def)
  then have "pair_ok sz inp out M s d c" using inv s d by (simp add: gather_inv_def)
  with st \<open>gc_wire c s d \<noteq> []\<close> have w: "job_at c s (2 * d) = G_done" "gc_wire c s d = [?b]" "gp_recvq ?p s = []"
      "job_at c d (2 * s + 1) = G_await s ?ptr" "gp_waitq ?p s = [?ptr]"
    by (auto simp: pair_ok_def to_come_def hand_step_def Let_def split: list.splits)
  have c': "c' = put_wire s d [] (put_proc d (?p\<lparr>gp_mem := write_mem (gp_mem ?p) ?ptr ?b,
      gp_waitq := (gp_waitq ?p)(s := []), gp_recvq := (gp_recvq ?p)(s := [?ptr])\<rparr>) c)"
    using st w by (simp add: hand_step_def Let_def)
  have "landed n c' d = insert s (landed n c d)" "\<And>j. j \<noteq> d \<Longrightarrow> landed n c' j = landed n c j"
    using s sd by (auto simp: c' landed_def gather_ops)
  moreover have "length ?b = sz" by (simp add: input_of_def)
  ultimately have m: "gp_mem (gc_procs c' j) = place n sz (out j) (input_of sz inp M) (landed n c' j) (M j)" if "j < n" for j
    using inv that d place_insert [OF s, of "input_of sz inp M" sz "out d" "landed n c d" "M d"]
    by (cases "j = d") (simp_all add: c' gather_ops gather_inv_def)
  have so: "self_ok sz inp out j c'" if "j < n" for j
    using inv that sd by (auto simp: c' gather_ops gather_inv_def self_ok_def)
  have "pair_ok sz inp out M s d c'" using w sd by (simp add: c' gather_ops pair_ok_def delivered_def)
  with m so show ?thesis by (intro gather_invI [OF inv, where x = "(s, d)"]) (auto, auto simp: c' gather_ops)
qed

lemma gather_inv_step:
  assumes "gather_inv n sz inp out M c \<and> apart_buffers n sz inp out" and "gather_exec n l c = Some c'"
  shows "gather_inv n sz inp out M c' \<and> apart_buffers n sz inp out"
proof (cases l)
  case (G_step i k)
  with assms(2) have i: "i < n" "k < 2 * n" and st: "job_step i k c = Some c'" by (auto split: if_splits)
  from i(2) show ?thesis
  proof (cases rule: index_cases)
    case (1 r)
    with assms(1) i(1) st show ?thesis by (cases "r = i") (auto intro: inv_self_job inv_send_job)
  next
    case (2 r)
    with assms(1) i(1) st show ?thesis by (cases "r = i") (auto intro: inv_self_job inv_recv_job simp del: One_nat_def add_Suc_right)
  qed
next
  case (G_hand s d)
  with assms show ?thesis by (auto split: if_splits intro: inv_hand)
qed

section \<open>Work and progress\<close>

fun weight :: "gjob \<Rightarrow> nat" where
  "weight (G_forward w) = 1"
| "weight G_return = 1"
| "weight (G_send d w) = 2"
| "weight (G_get s p) = 2"
| "weight (G_await s p) = 1"
| "weight G_done = 0"
| "weight (G_failed e) = 0"

definition gather_work :: "nat \<Rightarrow> gather_cluster \<Rightarrow> nat" where
  "gather_work n c = (\<Sum>(i, k)\<in>{..<n} \<times> {..<2 * n}. weight (job_at c i k)) + (\<Sum>(i, j)\<in>{..<n} \<times> {..<n}. length (gc_wire c i j))"

lemma sum_change:
  fixes f g :: "'a \<Rightarrow> nat"
  assumes "finite A" and "x \<in> A" and "\<And>y. y \<in> A \<Longrightarrow> y \<noteq> x \<Longrightarrow> g y = f y"
  shows "sum g A + f x = sum f A + g x"
proof -
  have "sum g A = g x + sum g (A - {x})" "sum f A = f x + sum f (A - {x})" using assms(1,2) by (simp_all add: sum.remove)
  moreover have "sum g (A - {x}) = sum f (A - {x})" using assms(3) by (intro sum.cong) auto
  ultimately show ?thesis by simp
qed

lemma work_job:
  assumes "i < n" and "k < 2 * n" and "\<And>j l. (j, l) \<noteq> (i, k) \<Longrightarrow> job_at c' j l = job_at c j l"
    and "\<And>j l. (j, l) \<noteq> (i, d) \<Longrightarrow> gc_wire c' j l = gc_wire c j l"
    and "weight (job_at c' i k) + length (gc_wire c' i d) < weight (job_at c i k) + length (gc_wire c i d)"
    and "d < n"
  shows "gather_work n c' < gather_work n c"
proof -
  let ?w = "\<lambda>c (i, k). weight (job_at c i k)" and ?l = "\<lambda>c (i, j). length (gc_wire c i j)"
  have "sum (?w c') ({..<n} \<times> {..<2 * n}) + ?w c (i, k) = sum (?w c) ({..<n} \<times> {..<2 * n}) + ?w c' (i, k)"
  proof (rule sum_change)
    show "?w c' y = ?w c y" if "y \<noteq> (i, k)" for y using assms(3) [of "fst y" "snd y"] that by (cases y) simp
  qed (use assms(1,2) in auto)
  moreover have "sum (?l c') ({..<n} \<times> {..<n}) + ?l c (i, d) = sum (?l c) ({..<n} \<times> {..<n}) + ?l c' (i, d)"
  proof (rule sum_change)
    show "?l c' y = ?l c y" if "y \<noteq> (i, d)" for y using assms(4) [of "fst y" "snd y"] that by (cases y) simp
  qed (use assms(1,6) in auto)
  ultimately show ?thesis using assms(5) by (simp add: gather_work_def)
qed

lemma gather_work_step:
  assumes inv: "gather_inv n sz inp out M c" and "gather_exec n l c = Some c'"
  shows "gather_work n c' < gather_work n c"
proof (cases l)
  case (G_step i k)
  with assms(2) have i: "i < n" "k < 2 * n" and st: "job_step i k c = Some c'" by (auto split: if_splits)
  define d where "d = (case job_at c i k of G_send d w \<Rightarrow> d | _ \<Rightarrow> 0)"
  have r: "d < n"
  proof (cases "\<exists>x w. job_at c i k = G_send x w")
    case True
    then obtain x w where x: "job_at c i k = G_send x w" by blast
    from i(2) have "x < n"
    proof (cases rule: index_cases)
      case (1 r)
      have "r \<noteq> i \<Longrightarrow> pair_ok sz inp out M i r c" "self_ok sz inp out i c" using inv i(1) 1 by (simp_all add: gather_inv_def)
      with x 1 show ?thesis by (cases "r = i") (auto simp: self_ok_def pair_ok_def)
    next
      case (2 r)
      have "r \<noteq> i \<Longrightarrow> pair_ok sz inp out M r i c" "self_ok sz inp out i c" using inv i(1) 2 by (simp_all add: gather_inv_def)
      with x 2 show ?thesis by (cases "r = i") (auto simp: self_ok_def pair_ok_def to_come_def delivered_def)
    qed
    with x show ?thesis by (simp add: d_def)
  qed (use i in \<open>auto simp: d_def split: gjob.splits\<close>)
  show ?thesis
    by (rule work_job [OF i, where d = d])
      (use st r in \<open>auto simp: job_step_def Let_def gather_ops d_def split: gjob.splits sum.splits list.splits if_splits\<close>)
next
  case (G_hand s d)
  with assms(2) have n: "s < n" "d < n" and st: "hand_step s d c = Some c'" by (auto split: if_splits)
  show ?thesis
    by (rule work_job [where i = s and k = 0 and d = d])
      (use st n in \<open>auto simp: hand_step_def Let_def gather_ops split: list.splits if_splits\<close>)
qed

lemma self_progress:
  "self_ok sz inp out i c \<Longrightarrow> k = 2 * i \<or> k = 2 * i + 1 \<Longrightarrow> job_at c i k \<noteq> G_done \<Longrightarrow> \<exists>c'. job_step i k c = Some c'"
  by (auto simp: self_ok_def job_step_def Let_def split: sum.splits)

lemma pair_progress:
  assumes "pair_ok sz inp out M s d c" and "job_at c s (2 * d) \<noteq> G_done \<or> job_at c d (2 * s + 1) \<noteq> G_done"
  shows "\<exists>c'. job_step s (2 * d) c = Some c' \<or> job_step d (2 * s + 1) c = Some c' \<or> hand_step s d c = Some c'"
  using assms
  by (auto simp: pair_ok_def to_come_def delivered_def ws_ok_def job_step_def hand_step_def Let_def)

lemma gather_progress:
  assumes inv: "gather_inv n sz inp out M c" and "\<not> gather_returned n c"
  shows "\<exists>l c'. gather_exec n l c = Some c'"
proof -
  obtain i k where ik: "i < n" "k < 2 * n" "job_at c i k \<noteq> G_done" using assms(2) by (auto simp: gather_returned_def)
  obtain r where r: "r < n" "k = 2 * r \<or> k = 2 * r + 1" using ik(2) by (cases rule: index_cases) auto
  show ?thesis
  proof (cases "r = i")
    case True
    then obtain c' where "job_step i k c = Some c'" using self_progress [of sz inp out i c k] inv ik r by (auto simp: gather_inv_def)
    with ik show ?thesis by (intro exI [of _ "G_step i k"] exI [of _ c']) simp
  next
    case False
    define s d where "s = (if k = 2 * r then i else r)" and "d = (if k = 2 * r then r else i)"
    have sd: "s < n" "d < n" "s \<noteq> d" "job_at c s (2 * d) \<noteq> G_done \<or> job_at c d (2 * s + 1) \<noteq> G_done"
      using ik r False by (auto simp: s_def d_def)
    then have "pair_ok sz inp out M s d c" using inv by (simp add: gather_inv_def)
    from pair_progress [OF this sd(4)] obtain c' where
      "gather_exec n (G_step s (2 * d)) c = Some c' \<or> gather_exec n (G_step d (2 * s + 1)) c = Some c' \<or> gather_exec n (G_hand s d) c = Some c'"
      using sd by auto
    then show ?thesis by blast
  qed
qed

interpretation ga: draining_system "gather_exec n" "\<lambda>c. gather_inv n sz inp out M c \<and> apart_buffers n sz inp out"
    "gather_work n" "gather_returned n" for n sz inp out M
proof
  fix c c' :: gather_cluster and l
  assume c: "gather_inv n sz inp out M c \<and> apart_buffers n sz inp out"
  show "gather_exec n l c = Some c' \<Longrightarrow> gather_inv n sz inp out M c' \<and> apart_buffers n sz inp out" using c by (rule gather_inv_step)
  show "gather_exec n l c = Some c' \<Longrightarrow> gather_work n c' < gather_work n c" using c by (blast intro: gather_work_step)
  show "\<not> gather_returned n c \<Longrightarrow> \<exists>l c'. gather_exec n l c = Some c'" using c by (blast intro: gather_progress)
qed

section \<open>Properties\<close>

lemma gather_start_inv:
  assumes "\<And>i. i < n \<Longrightarrow> gather_workspaces n (inp i) (out i) cnt dt = Inr (ws i)" and "dtype_size dt = Inr s" and "sz = cnt * s"
  shows "gather_inv n sz inp out M (gather_start n ws M)"
proof -
  have e: "ws i = map (\<lambda>j. \<lparr>w_send = inp i, w_recv = out i + cnt * s * j, w_count = cnt, w_dt = dt, w_op = sum_op, w_name = []\<rparr>) [0..<n]"
    if "i < n" for i
    using assms(1) [OF that] assms(2) that by (simp add: gather_workspaces_def eq_commute [of "ws i"])
  have w: "w_send (ws i ! j) = inp i" "w_recv (ws i ! j) = out i + sz * j" "data_size (ws i ! j) = Inr sz" if "i < n" "j < n" for i j
    unfolding e [OF that(1)] using assms(2,3) that(2) by (simp_all add: data_size_def)
  have job: "job_at (gather_start n ws M) i k = gather_job i (ws i) k" for i k by (simp add: gather_start_def)
  have q: "gc_wire (gather_start n ws M) i j = []" "gp_waitq (gc_procs (gather_start n ws M) i) j = []"
    "gp_recvq (gc_procs (gather_start n ws M) i) j = []" "gp_mem (gc_procs (gather_start n ws M) i) = M i" for i j
    by (simp_all add: gather_start_def)
  have "landed n (gather_start n ws M) i = {}" if "i < n" for i
    by (auto simp: landed_def job q gather_job_def Let_def)
  then show ?thesis
    using w by (auto simp: gather_inv_def pair_ok_def to_come_def self_ok_def ws_ok_def job q gather_job_def Let_def)
qed

lemma returned_result:
  assumes "gather_inv n sz inp out M c" and "gather_returned n c" and "i < n"
  shows "gp_mem (gc_procs c i) = write_mem (M i) (out i) (concat (map (input_of sz inp M) [0..<n]))"
proof -
  have "landed n c i = {..<n}" using assms by (auto simp: landed_def gather_returned_def)
  then show ?thesis
    using assms(1,3) place_all [of n "input_of sz inp M" sz "out i" "M i"] by (simp add: gather_inv_def input_of_def)
qed



section \<open>One message\<close>

definition message_frame :: "nat \<Rightarrow> nat \<Rightarrow> (nat \<Rightarrow> mem) \<Rightarrow> gather_cluster \<Rightarrow> bool" where
  "message_frame s d M c \<longleftrightarrow> s \<noteq> d \<and>
     (\<forall>i k. (i, k) \<noteq> (s, 2 * d) \<and> (i, k) \<noteq> (d, 2 * s + 1) \<longrightarrow> job_at c i k = G_done) \<and>
     (\<forall>i j. (i, j) \<noteq> (s, d) \<longrightarrow> gc_wire c i j = []) \<and> (\<forall>i. i \<noteq> d \<longrightarrow> gp_mem (gc_procs c i) = M i)"

definition message_phase :: "nat \<Rightarrow> nat \<Rightarrow> nat \<Rightarrow> workspace \<Rightarrow> byte list \<Rightarrow> (nat \<Rightarrow> mem) \<Rightarrow> gather_cluster \<Rightarrow> bool" where
  "message_phase s d ptr w b M c \<longleftrightarrow>
     job_at c s (2 * d) = G_send d w \<and> gc_wire c s d = [] \<and> to_come ptr s d c \<and> gp_mem (gc_procs c d) = M d \<or>
     job_at c s (2 * d) = G_done \<and> gc_wire c s d = [b] \<and> to_come ptr s d c \<and> gp_mem (gc_procs c d) = M d \<or>
     job_at c s (2 * d) = G_done \<and> gc_wire c s d = [] \<and> delivered ptr s d c \<and> gp_mem (gc_procs c d) = write_mem (M d) ptr b"

definition message_inv :: "nat \<Rightarrow> nat \<Rightarrow> nat \<Rightarrow> workspace \<Rightarrow> byte list \<Rightarrow> (nat \<Rightarrow> mem) \<Rightarrow> gather_cluster \<Rightarrow> bool" where
  "message_inv s d ptr w b M c \<longleftrightarrow> message_frame s d M c \<and> message_phase s d ptr w b M c \<and>
     data_size w = Inr (length b) \<and> read_mem (M s) (w_send w) (length b) = b"

lemma message_frame_facts:
  assumes "message_frame s d M c"
  shows "s \<noteq> d" and "gp_mem (gc_procs c s) = M s"
  using assms unfolding message_frame_def by blast+

lemma message_step_cases:
  assumes "message_frame s d M c" and "gather_exec n l c = Some c'"
  shows "l = G_step s (2 * d) \<and> job_step s (2 * d) c = Some c' \<or>
    l = G_step d (2 * s + 1) \<and> job_step d (2 * s + 1) c = Some c' \<or> l = G_hand s d \<and> hand_step s d c = Some c'"
proof (cases l)
  case (G_step i k)
  have "job_at c i k \<noteq> G_done" using assms(2) by (auto simp: G_step job_step_def split: if_splits)
  then have "(i, k) = (s, 2 * d) \<or> (i, k) = (d, 2 * s + 1)" using assms(1) unfolding message_frame_def by metis
  with assms(2) G_step show ?thesis by (auto split: if_splits)
next
  case (G_hand i j)
  have "gc_wire c i j \<noteq> []" using assms(2) by (auto simp: G_hand hand_step_def Let_def split: if_splits list.splits)
  then have "(i, j) = (s, d)" using assms(1) unfolding message_frame_def by metis
  with assms(2) G_hand show ?thesis by (auto split: if_splits)
qed

lemma message_send:
  assumes "message_inv s d ptr w b M c" and "job_step s (2 * d) c = Some c'"
  shows "c' = put_wire s d [b] (put_proc s (set_job (2 * d) G_done (gc_procs c s)) c) \<and>
    job_at c s (2 * d) = G_send d w \<and> gc_wire c s d = [] \<and> to_come ptr s d c \<and> gp_mem (gc_procs c d) = M d"
proof -
  have f: "message_frame s d M c" using assms(1) by (simp add: message_inv_def)
  have "message_phase s d ptr w b M c" "data_size w = Inr (length b)" "read_mem (M s) (w_send w) (length b) = b" "gp_mem (gc_procs c s) = M s"
    using assms(1) message_frame_facts(2) [OF f] by (simp_all add: message_inv_def)
  with assms(2) show ?thesis by (auto simp: message_phase_def job_step_def Let_def)
qed

lemma message_recv:
  assumes "message_inv s d ptr w b M c" and "job_step d (2 * s + 1) c = Some c'"
  shows "job_at c d (2 * s + 1) = G_get s ptr \<and> to_come ptr s d c \<and>
      c' = put_proc d (set_job (2 * s + 1) (G_await s ptr) ((gc_procs c d)\<lparr>gp_waitq := (gp_waitq (gc_procs c d))(s := [ptr])\<rparr>)) c \<or>
    job_at c d (2 * s + 1) = G_await s ptr \<and> delivered ptr s d c \<and>
      c' = put_proc d (set_job (2 * s + 1) G_done ((gc_procs c d)\<lparr>gp_recvq := (gp_recvq (gc_procs c d))(s := [])\<rparr>)) c"
  using assms by (auto simp: message_inv_def message_phase_def to_come_def delivered_def job_step_def Let_def)

lemma message_hand:
  assumes "message_inv s d ptr w b M c" and "hand_step s d c = Some c'"
  shows "c' = put_wire s d [] (put_proc d ((gc_procs c d)\<lparr>gp_mem := write_mem (M d) ptr b,
      gp_waitq := (gp_waitq (gc_procs c d))(s := []), gp_recvq := (gp_recvq (gc_procs c d))(s := [ptr])\<rparr>) c) \<and>
    job_at c s (2 * d) = G_done \<and> job_at c d (2 * s + 1) = G_await s ptr \<and> gc_wire c s d = [b]"
  using assms by (auto simp: message_inv_def message_phase_def to_come_def delivered_def hand_step_def Let_def)

lemma message_frame_step:
  assumes "message_frame s d M c"
  shows "message_frame s d M (put_wire s d ms (put_proc s (set_job (2 * d) j (gc_procs c s)) c))"
    and "message_frame s d M (put_proc d (set_job (2 * s + 1) j ((gc_procs c d)\<lparr>gp_waitq := wq\<rparr>)) c)"
    and "message_frame s d M (put_proc d (set_job (2 * s + 1) j ((gc_procs c d)\<lparr>gp_recvq := rq\<rparr>)) c)"
    and "message_frame s d M (put_wire s d ms (put_proc d ((gc_procs c d)\<lparr>gp_mem := m, gp_waitq := wq, gp_recvq := rq\<rparr>) c))"
  using assms unfolding message_frame_def gather_ops by simp_all

lemma message_inv_step:
  assumes "message_inv s d ptr w b M c" and "gather_exec n l c = Some c'"
  shows "message_inv s d ptr w b M c'"
proof -
  have f: "message_frame s d M c" and ph: "message_phase s d ptr w b M c" using assms(1) by (simp_all add: message_inv_def)
  note sd = message_frame_facts(1) [OF f]
  have "message_frame s d M c' \<and> message_phase s d ptr w b M c'"
    using message_step_cases [OF f assms(2)]
  proof (elim disjE conjE)
    assume "job_step s (2 * d) c = Some c'"
    note c' = message_send [OF assms(1) this]
    then have "message_frame s d M c'" using message_frame_step(1) [OF f] by simp
    moreover have "message_phase s d ptr w b M c'" using c' sd by (auto simp: message_phase_def to_come_def gather_ops)
    ultimately show ?thesis ..
  next
    assume "job_step d (2 * s + 1) c = Some c'"
    note c' = message_recv [OF assms(1) this]
    then have "message_frame s d M c'" using message_frame_step(2,3) [OF f] by blast
    moreover have "message_phase s d ptr w b M c'"
      using c' sd ph by (elim disjE conjE) (auto simp: message_phase_def to_come_def delivered_def gather_ops)
    ultimately show ?thesis ..
  next
    assume "hand_step s d c = Some c'"
    note c' = message_hand [OF assms(1) this]
    then have "message_frame s d M c'" using message_frame_step(4) [OF f] by simp
    moreover have "message_phase s d ptr w b M c'" using c' sd by (simp add: message_phase_def delivered_def gather_ops)
    ultimately show ?thesis ..
  qed
  with assms(1) show ?thesis by (simp add: message_inv_def)
qed

lemma message_work_step:
  assumes "message_inv s d ptr w b M c" and "gather_exec n l c = Some c'" and "s < n" and "d < n"
  shows "gather_work n c' < gather_work n c"
proof -
  have f: "message_frame s d M c" using assms(1) by (simp add: message_inv_def)
  from message_step_cases [OF f assms(2)] show ?thesis
  proof (elim disjE conjE)
    assume "job_step s (2 * d) c = Some c'"
    from message_send [OF assms(1) this] show ?thesis
      by (intro work_job [where i = s and k = "2 * d" and d = d]) (use assms(3,4) in \<open>auto simp: gather_ops\<close>)
  next
    assume "job_step d (2 * s + 1) c = Some c'"
    from message_recv [OF assms(1) this] show ?thesis
      by (intro work_job [where i = d and k = "2 * s + 1" and d = s]) (use assms(3,4) in \<open>auto simp: gather_ops\<close>)
  next
    assume "hand_step s d c = Some c'"
    from message_hand [OF assms(1) this] show ?thesis
      by (intro work_job [where i = s and k = 0 and d = d]) (use assms(3,4) in \<open>auto simp: gather_ops\<close>)
  qed
qed

lemma message_progress:
  assumes "message_inv s d ptr w b M c \<and> s < n \<and> d < n" and "\<not> gather_returned n c"
  shows "\<exists>l c'. gather_exec n l c = Some c'"
proof -
  have f: "message_frame s d M c" and ph: "message_phase s d ptr w b M c" and w: "data_size w = Inr (length b)"
    using assms(1) by (simp_all add: message_inv_def)
  have "job_at c s (2 * d) \<noteq> G_done \<or> job_at c d (2 * s + 1) \<noteq> G_done"
    using assms(2) f unfolding gather_returned_def message_frame_def by (metis prod.inject)
  then have "\<exists>c'. job_step s (2 * d) c = Some c' \<or> job_step d (2 * s + 1) c = Some c' \<or> hand_step s d c = Some c'"
    using ph w by (auto simp: message_phase_def to_come_def delivered_def job_step_def hand_step_def Let_def)
  then have "\<exists>c'. gather_exec n (G_step s (2 * d)) c = Some c' \<or> gather_exec n (G_step d (2 * s + 1)) c = Some c' \<or> gather_exec n (G_hand s d) c = Some c'"
    using assms(1) by auto
  then show ?thesis by blast
qed

interpretation pp: draining_system "gather_exec n" "\<lambda>c. message_inv s d ptr w b M c \<and> s < n \<and> d < n"
    "gather_work n" "gather_returned n" for n s d ptr w b M
  by unfold_locales (blast intro: message_inv_step message_work_step message_progress)+

lemma message_start_inv:
  assumes "s < n" and "d < n" and "s \<noteq> d" and "dtype_size dt = Inr sz"
  shows "message_inv s d out \<lparr>w_send = inp, w_recv = 0, w_count = cnt, w_dt = dt, w_op = sum_op, w_name = []\<rparr> (read_mem (M s) inp (cnt * sz)) M
    (message_start n s d (session_send n inp cnt dt d) (session_recv n out s) M)"
  using assms
  by (simp add: message_inv_def message_frame_def message_phase_def message_start_def session_send_def session_recv_def to_come_def data_size_def)

lemma send_recv_no_rank:
  "n \<le> t \<Longrightarrow> session_send n inp cnt dt t = G_failed (Exception ''std::out_of_range'') \<and>
    session_recv n out t = G_failed (Exception ''std::out_of_range'')"
  by (simp add: session_send_def session_recv_def)



end
