(* ===== verification/Topology.thy ===== *)
theory Topology
  imports Prelude
begin

text \<open>
  Communication graphs: \<open>include/stdml/bits/collective/topology.hpp\<close> and
  \<open>src/stdml/collective/topology.cpp\<close>. A \<open>graph_builder\<close> keeps sets of neighbours and a
  \<open>graph\<close> their sorted vectors; the star and ring strategies produce pairs of a reduce graph
  (all self loops set) and a broadcast graph (none). The lemmas show that building keeps
  \<open>nexts\<close> and \<open>prevs\<close> converse to each other and within range, and give the neighbours of every
  vertex of the star and of every ring rotation. Vertices are \<open>size_t\<close>, kept as \<open>nat\<close>; every call
  passes vertices below the size of the builder.
\<close>

named_theorems topo_simps \<open>neighbours of the built graphs\<close>

record graph =
  g_self_loop :: "bool list"
  g_nexts :: "nat list list"
  g_prevs :: "nat list list"

definition nexts :: "graph \<Rightarrow> nat \<Rightarrow> nat list" where
  "nexts g i = g_nexts g ! i"

definition prevs :: "graph \<Rightarrow> nat \<Rightarrow> nat list" where
  "prevs g i = g_prevs g ! i"

definition self_loop :: "graph \<Rightarrow> nat \<Rightarrow> bool" where
  "self_loop g i = g_self_loop g ! i"

definition graph_size :: "graph \<Rightarrow> nat" where
  "graph_size g = length (g_self_loop g)"

record graph_builder =
  b_self_loop :: "bool list"
  b_nexts :: "nat set list"
  b_prevs :: "nat set list"

definition new_builder :: "nat \<Rightarrow> graph_builder" where
  "new_builder n = \<lparr>b_self_loop = replicate n False, b_nexts = replicate n {}, b_prevs = replicate n {}\<rparr>"

definition edeg_exists :: "graph_builder \<Rightarrow> nat \<Rightarrow> nat \<Rightarrow> bool" where
  "edeg_exists b i j = (if i = j then b_self_loop b ! i else j \<in> b_nexts b ! i)"

definition add_edge :: "nat \<Rightarrow> nat \<Rightarrow> graph_builder \<Rightarrow> bool \<times> graph_builder" where
  "add_edge i j b =
     (if edeg_exists b i j then (False, b)
      else if i = j then (True, b\<lparr>b_self_loop := (b_self_loop b)[i := True]\<rparr>)
      else (True, b\<lparr>b_nexts := (b_nexts b)[i := insert j (b_nexts b ! i)],
                    b_prevs := (b_prevs b)[j := insert i (b_prevs b ! j)]\<rparr>))"

text \<open>\<open>sort_set\<close>: a \<open>std::set\<close> is iterated in increasing order.\<close>

definition sort_set :: "nat set \<Rightarrow> nat list" where
  "sort_set s = sorted_list_of_set s"

definition build :: "bool \<Rightarrow> bool \<Rightarrow> graph_builder \<Rightarrow> graph" where
  "build rev_edges add_self_loops b =
     (let n = length (b_self_loop b);
          nx = map sort_set (b_nexts b);
          pv = map sort_set (b_prevs b);
          (nx, pv) = (if rev_edges then (pv, nx) else (nx, pv))
      in if add_self_loops then \<lparr>g_self_loop = replicate n True, g_nexts = nx, g_prevs = pv\<rparr>
         else \<lparr>g_self_loop = b_self_loop b, g_nexts = nx, g_prevs = pv\<rparr>)"

definition start_broadcast_graph_builder :: "nat \<Rightarrow> nat \<Rightarrow> graph_builder" where
  "start_broadcast_graph_builder n root =
     fold (\<lambda>i g. if i \<noteq> root then snd (add_edge root i g) else g) [0..<n] (new_builder n)"

record graph_pair =
  reduce_graph :: graph
  broadcast_graph :: graph

definition make_circular_graph_pair :: "nat \<Rightarrow> nat \<Rightarrow> graph_pair" where
  "make_circular_graph_pair n r =
     (let (rg, bg) = fold (\<lambda>i (rg, bg).
            (snd (add_edge ((r + i) mod n) ((r + i + 1) mod n) rg),
             snd (add_edge ((r + i - 1) mod n) ((r + i) mod n) bg)))
          [1..<n] (new_builder n, new_builder n)
      in \<lparr>reduce_graph = build False True rg, broadcast_graph = build False False bg\<rparr>)"

type_synonym graph_pair_list = "graph_pair list"

datatype strategy = star | ring

definition make_graph_pair_list_star :: "nat \<Rightarrow> nat \<Rightarrow> graph_pair_list" where
  "make_graph_pair_list_star n root =
     (let g = start_broadcast_graph_builder n root in
      [\<lparr>reduce_graph = build True True g, broadcast_graph = build False False g\<rparr>])"

definition make_graph_pair_list_ring :: "nat \<Rightarrow> graph_pair_list" where
  "make_graph_pair_list_ring n = map (make_circular_graph_pair n) [0..<n]"

definition make_graph_pair_list :: "strategy \<Rightarrow> nat \<Rightarrow> graph_pair_list" where
  "make_graph_pair_list s n =
     (case s of star \<Rightarrow> make_graph_pair_list_star n 0 | ring \<Rightarrow> make_graph_pair_list_ring n)"

text \<open>\<open>choose\<close>: with an empty list of pairs the modulus is zero.\<close>

definition choose_pair :: "graph_pair_list \<Rightarrow> nat \<Rightarrow> (graph \<times> graph) res" where
  "choose_pair gps i =
     (if gps = [] then Inl (Undefined_behaviour ''modulo by zero'')
      else (let p = gps ! (i mod length gps) in Inr (reduce_graph p, broadcast_graph p)))"

section \<open>The builder's invariant\<close>

text \<open>Vectors of one length, vertices in range, and \<open>prevs\<close> the converse of \<open>nexts\<close>.\<close>

definition wf_builder :: "nat \<Rightarrow> graph_builder \<Rightarrow> bool" where
  "wf_builder n b \<longleftrightarrow> length (b_self_loop b) = n \<and> length (b_nexts b) = n \<and> length (b_prevs b) = n \<and>
     (\<forall>i<n. b_nexts b ! i \<subseteq> {..<n} - {i} \<and> b_prevs b ! i \<subseteq> {..<n} - {i}) \<and>
     (\<forall>i<n. \<forall>j<n. j \<in> b_nexts b ! i \<longleftrightarrow> i \<in> b_prevs b ! j)"

definition wf_graph :: "nat \<Rightarrow> graph \<Rightarrow> bool" where
  "wf_graph n g \<longleftrightarrow> graph_size g = n \<and>
     (\<forall>i<n. sorted (nexts g i) \<and> distinct (nexts g i) \<and> set (nexts g i) \<subseteq> {..<n} - {i} \<and>
            sorted (prevs g i) \<and> distinct (prevs g i) \<and> set (prevs g i) \<subseteq> {..<n} - {i}) \<and>
     (\<forall>i<n. \<forall>j<n. j \<in> set (nexts g i) \<longleftrightarrow> i \<in> set (prevs g j))"

lemma wf_new_builder [simp]: "wf_builder n (new_builder n)"
  by (simp add: wf_builder_def new_builder_def)

lemma wf_add_edge:
  assumes "wf_builder n b" and "i < n" and "j < n"
  shows "wf_builder n (snd (add_edge i j b))"
proof (cases "edeg_exists b i j \<or> i = j")
  case True
  with assms(1) show ?thesis by (auto simp: add_edge_def wf_builder_def)
next
  case False
  with assms show ?thesis
    by (auto simp: add_edge_def wf_builder_def nth_list_update)
qed

lemma add_edge_nexts:
  assumes "wf_builder n b" and "i < n" and "j < n" and "i \<noteq> j" and "k < n"
  shows "b_nexts (snd (add_edge i j b)) ! k = (if k = i then insert j (b_nexts b ! k) else b_nexts b ! k)"
  using assms by (auto simp: add_edge_def edeg_exists_def wf_builder_def nth_list_update)

lemma add_edge_prevs:
  assumes "wf_builder n b" and "i < n" and "j < n" and "i \<noteq> j" and "k < n"
  shows "b_prevs (snd (add_edge i j b)) ! k = (if k = j then insert i (b_prevs b ! k) else b_prevs b ! k)"
  using assms by (auto simp: add_edge_def edeg_exists_def wf_builder_def nth_list_update)

lemma add_edge_self_loop: "i \<noteq> j \<Longrightarrow> b_self_loop (snd (add_edge i j b)) = b_self_loop b"
  by (simp add: add_edge_def)

text \<open>A builder filled with a list of edges between different vertices.\<close>

definition add_edges :: "(nat \<times> nat) list \<Rightarrow> graph_builder \<Rightarrow> graph_builder" where
  "add_edges es b = fold (\<lambda>(i, j) g. snd (add_edge i j g)) es b"

definition ok_edges :: "nat \<Rightarrow> (nat \<times> nat) list \<Rightarrow> bool" where
  "ok_edges n es \<longleftrightarrow> (\<forall>(i, j)\<in>set es. i < n \<and> j < n \<and> i \<noteq> j)"

lemma add_edges_Nil [simp]: "add_edges [] b = b"
  by (simp add: add_edges_def)

lemma add_edges_Cons [simp]: "add_edges ((i, j) # es) b = add_edges es (snd (add_edge i j b))"
  by (simp add: add_edges_def)

lemma ok_edges_Nil [simp]: "ok_edges n []"
  by (simp add: ok_edges_def)

lemma ok_edges_Cons [simp]: "ok_edges n ((i, j) # es) \<longleftrightarrow> i < n \<and> j < n \<and> i \<noteq> j \<and> ok_edges n es"
  by (auto simp: ok_edges_def)

lemma wf_add_edges: "ok_edges n es \<Longrightarrow> wf_builder n b \<Longrightarrow> wf_builder n (add_edges es b)"
proof (induction es arbitrary: b)
  case Nil
  then show ?case by simp
next
  case (Cons e es)
  then show ?case by (cases e) (auto intro: wf_add_edge)
qed

lemma add_edges_nexts:
  "ok_edges n es \<Longrightarrow> wf_builder n b \<Longrightarrow> k < n \<Longrightarrow>
   b_nexts (add_edges es b) ! k = b_nexts b ! k \<union> {j. (k, j) \<in> set es}"
proof (induction es arbitrary: b)
  case Nil
  then show ?case by simp
next
  case (Cons e es)
  obtain i j where e: "e = (i, j)" by (cases e)
  with Cons.prems have ij: "i < n" "j < n" "i \<noteq> j" "ok_edges n es" by auto
  have "wf_builder n (snd (add_edge i j b))" using Cons.prems(2) ij by (auto intro: wf_add_edge)
  with Cons.IH [OF ij(4)] Cons.prems ij e show ?case by (auto simp: add_edge_nexts)
qed

lemma add_edges_prevs:
  "ok_edges n es \<Longrightarrow> wf_builder n b \<Longrightarrow> k < n \<Longrightarrow>
   b_prevs (add_edges es b) ! k = b_prevs b ! k \<union> {i. (i, k) \<in> set es}"
proof (induction es arbitrary: b)
  case Nil
  then show ?case by simp
next
  case (Cons e es)
  obtain i j where e: "e = (i, j)" by (cases e)
  with Cons.prems have ij: "i < n" "j < n" "i \<noteq> j" "ok_edges n es" by auto
  have "wf_builder n (snd (add_edge i j b))" using Cons.prems(2) ij by (auto intro: wf_add_edge)
  with Cons.IH [OF ij(4)] Cons.prems ij e show ?case by (auto simp: add_edge_prevs)
qed

lemma add_edges_self_loop: "ok_edges n es \<Longrightarrow> b_self_loop (add_edges es b) = b_self_loop b"
proof (induction es arbitrary: b)
  case Nil
  then show ?case by simp
next
  case (Cons e es)
  then show ?case by (cases e) (simp add: add_edge_self_loop)
qed

section \<open>Built graphs\<close>

lemma sort_set_props [simp]:
  "finite s \<Longrightarrow> set (sort_set s) = s" "sorted (sort_set s)" "distinct (sort_set s)"
  by (simp_all add: sort_set_def)

lemma wf_builder_finite: "wf_builder n b \<Longrightarrow> i < n \<Longrightarrow> finite (b_nexts b ! i) \<and> finite (b_prevs b ! i)"
  unfolding wf_builder_def by (meson finite_Diff finite_lessThan finite_subset)

lemma nexts_build:
  "wf_builder n b \<Longrightarrow> i < n \<Longrightarrow>
   nexts (build rv sl b) i = sort_set (if rv then b_prevs b ! i else b_nexts b ! i)"
  by (simp add: nexts_def build_def wf_builder_def Let_def)

lemma prevs_build:
  "wf_builder n b \<Longrightarrow> i < n \<Longrightarrow>
   prevs (build rv sl b) i = sort_set (if rv then b_nexts b ! i else b_prevs b ! i)"
  by (simp add: prevs_def build_def wf_builder_def Let_def)

lemma graph_size_build [simp]: "graph_size (build rv sl b) = length (b_self_loop b)"
  by (simp add: graph_size_def build_def Let_def split: prod.splits)

lemma self_loop_build:
  "i < length (b_self_loop b) \<Longrightarrow> self_loop (build rv sl b) i = (sl \<or> b_self_loop b ! i)"
  by (simp add: self_loop_def build_def Let_def split: prod.splits)

lemma wf_build:
  assumes "wf_builder n b"
  shows "wf_graph n (build rv sl b)"
proof -
  have len: "length (b_self_loop b) = n" using assms by (simp add: wf_builder_def)
  have fin: "finite (b_nexts b ! i)" "finite (b_prevs b ! i)" if "i < n" for i
    using wf_builder_finite [OF assms that] by auto
  show ?thesis
    using assms fin unfolding wf_graph_def
    by (auto simp: nexts_build [OF assms] prevs_build [OF assms] len wf_builder_def)
qed

lemma sort_set_singleton [simp]: "sort_set {x} = [x]" "sort_set {} = []"
  by (simp_all add: sort_set_def)

section \<open>The star\<close>

definition star_edges :: "nat \<Rightarrow> nat \<Rightarrow> (nat \<times> nat) list" where
  "star_edges n root = map (\<lambda>i. (root, i)) (filter (\<lambda>i. i \<noteq> root) [0..<n])"

lemma ok_star_edges: "root < n \<Longrightarrow> ok_edges n (star_edges n root)"
  by (auto simp: ok_edges_def star_edges_def)

lemma fold_filter: "fold (\<lambda>i g. if P i then f i g else g) xs s = fold f (filter P xs) s"
  by (induction xs arbitrary: s) auto

lemma star_builder: "start_broadcast_graph_builder n root = add_edges (star_edges n root) (new_builder n)"
  by (simp add: start_broadcast_graph_builder_def fold_filter add_edges_def star_edges_def fold_map comp_def)

lemma star_builder_nexts:
  "root < n \<Longrightarrow> k < n \<Longrightarrow> b_nexts (start_broadcast_graph_builder n root) ! k =
     (if k = root then {..<n} - {root} else {})"
proof -
  assume "root < n" "k < n"
  then have "b_nexts (start_broadcast_graph_builder n root) ! k =
      b_nexts (new_builder n) ! k \<union> {j. (k, j) \<in> set (star_edges n root)}"
    by (simp add: star_builder add_edges_nexts [OF ok_star_edges wf_new_builder])
  with \<open>k < n\<close> show ?thesis by (auto simp: star_edges_def new_builder_def)
qed

lemma star_builder_prevs:
  "root < n \<Longrightarrow> k < n \<Longrightarrow> b_prevs (start_broadcast_graph_builder n root) ! k =
     (if k = root then {} else {root})"
proof -
  assume "root < n" "k < n"
  then have "b_prevs (start_broadcast_graph_builder n root) ! k =
      b_prevs (new_builder n) ! k \<union> {i. (i, k) \<in> set (star_edges n root)}"
    by (simp add: star_builder add_edges_prevs [OF ok_star_edges wf_new_builder])
  with \<open>k < n\<close> show ?thesis by (auto simp: star_edges_def new_builder_def)
qed

lemma wf_star_builder: "root < n \<Longrightarrow> wf_builder n (start_broadcast_graph_builder n root)"
  by (simp add: star_builder wf_add_edges ok_star_edges)

lemma star_builder_self_loop: "root < n \<Longrightarrow> b_self_loop (start_broadcast_graph_builder n root) = replicate n False"
  by (simp add: star_builder add_edges_self_loop [OF ok_star_edges] new_builder_def)

lemma sort_set_leaves: "sort_set ({..<n} - {root}) = filter (\<lambda>i. i \<noteq> root) [0..<n]"
proof -
  let ?xs = "filter (\<lambda>i. i \<noteq> root) [0..<n]"
  have "sorted ?xs" by (rule sorted_wrt_filter) simp
  then have "sorted_list_of_set (set ?xs) = ?xs"
    by (rule sorted_list_of_set.idem_if_sorted_distinct) simp
  moreover have "{..<n} - {root} = set ?xs" by auto
  ultimately show ?thesis by (simp only: sort_set_def)
qed

definition star_leaves :: "nat \<Rightarrow> nat \<Rightarrow> nat list" where
  "star_leaves n root = filter (\<lambda>i. i \<noteq> root) [0..<n]"

definition star_pair :: "nat \<Rightarrow> nat \<Rightarrow> graph_pair" where
  "star_pair n root = hd (make_graph_pair_list_star n root)"

lemma make_star: "make_graph_pair_list_star n root = [star_pair n root]"
  by (simp add: star_pair_def make_graph_pair_list_star_def Let_def)

lemma star_pair_eq: "star_pair n root =
    \<lparr>reduce_graph = build True True (start_broadcast_graph_builder n root),
     broadcast_graph = build False False (start_broadcast_graph_builder n root)\<rparr>"
  by (simp add: star_pair_def make_graph_pair_list_star_def Let_def)

lemmas star_neighbours = nexts_build [OF wf_star_builder] prevs_build [OF wf_star_builder]
  star_builder_nexts star_builder_prevs sort_set_leaves

lemma star_reduce_nexts [topo_simps]: "root < n \<Longrightarrow> k < n \<Longrightarrow>
    nexts (reduce_graph (star_pair n root)) k = (if k = root then [] else [root])"
  by (simp add: star_pair_eq star_neighbours)

lemma star_reduce_prevs [topo_simps]: "root < n \<Longrightarrow> k < n \<Longrightarrow>
    prevs (reduce_graph (star_pair n root)) k = (if k = root then star_leaves n root else [])"
  by (simp add: star_pair_eq star_neighbours star_leaves_def)

lemma star_broadcast_nexts [topo_simps]: "root < n \<Longrightarrow> k < n \<Longrightarrow>
    nexts (broadcast_graph (star_pair n root)) k = (if k = root then star_leaves n root else [])"
  by (simp add: star_pair_eq star_neighbours star_leaves_def)

lemma star_broadcast_prevs [topo_simps]: "root < n \<Longrightarrow> k < n \<Longrightarrow>
    prevs (broadcast_graph (star_pair n root)) k = (if k = root then [] else [root])"
  by (simp add: star_pair_eq star_neighbours)

lemma star_self_loops [topo_simps]: "root < n \<Longrightarrow> k < n \<Longrightarrow> self_loop (reduce_graph (star_pair n root)) k"
  "root < n \<Longrightarrow> k < n \<Longrightarrow> \<not> self_loop (broadcast_graph (star_pair n root)) k"
  by (simp_all add: star_pair_eq self_loop_build star_builder_self_loop)

section \<open>The ring\<close>

definition ring_reduce_edges :: "nat \<Rightarrow> nat \<Rightarrow> (nat \<times> nat) list" where
  "ring_reduce_edges n r = map (\<lambda>i. ((r + i) mod n, (r + i + 1) mod n)) [1..<n]"

definition ring_broadcast_edges :: "nat \<Rightarrow> nat \<Rightarrow> (nat \<times> nat) list" where
  "ring_broadcast_edges n r = map (\<lambda>i. ((r + i - 1) mod n, (r + i) mod n)) [1..<n]"

lemma fold_pair:
  "fold (\<lambda>i (a, b). (f i a, g i b)) xs (a, b) = (fold f xs a, fold g xs b)"
  by (induction xs arbitrary: a b) auto

lemma ring_pair:
  "make_circular_graph_pair n r =
     \<lparr>reduce_graph = build False True (add_edges (ring_reduce_edges n r) (new_builder n)),
      broadcast_graph = build False False (add_edges (ring_broadcast_edges n r) (new_builder n))\<rparr>"
  by (simp add: make_circular_graph_pair_def fold_pair add_edges_def ring_reduce_edges_def
      ring_broadcast_edges_def fold_map comp_def)

lemma mod_succ_neq: "2 \<le> n \<Longrightarrow> (a + 1) mod n \<noteq> a mod (n::nat)"
proof
  assume "2 \<le> n" "(a + 1) mod n = a mod n"
  then have "n dvd (a + 1) - a" by (metis le_add1 mod_eq_dvd_iff_nat)
  with \<open>2 \<le> n\<close> show False by simp
qed

lemma ok_ring_edges: "ok_edges n (ring_reduce_edges n r)" "ok_edges n (ring_broadcast_edges n r)"
proof -
  have "(r + i) mod n \<noteq> (r + i + 1) mod n" if "1 \<le> i" "i < n" for i
    using mod_succ_neq [of n "r + i"] that by simp
  then show "ok_edges n (ring_reduce_edges n r)"
    by (auto simp: ok_edges_def ring_reduce_edges_def)
  have "(r + i - 1) mod n \<noteq> (r + i) mod n" if "1 \<le> i" "i < n" for i
    using mod_succ_neq [of n "r + i - 1"] that by simp
  then show "ok_edges n (ring_broadcast_edges n r)"
    by (auto simp: ok_edges_def ring_broadcast_edges_def)
qed

text \<open>Vertices of a rotation by \<open>r\<close> are compared through their offsets.\<close>

lemma mod_offset_le: "i < n \<Longrightarrow> j \<le> i \<Longrightarrow> (r + i) mod n = (r + j) mod n \<Longrightarrow> i = (j::nat)"
proof -
  assume "i < n" "j \<le> i" "(r + i) mod n = (r + j) mod n"
  then have "n dvd (r + i) - (r + j)" by (metis add_le_cancel_left mod_eq_dvd_iff_nat)
  then have "n dvd i - j" by simp
  with \<open>i < n\<close> \<open>j \<le> i\<close> show "i = j" by (auto dest: dvd_imp_le)
qed

lemma mod_offset_eq: "i < n \<Longrightarrow> j < n \<Longrightarrow> (r + i) mod n = (r + j) mod n \<longleftrightarrow> i = (j::nat)"
  by (metis mod_offset_le nle_le)

lemma offset_surj: "v < n \<Longrightarrow> \<exists>k<n. v = (r + k) mod (n::nat)"
proof -
  assume v: "v < n"
  let ?k = "(v + (n - r mod n)) mod n"
  have "(r + ?k) mod n = (r mod n + (v + (n - r mod n))) mod n" by (simp add: mod_simps)
  also have "r mod n + (v + (n - r mod n)) = v + n"
    using v mod_less_divisor [of n r] by linarith
  finally have "v = (r + ?k) mod n" using v by simp
  moreover have "?k < n" using v by simp
  ultimately show ?thesis by blast
qed

lemma offset_pred: "0 < n \<Longrightarrow> k < n \<Longrightarrow> 1 \<le> i \<Longrightarrow> i < n \<Longrightarrow>
    (r + i + 1) mod n = (r + k) mod n \<longleftrightarrow> (if k = 0 then i = n - 1 else i + 1 = (k::nat))"
proof (cases "i + 1 < n")
  case True
  moreover assume "0 < n" "k < n" "1 \<le> i" "i < n"
  ultimately show ?thesis using mod_offset_eq [of "i + 1" n k r] by auto
next
  case False
  moreover assume "0 < n" "k < n" "1 \<le> i" "i < n"
  ultimately have "r + i + 1 = r + n" "i = n - 1" by simp_all
  moreover have "(r + n) mod n = (r + 0) mod n" by simp
  ultimately show ?thesis using mod_offset_eq [of 0 n k r] \<open>k < n\<close> \<open>0 < n\<close> \<open>i < n\<close> by auto
qed

lemma offset_0: "i < n \<Longrightarrow> r mod n = (r + i) mod n \<longleftrightarrow> i = (0::nat)"
  "i < n \<Longrightarrow> (r + i) mod n = r mod n \<longleftrightarrow> i = (0::nat)"
  using mod_offset_eq [of 0 n i r] mod_offset_eq [of i n 0 r] by auto

lemma ring_reduce_next_set:
  "k < n \<Longrightarrow> {j. ((r + k) mod n, j) \<in> set (ring_reduce_edges n r)} =
     (if k = 0 then {} else {(r + k + 1) mod n})"
  by (auto simp: ring_reduce_edges_def mod_offset_eq offset_0)

lemma ring_reduce_prev_set:
  "k < n \<Longrightarrow> {i. (i, (r + k) mod n) \<in> set (ring_reduce_edges n r)} =
     (if n = 1 \<or> k = 1 then {} else {(r + k + n - 1) mod n})"
proof -
  assume k: "k < n"
  have "{i. (i, (r + k) mod n) \<in> set (ring_reduce_edges n r)} =
      {(r + i) mod n |i. 1 \<le> i \<and> i < n \<and> (r + k) mod n = (r + i + 1) mod n}"
    by (auto simp: ring_reduce_edges_def)
  also have "\<dots> = {(r + i) mod n |i. 1 \<le> i \<and> i < n \<and> (if k = 0 then i = n - 1 else i + 1 = k)}"
    using offset_pred [of n k] k by (intro Collect_cong ex_cong1) (metis gr_implies_not0 neq0_conv)
  also have "\<dots> = (if n = 1 \<or> k = 1 then {} else {(r + k + n - 1) mod n})"
  proof (cases "k = 0")
    case True
    with k show ?thesis by (cases "n = 1") auto
  next
    case False
    then obtain i where i: "k = i + 1" by (cases k) auto
    have "(r + k + n - 1) mod n = (r + i) mod n" using i by simp
    with i k show ?thesis by auto
  qed
  finally show ?thesis .
qed

lemma ring_broadcast_edge:
  "(u, v) \<in> set (ring_broadcast_edges n r) \<longleftrightarrow>
     (\<exists>i. i + 1 < n \<and> u = (r + i) mod n \<and> v = (r + i + 1) mod n)"
proof
  assume "(u, v) \<in> set (ring_broadcast_edges n r)"
  then obtain i where i: "1 \<le> i" "i < n" "u = (r + i - 1) mod n" "v = (r + i) mod n"
    by (auto simp: ring_broadcast_edges_def)
  then obtain j where "i = j + 1" by (cases i) auto
  with i have "j + 1 < n \<and> u = (r + j) mod n \<and> v = (r + j + 1) mod n" by simp
  then show "\<exists>i. i + 1 < n \<and> u = (r + i) mod n \<and> v = (r + i + 1) mod n" ..
next
  assume "\<exists>i. i + 1 < n \<and> u = (r + i) mod n \<and> v = (r + i + 1) mod n"
  then obtain i where i: "i + 1 < n" "u = (r + i) mod n" "v = (r + i + 1) mod n" by blast
  then have "(u, v) = (\<lambda>j. ((r + j - 1) mod n, (r + j) mod n)) (i + 1)" by simp
  moreover have "i + 1 \<in> set [1..<n]" using i(1) by simp
  ultimately show "(u, v) \<in> set (ring_broadcast_edges n r)"
    unfolding ring_broadcast_edges_def set_map by blast
qed

lemma ring_broadcast_next_set:
  "k < n \<Longrightarrow> {j. ((r + k) mod n, j) \<in> set (ring_broadcast_edges n r)} =
     (if k + 1 < n then {(r + k + 1) mod n} else {})"
  by (auto simp: ring_broadcast_edge mod_offset_eq)

lemma ring_broadcast_prev_set:
  "k < n \<Longrightarrow> {i. (i, (r + k) mod n) \<in> set (ring_broadcast_edges n r)} =
     (if k = 0 then {} else {(r + k - 1) mod n})"
proof -
  assume k: "k < n"
  have "((r + k) mod n = (r + i + 1) mod n) = (k = i + 1)" if "i + 1 < n" for i
    using mod_offset_eq [of k n "i + 1" r] k that by (simp add: add.assoc)
  then have "{i. (i, (r + k) mod n) \<in> set (ring_broadcast_edges n r)} =
      {(r + i) mod n |i. i + 1 < n \<and> k = i + 1}"
    by (auto simp: ring_broadcast_edge)
  also have "\<dots> = (if k = 0 then {} else {(r + k - 1) mod n})"
    using k by (cases k) auto
  finally show ?thesis .
qed

lemmas ring_neighbours = nexts_build [OF wf_add_edges [OF ok_ring_edges(1) wf_new_builder]]
  prevs_build [OF wf_add_edges [OF ok_ring_edges(1) wf_new_builder]]
  nexts_build [OF wf_add_edges [OF ok_ring_edges(2) wf_new_builder]]
  prevs_build [OF wf_add_edges [OF ok_ring_edges(2) wf_new_builder]]
  add_edges_nexts [OF ok_ring_edges(1) wf_new_builder] add_edges_prevs [OF ok_ring_edges(1) wf_new_builder]
  add_edges_nexts [OF ok_ring_edges(2) wf_new_builder] add_edges_prevs [OF ok_ring_edges(2) wf_new_builder]

lemma new_builder_nth: "k < n \<Longrightarrow> b_nexts (new_builder n) ! k = {}" "k < n \<Longrightarrow> b_prevs (new_builder n) ! k = {}"
  by (simp_all add: new_builder_def)

lemma ring_reduce_nexts [topo_simps]: "k < n \<Longrightarrow>
    nexts (reduce_graph (make_circular_graph_pair n r)) ((r + k) mod n) =
    (if k = 0 then [] else [(r + k + 1) mod n])"
  by (simp add: ring_pair ring_neighbours new_builder_nth ring_reduce_next_set)

lemma ring_reduce_prevs [topo_simps]: "k < n \<Longrightarrow>
    prevs (reduce_graph (make_circular_graph_pair n r)) ((r + k) mod n) =
    (if n = 1 \<or> k = 1 then [] else [(r + k + n - 1) mod n])"
  by (simp add: ring_pair ring_neighbours new_builder_nth ring_reduce_prev_set)

lemma ring_broadcast_nexts [topo_simps]: "k < n \<Longrightarrow>
    nexts (broadcast_graph (make_circular_graph_pair n r)) ((r + k) mod n) =
    (if k + 1 < n then [(r + k + 1) mod n] else [])"
  by (simp add: ring_pair ring_neighbours new_builder_nth ring_broadcast_next_set)

lemma ring_broadcast_prevs [topo_simps]: "k < n \<Longrightarrow>
    prevs (broadcast_graph (make_circular_graph_pair n r)) ((r + k) mod n) =
    (if k = 0 then [] else [(r + k - 1) mod n])"
  by (simp add: ring_pair ring_neighbours new_builder_nth ring_broadcast_prev_set)

lemma ring_self_loops [topo_simps]: "v < n \<Longrightarrow> self_loop (reduce_graph (make_circular_graph_pair n r)) v"
  "v < n \<Longrightarrow> \<not> self_loop (broadcast_graph (make_circular_graph_pair n r)) v"
  by (simp_all add: ring_pair self_loop_build add_edges_self_loop [OF ok_ring_edges(1)]
      add_edges_self_loop [OF ok_ring_edges(2)] new_builder_def)

lemma wf_ring_pair: "wf_graph n (reduce_graph (make_circular_graph_pair n r))"
  "wf_graph n (broadcast_graph (make_circular_graph_pair n r))"
  by (simp_all add: ring_pair wf_build wf_add_edges ok_ring_edges)

lemma wf_star_pair: "root < n \<Longrightarrow> wf_graph n (reduce_graph (star_pair n root))"
  "root < n \<Longrightarrow> wf_graph n (broadcast_graph (star_pair n root))"
  by (simp_all add: star_pair_eq wf_build wf_star_builder)

section \<open>Properties\<close>

lemma make_graph_pair_list_cases:
  "p \<in> set (make_graph_pair_list s n) \<Longrightarrow> 0 < n \<Longrightarrow>
     p = star_pair n 0 \<or> (\<exists>r<n. p = make_circular_graph_pair n r)"
  by (cases s) (auto simp: make_graph_pair_list_def make_star make_graph_pair_list_ring_def)

lemma make_graph_pair_list_nonempty: "0 < n \<Longrightarrow> make_graph_pair_list s n \<noteq> []"
  by (cases s) (simp_all add: make_graph_pair_list_def make_star make_graph_pair_list_ring_def)

lemma wf_pair:
  assumes "p \<in> set (make_graph_pair_list s n)" and "0 < n"
  shows "wf_graph n (reduce_graph p)" "wf_graph n (broadcast_graph p)"
  using make_graph_pair_list_cases [OF assms] wf_star_pair [of 0 n] wf_ring_pair [of n] assms(2) by auto

text \<open>C19: Both strategies give a non-empty list of pairs for a non-empty cluster, so \<open>choose\<close> returns a
  pair for every hash; in each of its graphs the neighbour lists are sorted, free of duplicates and self
  edges, within range and converse to each other, and exactly the reduce graph has self loops.\<close>

theorem graph_pairs_wf:
  assumes "0 < n"
  shows "\<exists>rg bg. choose_pair (make_graph_pair_list s n) h = Inr (rg, bg) \<and> wf_graph n rg \<and> wf_graph n bg \<and>
    (\<forall>i<n. self_loop rg i \<and> \<not> self_loop bg i)"
proof -
  let ?g = "make_graph_pair_list s n"
  define p where "p = ?g ! (h mod length ?g)"
  have ne: "?g \<noteq> []" using assms by (rule make_graph_pair_list_nonempty)
  then have p: "p \<in> set ?g" by (simp add: p_def)
  have "\<forall>i<n. self_loop (reduce_graph p) i \<and> \<not> self_loop (broadcast_graph p) i"
    using make_graph_pair_list_cases [OF p assms] assms by (auto simp: topo_simps)
  moreover have "choose_pair ?g h = Inr (reduce_graph p, broadcast_graph p)"
    using ne by (simp add: choose_pair_def p_def Let_def)
  ultimately show ?thesis using wf_pair [OF p assms] by blast
qed

theorem graph_pairs_wf_witness:
  "\<exists>rg bg. choose_pair (make_graph_pair_list ring 4) 7 = Inr (rg, bg) \<and> wf_graph 4 rg \<and> wf_graph 4 bg \<and>
    (\<forall>i<4. self_loop rg i \<and> \<not> self_loop bg i)"
  by (rule graph_pairs_wf) simp

end
