(* ===== verification/Collective.thy ===== *)
theory Collective
  imports Buffer Topology
begin

text \<open>
  The execution of a collective by a cluster of processes:
  \<open>src/stdml/collective/run_graph_pair_list_multi_thread.cpp\<close> over the mailboxes of
  \<open>mailbox.hpp\<close>, filled by the handler of \<open>collective_handler.cpp\<close>.

  Each process runs \<open>run_graphs_multi_thread\<close> for a sequence of workspaces. Its code is the list of
  parallel sections (\<open>instr\<close>) that \<open>run_graphs_prog\<close> computes; a section is a list of threads, and a
  process enters the next section when every thread of the last one has finished. Processes are
  named by their rank. The state holds a memory per process, the messages on the connection of
  each ordered pair of processes, and the channels of both mailboxes, of capacity one.

  A step of the cluster is labelled: \<open>Thr i k\<close> is the next blocking point of thread \<open>k\<close> of process
  \<open>i\<close>, \<open>Join i\<close> the end of a section and the start of the next, \<open>Hand s d\<close> the delivery by process
  \<open>d\<close> of the next message on its connection from \<open>s\<close>. \<open>exec\<close> gives the state after the step, or
  \<open>None\<close> while the step blocks. A schedule is a list of labels.
\<close>

named_theorems coll_simps \<open>evaluating steps of the cluster\<close>

section \<open>Processes, messages, threads\<close>

record msg =
  m_name :: string
  m_wait_recv_buf :: bool
  m_data :: "byte list"

datatype thread =
    T_recv nat
  | T_add "byte list"
  | T_send bool nat
  | T_into "nat list"
  | T_await nat "nat list"
  | T_done

datatype instr =
    New_state workspace
  | Par_recv "nat list"
  | Par_send bool "nat list"
  | Recv_into "nat list"

record proc =
  p_mem :: mem
  p_st :: workspace_state
  p_threads :: "thread list"
  p_rest :: "instr list"
  p_mail :: "nat \<times> string \<Rightarrow> byte list list"
  p_waitq :: "nat \<times> string \<Rightarrow> nat list"
  p_recvq :: "nat \<times> string \<Rightarrow> nat list"
  p_fault :: "cxx_error option"

record cluster =
  procs :: "nat \<Rightarrow> proc"
  wire :: "nat \<Rightarrow> nat \<Rightarrow> msg list"

datatype label = Thr nat nat | Join nat | Hand nat nat

section \<open>The program of a process\<close>

definition graph_prog :: "nat \<Rightarrow> graph \<Rightarrow> instr list" where
  "graph_prog rank g =
     (if self_loop g rank then [Par_recv (prevs g rank), Par_send True (nexts g rank)]
      else [Recv_into (prevs g rank), Par_send False (nexts g rank)])"

definition run_graphs_prog :: "nat \<Rightarrow> workspace \<Rightarrow> graph list \<Rightarrow> instr list" where
  "run_graphs_prog rank w gs = New_state w # concat (map (graph_prog rank) gs)"

section \<open>Steps\<close>

definition set_thread :: "nat \<Rightarrow> thread \<Rightarrow> proc \<Rightarrow> proc" where
  "set_thread k t p = p\<lparr>p_threads := (p_threads p)[k := t]\<rparr>"

definition set_proc :: "nat \<Rightarrow> proc \<Rightarrow> cluster \<Rightarrow> cluster" where
  "set_proc i p s = s\<lparr>procs := (procs s)(i := p)\<rparr>"

definition enqueue :: "nat \<Rightarrow> nat \<Rightarrow> msg \<Rightarrow> cluster \<Rightarrow> cluster" where
  "enqueue i d m s = s\<lparr>wire := (wire s)(i := (wire s i)(d := wire s i d @ [m]))\<rparr>"

definition dequeue :: "nat \<Rightarrow> nat \<Rightarrow> cluster \<Rightarrow> cluster" where
  "dequeue i d s = s\<lparr>wire := (wire s)(i := (wire s i)(d := tl (wire s i d)))\<rparr>"

definition cur_name :: "proc \<Rightarrow> string" where
  "cur_name p = w_name (st_w (p_st p))"

definition fault :: "cxx_error \<Rightarrow> proc \<Rightarrow> proc" where
  "fault e p = p\<lparr>p_fault := Some e\<rparr>"

text \<open>\<open>client->send(id, name, state->effective_data(), data_size, flags)\<close>.\<close>

definition send_msg :: "bool \<Rightarrow> proc \<Rightarrow> msg res" where
  "send_msg red p = res_map
     (\<lambda>n. \<lparr>m_name = cur_name p, m_wait_recv_buf = (\<not> red), m_data = read_mem (p_mem p) (effective_data (p_st p)) n\<rparr>)
     (data_size (st_w (p_st p)))"

text \<open>
  The threads: \<open>recv_task\<close> with \<open>reduce\<close> takes a buffer from the mailbox and adds it; \<open>send\<close> writes
  one message; \<open>recv_task\<close> without \<open>reduce\<close>, run for each id in turn, offers its receive buffer on
  \<open>waitQ\<close> and waits for it on \<open>recvQ\<close>.
\<close>

fun thread_step :: "float_ops \<Rightarrow> nat \<Rightarrow> thread \<Rightarrow> proc \<Rightarrow> proc option" where
  "thread_step fo k (T_recv src) p =
     (case p_mail p (src, cur_name p) of
        [] \<Rightarrow> None
      | b # bs \<Rightarrow> Some (set_thread k (T_add b) (p\<lparr>p_mail := (p_mail p)((src, cur_name p) := bs)\<rparr>)))"
| "thread_step fo k (T_add b) p =
     (case add_to fo b (p_st p, p_mem p) of
        Inl e \<Rightarrow> Some (fault e p)
      | Inr (st, m) \<Rightarrow> Some (set_thread k T_done (p\<lparr>p_st := st, p_mem := m\<rparr>)))"
| "thread_step fo k (T_into []) p = None"
| "thread_step fo k (T_into (src # ids)) p =
     (if p_waitq p (src, cur_name p) = [] then
        Some (set_thread k (T_await src ids)
          (p\<lparr>p_waitq := (p_waitq p)((src, cur_name p) := [w_recv (st_w (p_st p))])\<rparr>))
      else None)"
| "thread_step fo k (T_await src ids) p =
     (case p_recvq p (src, cur_name p) of
        [] \<Rightarrow> None
      | q # qs \<Rightarrow>
         (let p' = p\<lparr>p_recvq := (p_recvq p)((src, cur_name p) := qs)\<rparr> in
          if q = w_recv (st_w (p_st p)) then Some (set_thread k (T_into ids) p')
          else Some (fault (Assert_failed ''p == q'') p')))"
| "thread_step fo k (T_send red d) p = None"
| "thread_step fo k T_done p = None"

fun finished :: "thread \<Rightarrow> bool" where
  "finished T_done = True"
| "finished (T_into ids) = (ids = [])"
| "finished _ = False"

definition start :: "instr \<Rightarrow> proc \<Rightarrow> proc" where
  "start ins p = (case ins of
       New_state w \<Rightarrow> p\<lparr>p_st := new_state w, p_threads := []\<rparr>
     | Par_recv ids \<Rightarrow> p\<lparr>p_threads := map T_recv ids\<rparr>
     | Par_send red ids \<Rightarrow> p\<lparr>p_threads := map (T_send red) ids\<rparr>
     | Recv_into ids \<Rightarrow>
         if ids = [] \<and> recv_count (p_st p) = 0 then
           (case forward (st_w (p_st p)) (p_mem p) of
              Inl e \<Rightarrow> fault e p
            | Inr m \<Rightarrow> p\<lparr>p_mem := m, p_threads := []\<rparr>)
         else p\<lparr>p_threads := [T_into ids]\<rparr>)"

text \<open>The handler: \<open>slotbox\<close> for \<open>wait_recv_buf\<close>, otherwise \<open>mailbox\<close>.\<close>

definition handle :: "nat \<Rightarrow> msg \<Rightarrow> proc \<Rightarrow> proc option" where
  "handle src m p =
     (let key = (src, m_name m) in
      if m_wait_recv_buf m then
        (case p_waitq p key of
           [] \<Rightarrow> None
         | ptr # ps \<Rightarrow>
             if p_recvq p key = [] then
               Some (p\<lparr>p_waitq := (p_waitq p)(key := ps), p_mem := write_mem (p_mem p) ptr (m_data m),
                       p_recvq := (p_recvq p)(key := [ptr])\<rparr>)
             else None)
      else if p_mail p key = [] then Some (p\<lparr>p_mail := (p_mail p)(key := [m_data m])\<rparr>)
      else None)"

fun exec :: "float_ops \<Rightarrow> label \<Rightarrow> cluster \<Rightarrow> cluster option" where
  "exec fo (Thr i k) s =
     (let p = procs s i in
      if p_fault p \<noteq> None \<or> length (p_threads p) \<le> k then None
      else (case p_threads p ! k of
              T_send red d \<Rightarrow>
                (case send_msg red p of
                   Inl e \<Rightarrow> Some (set_proc i (fault e p) s)
                 | Inr m \<Rightarrow> Some (enqueue i d m (set_proc i (set_thread k T_done p) s)))
            | t \<Rightarrow> map_option (\<lambda>q. set_proc i q s) (thread_step fo k t p)))"
| "exec fo (Join i) s =
     (let p = procs s i in
      if p_fault p \<noteq> None \<or> \<not> list_all finished (p_threads p) then None
      else (case p_rest p of
              [] \<Rightarrow> None
            | ins # rest \<Rightarrow> Some (set_proc i (start ins (p\<lparr>p_rest := rest\<rparr>)) s)))"
| "exec fo (Hand src d) s =
     (let p = procs s d in
      if p_fault p \<noteq> None then None
      else (case wire s src d of
              [] \<Rightarrow> None
            | m # ms \<Rightarrow> map_option (\<lambda>q. dequeue src d (set_proc d q s)) (handle src m p)))"

section \<open>Local effect of a step\<close>

text \<open>
  A step changes one process, its owner, consumes at most the first message of one connection
  and appends at most one message to a connection that leaves the owner. \<open>local_step\<close> is that
  effect on the owner, given the message at the front of the connection the label names.
\<close>

fun owner :: "label \<Rightarrow> nat" where
  "owner (Thr i k) = i"
| "owner (Join i) = i"
| "owner (Hand s d) = d"

type_synonym effect = "proc \<times> (nat \<times> msg) list"

fun local_step :: "float_ops \<Rightarrow> label \<Rightarrow> msg list \<Rightarrow> proc \<Rightarrow> effect option" where
  "local_step fo (Thr i k) ms p =
     (if p_fault p \<noteq> None \<or> length (p_threads p) \<le> k then None
      else (case p_threads p ! k of
              T_send red d \<Rightarrow>
                (case send_msg red p of
                   Inl e \<Rightarrow> Some (fault e p, [])
                 | Inr m \<Rightarrow> Some (set_thread k T_done p, [(d, m)]))
            | t \<Rightarrow> map_option (\<lambda>q. (q, [])) (thread_step fo k t p)))"
| "local_step fo (Join i) ms p =
     (if p_fault p \<noteq> None \<or> \<not> list_all finished (p_threads p) then None
      else (case p_rest p of
              [] \<Rightarrow> None
            | ins # rest \<Rightarrow> Some (start ins (p\<lparr>p_rest := rest\<rparr>), [])))"
| "local_step fo (Hand src d) ms p =
     (if p_fault p \<noteq> None then None
      else (case ms of
              [] \<Rightarrow> None
            | m # ms \<Rightarrow> map_option (\<lambda>q. (q, [])) (handle src m p)))"

fun input :: "label \<Rightarrow> cluster \<Rightarrow> msg list" where
  "input (Hand s d) c = take 1 (wire c s d)"
| "input _ c = []"

fun put_out :: "nat \<Rightarrow> (nat \<times> msg) list \<Rightarrow> (nat \<Rightarrow> nat \<Rightarrow> msg list) \<Rightarrow> (nat \<Rightarrow> nat \<Rightarrow> msg list)" where
  "put_out i [] w = w"
| "put_out i ((d, m) # out) w = put_out i out (w(i := (w i)(d := w i d @ [m])))"

fun take_in :: "label \<Rightarrow> (nat \<Rightarrow> nat \<Rightarrow> msg list) \<Rightarrow> (nat \<Rightarrow> nat \<Rightarrow> msg list)" where
  "take_in (Hand s d) w = w(s := (w s)(d := tl (w s d)))"
| "take_in _ w = w"

definition apply_effect :: "label \<Rightarrow> effect \<Rightarrow> cluster \<Rightarrow> cluster" where
  "apply_effect l e c = c\<lparr>procs := (procs c)(owner l := fst e), wire := put_out (owner l) (snd e) (take_in l (wire c))\<rparr>"

lemma take_1_split: "(case take 1 xs of [] \<Rightarrow> a | x # ys \<Rightarrow> f x) = (case xs of [] \<Rightarrow> a | x # ys \<Rightarrow> f x)"
  by (cases xs) simp_all

lemma exec_local:
  "exec fo l c = map_option (\<lambda>e. apply_effect l e c) (local_step fo l (input l c) (procs c (owner l)))"
proof (cases l)
  case (Thr i k)
  then show ?thesis
    by (auto simp: Let_def apply_effect_def set_proc_def enqueue_def map_option.compositionality comp_def
        split: thread.splits sum.splits)
next
  case (Join i)
  then show ?thesis
    by (auto simp: Let_def apply_effect_def set_proc_def split: list.splits)
next
  case (Hand s d)
  then show ?thesis
    by (auto simp: Let_def take_1_split apply_effect_def set_proc_def dequeue_def map_option.compositionality comp_def
        split: list.splits)
qed

section \<open>The invariant of a process\<close>

text \<open>
  The workspaces have an integer type and their buffers are equal or disjoint; a section runs
  receives from different sources, or sends to different targets, or one sequence of receives
  into the buffer; and the slot queues hold exactly the pointer that sequence waits for.
\<close>

definition wf_ws :: "workspace \<Rightarrow> bool" where
  "wf_ws w \<longleftrightarrow> is_integer (w_dt w) \<and> disjoint_or_same (w_recv w) (w_send w) (w_count w * elem_size (w_dt w))"

fun wf_instr :: "instr \<Rightarrow> bool" where
  "wf_instr (New_state w) \<longleftrightarrow> wf_ws w"
| "wf_instr (Par_recv ids) \<longleftrightarrow> distinct ids"
| "wf_instr (Par_send red ids) \<longleftrightarrow> distinct ids"
| "wf_instr (Recv_into ids) \<longleftrightarrow> True"

fun recvish :: "thread \<Rightarrow> bool" where
  "recvish (T_recv s) = True" | "recvish (T_add b) = True" | "recvish T_done = True" | "recvish _ = False"

fun sendish :: "thread \<Rightarrow> bool" where
  "sendish (T_send r d) = True" | "sendish T_done = True" | "sendish _ = False"

fun tkey :: "thread \<Rightarrow> nat option" where
  "tkey (T_recv s) = Some s" | "tkey (T_send r d) = Some d" | "tkey _ = None"

definition uniq_threads :: "thread list \<Rightarrow> bool" where
  "uniq_threads ths \<longleftrightarrow> (\<forall>j<length ths. \<forall>k<length ths. tkey (ths ! j) = tkey (ths ! k) \<longrightarrow> tkey (ths ! j) \<noteq> None \<longrightarrow> j = k)"

definition par_phase :: "thread list \<Rightarrow> bool" where
  "par_phase ths \<longleftrightarrow> uniq_threads ths \<and> (list_all recvish ths \<or> list_all sendish ths)"

definition no_token :: "proc \<Rightarrow> bool" where
  "no_token p \<longleftrightarrow> p_waitq p = (\<lambda>_. []) \<and> p_recvq p = (\<lambda>_. [])"

definition one_token :: "nat \<Rightarrow> proc \<Rightarrow> bool" where
  "one_token src p \<longleftrightarrow> (let q = (\<lambda>_. [])((src, cur_name p) := [w_recv (st_w (p_st p))]) in
     (p_waitq p = q \<and> p_recvq p = (\<lambda>_. [])) \<or> (p_waitq p = (\<lambda>_. []) \<and> p_recvq p = q))"

definition phase :: "proc \<Rightarrow> bool" where
  "phase p \<longleftrightarrow> (par_phase (p_threads p) \<and> no_token p) \<or>
     (\<exists>ids. p_threads p = [T_into ids] \<and> no_token p) \<or>
     (\<exists>src ids. p_threads p = [T_await src ids] \<and> one_token src p)"

definition proc_inv :: "proc \<Rightarrow> bool" where
  "proc_inv p \<longleftrightarrow> p_fault p = None \<and> wf_ws (st_w (p_st p)) \<and> list_all wf_instr (p_rest p) \<and> phase p"

definition cluster_inv :: "cluster \<Rightarrow> bool" where
  "cluster_inv c \<longleftrightarrow> (\<forall>i. proc_inv (procs c i))"

end
