(* ===== verification/Confluence.thy ===== *)
theory Confluence
  imports Collective
begin

text \<open>
  The steps of the cluster commute. \<open>proc_inv\<close> is kept by every step of a process, two different
  steps of one process can be taken in either order (\<open>local_diamond\<close>), and so can two steps of the
  cluster (\<open>exec_diamond\<close>). The cluster is therefore an instance of the locale \<open>diamond_system\<close>:
  one complete schedule decides the outcome of every schedule.
\<close>

lemma par_phase_set:
  assumes "par_phase ths" and "k < length ths" and "tkey t = None"
    and "recvish (ths ! k) \<Longrightarrow> recvish t" and "sendish (ths ! k) \<Longrightarrow> sendish t"
  shows "par_phase (ths[k := t])"
proof -
  have "uniq_threads (ths[k := t])"
    using assms(1-3) unfolding par_phase_def uniq_threads_def by (auto simp: nth_list_update)
  moreover have "list_all recvish (ths[k := t]) \<or> list_all sendish (ths[k := t])"
    using assms by (auto simp: par_phase_def list_all_length nth_list_update)
  ultimately show ?thesis by (simp add: par_phase_def)
qed

lemma set_thread_simps [coll_simps]:
  "p_mem (set_thread k t p) = p_mem p" "p_st (set_thread k t p) = p_st p"
  "p_threads (set_thread k t p) = (p_threads p)[k := t]" "p_rest (set_thread k t p) = p_rest p"
  "p_mail (set_thread k t p) = p_mail p" "p_waitq (set_thread k t p) = p_waitq p"
  "p_recvq (set_thread k t p) = p_recvq p" "p_fault (set_thread k t p) = p_fault p"
  by (simp_all add: set_thread_def)

lemma data_size_wf: "wf_ws w \<Longrightarrow> data_size w = Inr (w_count w * elem_size (w_dt w))"
  by (simp add: data_size_def wf_ws_def dtype_size_integer del: is_integer.simps)

lemma send_msg_wf: "wf_ws (st_w (p_st p)) \<Longrightarrow> send_msg red p = Inr
    \<lparr>m_name = cur_name p, m_wait_recv_buf = (\<not> red),
     m_data = read_mem (p_mem p) (effective_data (p_st p)) (w_count (st_w (p_st p)) * elem_size (w_dt (st_w (p_st p))))\<rparr>"
  by (simp add: send_msg_def data_size_wf)

definition added :: "float_ops \<Rightarrow> byte list \<Rightarrow> proc \<Rightarrow> proc" where
  "added fo b p = (let st = p_st p; w = st_w st; n = w_count w in
     p\<lparr>p_st := st\<lparr>recv_count := recv_count st + 1\<rparr>,
       p_mem := write_mem (p_mem p) (w_recv w)
         (combine fo n (w_dt w) (w_op w) b (read_mem (p_mem p) (effective_data st) (n * elem_size (w_dt w))))\<rparr>)"

lemma thread_step_add: "wf_ws (st_w (p_st p)) \<Longrightarrow> thread_step fo k (T_add b) p = Some (set_thread k T_done (added fo b p))"
  by (simp add: wf_ws_def add_to_integer added_def Let_def del: is_integer.simps)

lemma added_simps [coll_simps]:
  "st_w (p_st (added fo b p)) = st_w (p_st p)" "p_threads (added fo b p) = p_threads p"
  "p_rest (added fo b p) = p_rest p" "p_mail (added fo b p) = p_mail p"
  "p_waitq (added fo b p) = p_waitq p" "p_recvq (added fo b p) = p_recvq p"
  "p_fault (added fo b p) = p_fault p"
  by (simp_all add: added_def Let_def)

lemma forward_wf: "wf_ws w \<Longrightarrow> \<exists>m'. forward w m = Inr m'"
  by (auto simp: forward_def data_size_wf wf_ws_def)

text \<open>What a thread of a parallel section can do next.\<close>

lemma par_thread_cases:
  assumes "proc_inv p" and "par_phase (p_threads p)" and "local_step fo (Thr i k) ms p = Some (q, out)"
  obtains
    (recv) src b bs where "p_threads p ! k = T_recv src" "p_mail p (src, cur_name p) = b # bs" "out = []"
      "q = set_thread k (T_add b) (p\<lparr>p_mail := (p_mail p)((src, cur_name p) := bs)\<rparr>)" "k < length (p_threads p)"
  | (add) b where "p_threads p ! k = T_add b" "out = []" "q = set_thread k T_done (added fo b p)" "k < length (p_threads p)"
  | (send) red d m where "p_threads p ! k = T_send red d" "send_msg red p = Inr m" "out = [(d, m)]"
      "q = set_thread k T_done p" "k < length (p_threads p)"
proof -
  have wf: "wf_ws (st_w (p_st p))" and k: "k < length (p_threads p)"
    using assms by (auto simp: proc_inv_def split: if_splits)
  have "recvish (p_threads p ! k) \<or> sendish (p_threads p ! k)"
    using assms(2) k by (auto simp: par_phase_def list_all_length)
  with assms(3) k wf that show ?thesis
    by (cases "p_threads p ! k") (auto simp: send_msg_wf thread_step_add simp del: thread_step.simps(2) split: if_splits list.splits)
qed


lemma par_no_await: "par_phase ths \<Longrightarrow> ths \<noteq> [T_await src ids]" "par_phase ths \<Longrightarrow> ths \<noteq> [T_into ids]"
  by (auto simp: par_phase_def)

lemma phase_no_token: "phase p \<Longrightarrow> (\<forall>src ids. p_threads p \<noteq> [T_await src ids]) \<Longrightarrow> no_token p"
  by (auto simp: phase_def)

lemma par_phase_map [simp]: "distinct ids \<Longrightarrow> par_phase (map T_recv ids)" "distinct ids \<Longrightarrow> par_phase (map (T_send red) ids)"
  by (auto simp: par_phase_def uniq_threads_def list_all_iff nth_eq_iff_index_eq)

lemma par_phase_Nil [simp]: "par_phase []"
  by (simp add: par_phase_def uniq_threads_def)

lemma thr_inv_par:
  assumes "proc_inv p" and "par_phase (p_threads p)" and "local_step fo (Thr i k) ms p = Some (q, out)"
  shows "proc_inv q"
proof -
  have nt: "no_token p" using assms(1,2) par_no_await by (auto simp: proc_inv_def intro: phase_no_token)
  from assms show ?thesis
  proof (cases rule: par_thread_cases)
    case (recv src b bs)
    then have "par_phase ((p_threads p)[k := T_add b])" using assms(2) by (intro par_phase_set) auto
    with recv assms(1) nt show ?thesis by (auto simp: proc_inv_def phase_def no_token_def coll_simps)
  next
    case (add b)
    then have "par_phase ((p_threads p)[k := T_done])" using assms(2) by (intro par_phase_set) auto
    with add assms(1) nt show ?thesis by (auto simp: proc_inv_def phase_def no_token_def coll_simps)
  next
    case (send red d m)
    then have "par_phase ((p_threads p)[k := T_done])" using assms(2) by (intro par_phase_set) auto
    with send assms(1) nt show ?thesis by (auto simp: proc_inv_def phase_def no_token_def coll_simps)
  qed
qed

lemma thr_inv_seq:
  assumes "proc_inv p" and "\<not> par_phase (p_threads p)" and "local_step fo (Thr i k) ms p = Some (q, out)"
  shows "proc_inv q"
proof -
  from assms(1,2) consider (into) ids where "p_threads p = [T_into ids]" "no_token p"
    | (await) src ids where "p_threads p = [T_await src ids]" "one_token src p"
    by (auto simp: proc_inv_def phase_def)
  moreover from this assms(3) have "k = 0" by cases (auto split: if_splits)
  ultimately show ?thesis
  proof cases
    case into
    with assms(1,3) \<open>k = 0\<close> show ?thesis
      by (cases ids) (auto simp: proc_inv_def phase_def no_token_def one_token_def Let_def cur_name_def coll_simps
          split: if_splits)
  next
    case await
    with assms(1,3) \<open>k = 0\<close> show ?thesis
      by (auto simp: proc_inv_def phase_def no_token_def one_token_def Let_def cur_name_def coll_simps
          split: if_splits list.splits)
  qed
qed

lemma join_inv:
  assumes "proc_inv p" and "local_step fo (Join i) ms p = Some (q, out)"
  shows "proc_inv q"
proof -
  have fin: "list_all finished (p_threads p)" using assms(2) by (auto split: if_splits)
  obtain ins rest where r: "p_rest p = ins # rest" and q: "q = start ins (p\<lparr>p_rest := rest\<rparr>)"
    using assms(2) by (auto split: if_splits list.splits)
  have nt: "no_token p" using assms(1) fin by (auto simp: proc_inv_def intro: phase_no_token)
  obtain m' where "forward (st_w (p_st p)) (p_mem p) = Inr m'"
    using assms(1) forward_wf unfolding proc_inv_def by metis
  with assms(1) nt r q show ?thesis
    by (cases ins) (auto simp: proc_inv_def phase_def no_token_def start_def new_state_def)
qed

lemma hand_inv:
  assumes "proc_inv p" and "local_step fo (Hand s d) ms p = Some (q, out)"
  shows "proc_inv q"
proof -
  obtain m ms' where m: "ms = m # ms'" "handle s m p = Some q" using assms(2) by (auto split: if_splits list.splits)
  show ?thesis
  proof (cases "m_wait_recv_buf m")
    case False
    with m assms(1) show ?thesis
      by (auto simp: handle_def proc_inv_def phase_def no_token_def one_token_def cur_name_def Let_def split: if_splits)
  next
    case True
    then have "p_waitq p (s, m_name m) \<noteq> []" using m by (auto simp: handle_def Let_def split: list.splits)
    then have "\<not> no_token p" by (auto simp: no_token_def)
    then obtain src ids where "p_threads p = [T_await src ids]" "one_token src p"
      using assms(1) by (auto simp: proc_inv_def phase_def)
    with True m assms(1) show ?thesis
      by (auto simp: handle_def proc_inv_def phase_def no_token_def one_token_def cur_name_def Let_def
          split: if_splits list.splits)
  qed
qed

lemma local_step_inv: "proc_inv p \<Longrightarrow> local_step fo l ms p = Some (q, out) \<Longrightarrow> proc_inv q"
  by (cases l) (metis thr_inv_par thr_inv_seq, metis join_inv, metis hand_inv)

lemma combine_left_comm: "is_integer dt \<Longrightarrow>
    combine fo n dt oper a (combine fo n dt oper b c) = combine fo n dt oper b (combine fo n dt oper a c)"
  by (metis combine_assoc combine_comm)

lemma added_commute: "wf_ws (st_w (p_st p)) \<Longrightarrow> added fo b (added fo b' p) = added fo b' (added fo b p)"
  by (simp add: added_def Let_def effective_data_def wf_ws_def length_combine combine_left_comm [of _ _ _ _ b b']
      del: is_integer.simps)

lemma added_set_thread: "added fo b (set_thread k t p) = set_thread k t (added fo b p)"
  by (simp add: added_def set_thread_def Let_def)

lemma added_mail: "added fo b (p\<lparr>p_mail := x\<rparr>) = (added fo b p)\<lparr>p_mail := x\<rparr>"
  by (simp add: added_def Let_def)

lemma set_thread_commute: "k \<noteq> k' \<Longrightarrow> set_thread k t (set_thread k' t' p) = set_thread k' t' (set_thread k t p)"
  by (simp add: set_thread_def list_update_swap)

lemma set_thread_mail: "(set_thread k t p)\<lparr>p_mail := x\<rparr> = set_thread k t (p\<lparr>p_mail := x\<rparr>)"
  by (simp add: set_thread_def)

lemma cur_name_simps [coll_simps]: "cur_name (set_thread k t p) = cur_name p" "cur_name (added fo b p) = cur_name p"
  "cur_name (p\<lparr>p_mail := x\<rparr>) = cur_name p"
  by (simp_all add: cur_name_def coll_simps)

lemma send_msg_simps [coll_simps]: "send_msg red (set_thread k t p) = send_msg red p"
  "send_msg red (p\<lparr>p_mail := x\<rparr>) = send_msg red p"
  by (simp_all add: send_msg_def coll_simps)

text \<open>The steps of threads, in the direction of execution.\<close>

lemma local_recv: "p_fault p = None \<Longrightarrow> k < length (p_threads p) \<Longrightarrow> p_threads p ! k = T_recv src \<Longrightarrow>
    p_mail p (src, cur_name p) = b # bs \<Longrightarrow> local_step fo (Thr i k) ms p =
    Some (set_thread k (T_add b) (p\<lparr>p_mail := (p_mail p)((src, cur_name p) := bs)\<rparr>), [])"
  by simp

lemma local_add: "p_fault p = None \<Longrightarrow> k < length (p_threads p) \<Longrightarrow> p_threads p ! k = T_add b \<Longrightarrow>
    wf_ws (st_w (p_st p)) \<Longrightarrow> local_step fo (Thr i k) ms p = Some (set_thread k T_done (added fo b p), [])"
  by (simp add: thread_step_add del: thread_step.simps(2))

lemma local_send: "p_fault p = None \<Longrightarrow> k < length (p_threads p) \<Longrightarrow> p_threads p ! k = T_send red d \<Longrightarrow>
    send_msg red p = Inr m \<Longrightarrow> local_step fo (Thr i k) ms p = Some (set_thread k T_done p, [(d, m)])"
  by simp

lemmas local_thr = local_recv local_add local_send
lemmas commuting = added_set_thread added_mail set_thread_mail added_commute

lemma thr_thr:
  assumes "proc_inv p" and "k \<noteq> k'"
    and s1: "local_step fo (Thr i k) ms p = Some (q1, o1)" and s2: "local_step fo (Thr i k') ms' p = Some (q2, o2)"
  shows "\<exists>q. local_step fo (Thr i k) ms q2 = Some (q, o1) \<and> local_step fo (Thr i k') ms' q1 = Some (q, o2) \<and>
    (\<forall>x\<in>set o1. \<forall>y\<in>set o2. fst x \<noteq> fst y)"
proof -
  have inv: "p_fault p = None" "wf_ws (st_w (p_st p))" using assms(1) by (auto simp: proc_inv_def)
  have len: "k < length (p_threads p)" "k' < length (p_threads p)" using s1 s2 by (auto split: if_splits)
  have par: "par_phase (p_threads p)"
    using assms(1,2) len by (auto simp: proc_inv_def phase_def)
  then have uniq: "\<And>x. tkey (p_threads p ! k) = Some x \<Longrightarrow> tkey (p_threads p ! k') \<noteq> Some x"
    using len assms(2) by (auto simp: par_phase_def uniq_threads_def)
  have kinds: "(recvish (p_threads p ! k) \<and> recvish (p_threads p ! k')) \<or> (sendish (p_threads p ! k) \<and> sendish (p_threads p ! k'))"
    using par len by (auto simp: par_phase_def list_all_length)
  note k' = assms(2) [symmetric]
  note simps = local_thr coll_simps inv len assms(2) k' commuting set_thread_commute [OF assms(2)]
  from assms(1) par s1 show ?thesis
  proof (cases rule: par_thread_cases)
    case (recv src b bs)
    note 1 = recv
    from assms(1) par s2 show ?thesis
    proof (cases rule: par_thread_cases)
      case (recv src' b' bs')
      with 1 uniq have "src \<noteq> src'" by auto
      with 1 recv show ?thesis by (simp add: simps fun_upd_twist del: local_step.simps)
    next
      case (add b')
      with 1 show ?thesis by (simp add: simps del: local_step.simps)
    qed (use 1 kinds in auto)
  next
    case (add b)
    note 1 = add
    from assms(1) par s2 show ?thesis
    proof (cases rule: par_thread_cases)
      case (recv src' b' bs')
      with 1 show ?thesis by (simp add: simps del: local_step.simps)
    next
      case (add b')
      with 1 show ?thesis by (simp add: simps del: local_step.simps)
    qed (use 1 kinds in auto)
  next
    case (send red d m)
    note 1 = send
    from assms(1) par s2 show ?thesis
    proof (cases rule: par_thread_cases)
      case (send red' d' m')
      with 1 uniq have "d \<noteq> d'" by auto
      with 1 send show ?thesis by (simp add: simps del: local_step.simps)
    qed (use 1 kinds in auto)
  qed
qed

lemma not_recv_mail:
  assumes "\<And>src. p_threads p ! k \<noteq> T_recv src" and "local_step fo (Thr i k) ms p = Some (q, out)"
  shows "local_step fo (Thr i k) ms (p\<lparr>p_mail := x\<rparr>) = Some (q\<lparr>p_mail := x\<rparr>, out) \<and> p_mail q = p_mail p \<and> p_fault p = None"
proof (cases "p_threads p ! k")
  case (T_into ids)
  with assms(2) show ?thesis
    by (cases ids) (auto simp: set_thread_def cur_name_def split: if_splits)
qed (use assms in \<open>auto simp: set_thread_def cur_name_def send_msg_def fault_def Let_def
    split: if_splits sum.splits list.splits\<close>)

lemma join_mail:
  assumes "local_step fo (Join i) ms p = Some (q, out)"
  shows "local_step fo (Join i) ms (p\<lparr>p_mail := x\<rparr>) = Some (q\<lparr>p_mail := x\<rparr>, out) \<and> p_mail q = p_mail p"
  using assms
  by (auto simp: start_def fault_def split: if_splits list.splits instr.splits sum.splits)

text \<open>What the handler does to a process that satisfies the invariant.\<close>

lemma hand_cases:
  assumes "proc_inv p" and "local_step fo (Hand s i) ms p = Some (q, out)"
  obtains
    (mail) m ms' where "ms = m # ms'" "\<not> m_wait_recv_buf m" "p_mail p (s, m_name m) = []" "out = []"
      "q = p\<lparr>p_mail := (p_mail p)((s, m_name m) := [m_data m])\<rparr>"
  | (slot) ids where "p_threads p = [T_await s ids]" "p_recvq p = (\<lambda>_. [])"
      "p_waitq p = (\<lambda>_. [])((s, cur_name p) := [w_recv (st_w (p_st p))])"
      "m_wait_recv_buf (hd ms)"
proof -
  obtain m ms' where m: "ms = m # ms'" "handle s m p = Some q" "out = []"
    using assms(2) by (auto split: if_splits list.splits)
  show ?thesis
  proof (cases "m_wait_recv_buf m")
    case False
    with m show ?thesis by (intro mail) (auto simp: handle_def Let_def split: if_splits)
  next
    case True
    then have w: "p_waitq p (s, m_name m) \<noteq> []" using m by (auto simp: handle_def Let_def split: list.splits)
    then have "\<not> no_token p" by (auto simp: no_token_def)
    then obtain src ids where "p_threads p = [T_await src ids]" "one_token src p"
      using assms(1) by (auto simp: proc_inv_def phase_def)
    with w m True show ?thesis
      by (intro slot [of ids]) (auto simp: one_token_def Let_def split: if_splits)
  qed
qed

lemma local_hand_mail: "p_fault p = None \<Longrightarrow> \<not> m_wait_recv_buf m \<Longrightarrow> p_mail p (s, m_name m) = [] \<Longrightarrow>
    local_step fo (Hand s i) (m # ms) p = Some (p\<lparr>p_mail := (p_mail p)((s, m_name m) := [m_data m])\<rparr>, [])"
  by (simp add: handle_def Let_def)

lemma thr_hand:
  assumes "proc_inv p"
    and s1: "local_step fo (Thr i k) ms p = Some (q1, o1)" and s2: "local_step fo (Hand s i) ms' p = Some (q2, o2)"
  shows "\<exists>q. local_step fo (Thr i k) ms q2 = Some (q, o1) \<and> local_step fo (Hand s i) ms' q1 = Some (q, o2)"
proof -
  have inv: "p_fault p = None" "wf_ws (st_w (p_st p))" "p_fault q1 = None"
    using assms(1) local_step_inv [OF assms(1) s1] by (auto simp: proc_inv_def)
  from assms(1) s2 show ?thesis
  proof (cases rule: hand_cases)
    case (slot ids)
    with s1 show ?thesis by (cases k) (auto split: if_splits)
  next
    case (mail m ms'')
    show ?thesis
    proof (cases "\<exists>src. p_threads p ! k = T_recv src")
      case False
      with s1 have "local_step fo (Thr i k) ms q2 = Some (q1\<lparr>p_mail := p_mail q2\<rparr>, o1)" "p_mail q1 = p_mail p"
        using not_recv_mail [of p k fo i ms q1 o1 "p_mail q2"] mail by (simp_all del: local_step.simps)
      moreover have "q1\<lparr>p_mail := p_mail q2\<rparr> = q1\<lparr>p_mail := (p_mail q1)((s, m_name m) := [m_data m])\<rparr>"
        using mail \<open>p_mail q1 = p_mail p\<close> by simp
      ultimately show ?thesis
        using mail inv by (simp add: local_hand_mail del: local_step.simps)
    next
      case True
      then obtain src b bs where r: "p_threads p ! k = T_recv src" "p_mail p (src, cur_name p) = b # bs" "o1 = []"
        "q1 = set_thread k (T_add b) (p\<lparr>p_mail := (p_mail p)((src, cur_name p) := bs)\<rparr>)" "k < length (p_threads p)"
        using s1 by (auto split: if_splits list.splits)
      then have neq: "(src, cur_name p) \<noteq> (s, m_name m)" using mail by auto
      have "q2 = p\<lparr>p_mail := (p_mail p)((s, m_name m) := [m_data m])\<rparr>" using mail by simp
      then have "local_step fo (Thr i k) ms q2 = Some (set_thread k (T_add b)
          (q2\<lparr>p_mail := (p_mail q2)((src, cur_name p) := bs)\<rparr>), [])"
        using r neq inv local_recv [of q2 k src b bs fo i ms] by (auto simp: coll_simps simp del: local_step.simps)
      moreover have "local_step fo (Hand s i) ms' q1 = Some (q1\<lparr>p_mail := (p_mail q1)((s, m_name m) := [m_data m])\<rparr>, [])"
        using mail r neq inv by (auto simp: local_hand_mail coll_simps simp del: local_step.simps)
      ultimately show ?thesis
        using r mail by (simp add: coll_simps set_thread_mail fun_upd_twist [OF neq] del: local_step.simps)
    qed
  qed
qed

lemma join_hand:
  assumes "proc_inv p"
    and s1: "local_step fo (Join i) ms p = Some (q1, o1)" and s2: "local_step fo (Hand s i) ms' p = Some (q2, o2)"
  shows "\<exists>q. local_step fo (Join i) ms q2 = Some (q, o1) \<and> local_step fo (Hand s i) ms' q1 = Some (q, o2)"
proof -
  have inv: "p_fault q1 = None" using local_step_inv [OF assms(1) s1] by (auto simp: proc_inv_def)
  from assms(1) s2 show ?thesis
  proof (cases rule: hand_cases)
    case (slot ids)
    with s1 show ?thesis by (auto split: if_splits)
  next
    case (mail m ms'')
    then have q2: "q2 = p\<lparr>p_mail := (p_mail p)((s, m_name m) := [m_data m])\<rparr>" by simp
    have "p_mail q1 = p_mail p" using join_mail [OF s1] by blast
    with mail inv have "local_step fo (Hand s i) ms' q1 = Some (q1\<lparr>p_mail := (p_mail p)((s, m_name m) := [m_data m])\<rparr>, [])"
      by (simp add: local_hand_mail del: local_step.simps)
    then show ?thesis using join_mail [OF s1, of "(p_mail p)((s, m_name m) := [m_data m])"] q2 mail(4)
      by (simp del: local_step.simps)
  qed
qed

lemma hand_hand:
  assumes "proc_inv p" and "s \<noteq> s'"
    and s1: "local_step fo (Hand s i) ms p = Some (q1, o1)" and s2: "local_step fo (Hand s' i) ms' p = Some (q2, o2)"
  shows "\<exists>q. local_step fo (Hand s i) ms q2 = Some (q, o1) \<and> local_step fo (Hand s' i) ms' q1 = Some (q, o2)"
proof -
  note hd = handle_def Let_def
  from assms(1) s1 show ?thesis
  proof (cases rule: hand_cases)
    case (mail m ms1)
    note 1 = mail
    from assms(1) s2 show ?thesis
    proof (cases rule: hand_cases)
      case (mail m' ms1')
      with 1 assms(1,2) show ?thesis by (auto simp: hd proc_inv_def fun_upd_twist)
    next
      case (slot ids)
      with 1 s2 show ?thesis by (auto simp: hd split: if_splits list.splits)
    qed
  next
    case (slot ids)
    note 1 = slot
    from assms(1) s2 show ?thesis
    proof (cases rule: hand_cases)
      case (mail m' ms1')
      with 1 s1 show ?thesis by (auto simp: hd split: if_splits list.splits)
    next
      case (slot ids)
      with 1 assms(2) show ?thesis by auto
    qed
  qed
qed

lemma thr_join: "local_step fo (Thr i k) ms p = Some e \<Longrightarrow> local_step fo (Join i) ms' p = None"
proof -
  assume s: "local_step fo (Thr i k) ms p = Some e"
  then have "k < length (p_threads p)" by (auto split: if_splits)
  moreover have "\<not> finished (p_threads p ! k)"
  proof
    assume "finished (p_threads p ! k)"
    with s show False by (cases "p_threads p ! k") (auto split: if_splits)
  qed
  ultimately show ?thesis by (auto simp: list_all_length)
qed

text \<open>Two different steps of one process commute.\<close>

lemma local_diamond:
  assumes "proc_inv p" and "l \<noteq> l'" and "owner l = owner l'"
    and "local_step fo l ms p = Some (q1, o1)" and "local_step fo l' ms' p = Some (q2, o2)"
  shows "\<exists>q. local_step fo l ms q2 = Some (q, o1) \<and> local_step fo l' ms' q1 = Some (q, o2) \<and>
    (\<forall>x\<in>set o1. \<forall>y\<in>set o2. fst x \<noteq> fst y)"
proof -
  have no_out: "out = []" if "local_step fo (Hand s i) ms p = Some (q, out)" for s i ms p q out
    using that by (auto split: if_splits list.splits)
  have jn: "l = Thr i k \<Longrightarrow> l' \<noteq> Join i'" "l' = Thr i k \<Longrightarrow> l \<noteq> Join i'" for i k i'
    using thr_join assms(3-5) by (metis option.distinct(1) owner.simps(1,2))+
  show ?thesis
  proof (cases l; cases l')
    fix i k i' k' assume "l = Thr i k" "l' = Thr i' k'"
    with assms thr_thr [of p k k' fo i ms q1 o1 ms' q2 o2] show ?thesis by (simp del: local_step.simps)
  next
    fix i k s d assume "l = Thr i k" "l' = Hand s d"
    with assms thr_hand [of p fo i k ms q1 o1 s ms' q2 o2] no_out [of s d ms' p q2 o2] show ?thesis
      by (auto simp del: local_step.simps)
  next
    fix i k s d assume "l = Hand s d" "l' = Thr i k"
    with assms thr_hand [of p fo i k ms' q2 o2 s ms q1 o1] no_out [of s d ms p q1 o1] show ?thesis
      by (auto simp del: local_step.simps)
  next
    fix i s d assume "l = Join i" "l' = Hand s d"
    with assms join_hand [of p fo i ms q1 o1 s ms' q2 o2] no_out [of s d ms' p q2 o2] show ?thesis
      by (auto simp del: local_step.simps)
  next
    fix i s d assume "l = Hand s d" "l' = Join i"
    with assms join_hand [of p fo i ms' q2 o2 s ms q1 o1] no_out [of s d ms p q1 o1] show ?thesis
      by (auto simp del: local_step.simps)
  next
    fix s d s' d' assume "l = Hand s d" "l' = Hand s' d'"
    with assms hand_hand [of p s s' fo d ms q1 o1 ms' q2 o2] no_out [of s d ms p q1 o1] show ?thesis
      by (auto simp del: local_step.simps)
  qed (use assms(2,3) jn in auto)
qed

lemma out_short: "local_step fo l ms p = Some (q, out) \<Longrightarrow> out = [] \<or> (\<exists>d m. out = [(d, m)] \<and> (\<exists>i k. l = Thr i k))"
  by (cases l) (auto split: if_splits list.splits thread.splits sum.splits)

lemma hand_nonempty: "local_step fo (Hand s d) (input (Hand s d) c) p = Some e \<Longrightarrow> wire c s d \<noteq> []"
  by (auto split: if_splits list.splits)

lemma take_1_append: "xs \<noteq> [] \<Longrightarrow> take 1 (xs @ ys) = take 1 xs"
  by (cases xs) simp_all

lemma input_apply:
  assumes "l \<noteq> l'" and "local_step fo l (input l c) p = Some e"
    and "local_step fo l' (input l' c) p' = Some (q', out')"
  shows "input l (apply_effect l' (q', out') c) = input l c"
proof (cases l)
  case (Hand s d)
  then have ne: "wire c s d \<noteq> []" using assms(2) hand_nonempty by metis
  from out_short [OF assms(3)] show ?thesis
  proof
    assume "out' = []"
    with Hand assms(1) show ?thesis by (cases l') (auto simp: apply_effect_def)
  next
    assume "\<exists>d m. out' = [(d, m)] \<and> (\<exists>i k. l' = Thr i k)"
    with Hand ne show ?thesis by (auto simp: apply_effect_def take_1_append Suc_le_eq)
  qed
qed simp_all

lemma wires_commute:
  assumes "l \<noteq> l'" and "local_step fo l (input l c) p = Some (q1, o1)"
    and "local_step fo l' (input l' c) p' = Some (q2, o2)"
    and "owner l = owner l' \<Longrightarrow> \<forall>x\<in>set o1. \<forall>y\<in>set o2. fst x \<noteq> fst y"
  shows "put_out (owner l) o1 (take_in l (put_out (owner l') o2 (take_in l' (wire c)))) =
    put_out (owner l') o2 (take_in l' (put_out (owner l) o1 (take_in l (wire c))))"
proof -
  have h: "wire c s d \<noteq> []" if "l = Hand s d \<or> l' = Hand s d" for s d
    using that assms(2,3) hand_nonempty by metis
  from out_short [OF assms(2)] out_short [OF assms(3)] show ?thesis
  proof (elim disjE exE conjE)
    assume "o1 = []" "o2 = []"
    with assms(1) show ?thesis by (cases l; cases l') (auto simp: fun_eq_iff)
  next
    fix d m i k assume "o1 = []" "o2 = [(d, m)]" "l' = Thr i k"
    with h show ?thesis by (cases l) (auto simp: fun_eq_iff)
  next
    fix d m i k assume "o2 = []" "o1 = [(d, m)]" "l = Thr i k"
    with h show ?thesis by (cases l') (auto simp: fun_eq_iff)
  next
    fix d m i k d' m' i' k' assume "o1 = [(d, m)]" "l = Thr i k" "o2 = [(d', m')]" "l' = Thr i' k'"
    with assms(4) show ?thesis by (cases "i = i'") (auto simp: fun_eq_iff)
  qed
qed

lemma exec_inv: "cluster_inv c \<Longrightarrow> exec fo l c = Some c' \<Longrightarrow> cluster_inv c'"
proof -
  assume inv: "cluster_inv c" and "exec fo l c = Some c'"
  then obtain q out where "local_step fo l (input l c) (procs c (owner l)) = Some (q, out)"
    "c' = apply_effect l (q, out) c" by (auto simp: exec_local simp del: local_step.simps)
  moreover from this inv have "proc_inv q" unfolding cluster_inv_def by (metis local_step_inv)
  ultimately show ?thesis using inv by (auto simp: cluster_inv_def apply_effect_def)
qed

lemma procs_apply [simp]: "procs (apply_effect l e c) = (procs c)(owner l := fst e)"
  by (simp add: apply_effect_def)

lemma exec_diamond:
  assumes "cluster_inv c" and "l \<noteq> l'" and "exec fo l c = Some c1" and "exec fo l' c = Some c2"
  shows "\<exists>t. exec fo l' c1 = Some t \<and> exec fo l c2 = Some t"
proof -
  let ?p = "procs c (owner l)" and ?p' = "procs c (owner l')"
  obtain q1 o1 where 1: "local_step fo l (input l c) ?p = Some (q1, o1)" "c1 = apply_effect l (q1, o1) c"
    using assms(3) by (auto simp: exec_local simp del: local_step.simps)
  obtain q2 o2 where 2: "local_step fo l' (input l' c) ?p' = Some (q2, o2)" "c2 = apply_effect l' (q2, o2) c"
    using assms(4) by (auto simp: exec_local simp del: local_step.simps)
  have in1: "input l c2 = input l c" and in2: "input l' c1 = input l' c"
    using input_apply [OF assms(2) 1(1) 2(1)] input_apply [OF assms(2) [symmetric] 2(1) 1(1)] 1 2 by simp_all
  have inv: "proc_inv ?p" using assms(1) by (simp add: cluster_inv_def)
  have "\<exists>r r'. local_step fo l (input l c) (procs c2 (owner l)) = Some (r, o1) \<and>
      local_step fo l' (input l' c) (procs c1 (owner l')) = Some (r', o2) \<and>
      (owner l = owner l' \<longrightarrow> r = r' \<and> (\<forall>x\<in>set o1. \<forall>y\<in>set o2. fst x \<noteq> fst y)) \<and>
      (owner l \<noteq> owner l' \<longrightarrow> r = q1 \<and> r' = q2)"
  proof (cases "owner l = owner l'")
    case True
    with local_diamond [OF inv assms(2) True 1(1)] 1 2 show ?thesis
      by (simp del: local_step.simps)
  next
    case False
    with 1 2 show ?thesis by (simp del: local_step.simps)
  qed
  then obtain r r' where r: "local_step fo l (input l c2) (procs c2 (owner l)) = Some (r, o1)"
      "local_step fo l' (input l' c1) (procs c1 (owner l')) = Some (r', o2)"
    and same: "owner l = owner l' \<Longrightarrow> r = r' \<and> (\<forall>x\<in>set o1. \<forall>y\<in>set o2. fst x \<noteq> fst y)"
    and diff: "owner l \<noteq> owner l' \<Longrightarrow> r = q1 \<and> r' = q2"
    using in1 in2 by auto
  have "apply_effect l (r, o1) c2 = apply_effect l' (r', o2) c1"
    using wires_commute [OF assms(2) 1(1) 2(1)] same diff 1(2) 2(2)
    by (cases "owner l = owner l'") (auto simp: apply_effect_def fun_upd_twist)
  with r show ?thesis by (auto simp: exec_local simp del: local_step.simps)
qed

text \<open>The cluster is a system of commuting steps.\<close>

interpretation cl: diamond_system "exec fo" cluster_inv for fo
  by unfold_locales (auto intro: exec_inv exec_diamond)

end
