(* ===== verification/Runs.thy ===== *)
theory Runs
  imports Confluence
begin

text \<open>
  Executions of whole sections. \<open>cfg\<close> is the state of a cluster between sections: the memory,
  workspace state and remaining program of each process and the messages under way. \<open>leads\<close> says
  that from every cluster in one condition some schedule reaches another; the lemmas give, for
  each kind of section, the configuration after a process has run it, and, in the second part,
  for the part of a process in a reduce graph or in a broadcast graph. \<open>run_each\<close> and \<open>run_upto\<close>
  iterate them over the processes.
\<close>

section \<open>Configurations\<close>

record cfg =
  c_mem :: "nat \<Rightarrow> mem"
  c_st :: "nat \<Rightarrow> workspace_state"
  c_rest :: "nat \<Rightarrow> instr list"
  c_wire :: "nat \<Rightarrow> nat \<Rightarrow> msg list"

definition clean :: "proc \<Rightarrow> bool" where
  "clean p \<longleftrightarrow> p_mail p = (\<lambda>_. []) \<and> no_token p \<and> p_fault p = None"

text \<open>\<open>at_with i ths A c\<close>: process \<open>i\<close> runs the threads \<open>ths\<close>, the others are between sections.\<close>

definition at_with :: "nat \<Rightarrow> thread list \<Rightarrow> cfg \<Rightarrow> cluster \<Rightarrow> bool" where
  "at_with i ths A c \<longleftrightarrow> wire c = c_wire A \<and> p_threads (procs c i) = ths \<and>
     (\<forall>j. p_mem (procs c j) = c_mem A j \<and> p_st (procs c j) = c_st A j \<and> p_rest (procs c j) = c_rest A j \<and>
          clean (procs c j) \<and> (j \<noteq> i \<longrightarrow> list_all finished (p_threads (procs c j))))"

definition at_rest :: "cfg \<Rightarrow> cluster \<Rightarrow> bool" where
  "at_rest A c \<longleftrightarrow> wire c = c_wire A \<and>
     (\<forall>j. p_mem (procs c j) = c_mem A j \<and> p_st (procs c j) = c_st A j \<and> p_rest (procs c j) = c_rest A j \<and>
          clean (procs c j) \<and> list_all finished (p_threads (procs c j)))"

definition leads :: "float_ops \<Rightarrow> (cluster \<Rightarrow> bool) \<Rightarrow> (cluster \<Rightarrow> bool) \<Rightarrow> bool" where
  "leads fo P Q \<longleftrightarrow> (\<forall>c. P c \<longrightarrow> (\<exists>ls c'. run_labels (exec fo) ls c = Some c' \<and> Q c'))"

lemma leads_refl: "leads fo P P"
  unfolding leads_def by (metis run_labels.simps(1))

lemma leads_trans [trans]: "leads fo P Q \<Longrightarrow> leads fo Q R \<Longrightarrow> leads fo P R"
  unfolding leads_def by (meson run_labels_trans)

lemma leads_step: "(\<And>c. P c \<Longrightarrow> \<exists>c'. exec fo l c = Some c' \<and> Q c') \<Longrightarrow> leads fo P Q"
  unfolding leads_def
proof (intro allI impI)
  fix c
  assume "\<And>c. P c \<Longrightarrow> \<exists>c'. exec fo l c = Some c' \<and> Q c'" "P c"
  then obtain c' where "exec fo l c = Some c'" "Q c'" by blast
  then have "run_labels (exec fo) [l] c = Some c' \<and> Q c'" by simp
  then show "\<exists>ls c'. run_labels (exec fo) ls c = Some c' \<and> Q c'" by blast
qed

lemma at_rest_with: "at_rest A c \<Longrightarrow> at_with i (p_threads (procs c i)) A c"
  by (simp add: at_rest_def at_with_def)

lemma at_with_rest: "at_with i ths A c \<Longrightarrow> list_all finished ths \<Longrightarrow> at_rest A c"
  unfolding at_rest_def at_with_def by metis

lemma leads_weaken: "leads fo P Q \<Longrightarrow> (\<And>c. Q c \<Longrightarrow> R c) \<Longrightarrow> leads fo P R"
  unfolding leads_def by meson

section \<open>Sections\<close>

definition set_rest :: "nat \<Rightarrow> instr list \<Rightarrow> cfg \<Rightarrow> cfg" where
  "set_rest i r A = A\<lparr>c_rest := (c_rest A)(i := r)\<rparr>"

definition set_data :: "nat \<Rightarrow> workspace_state \<times> mem \<Rightarrow> cfg \<Rightarrow> cfg" where
  "set_data i d A = A\<lparr>c_st := (c_st A)(i := fst d), c_mem := (c_mem A)(i := snd d)\<rparr>"

definition pop_wire :: "nat \<Rightarrow> nat \<Rightarrow> cfg \<Rightarrow> cfg" where
  "pop_wire s d A = A\<lparr>c_wire := (c_wire A)(s := (c_wire A s)(d := tl (c_wire A s d)))\<rparr>"

definition push_wire :: "nat \<Rightarrow> nat \<Rightarrow> msg \<Rightarrow> cfg \<Rightarrow> cfg" where
  "push_wire s d m A = A\<lparr>c_wire := (c_wire A)(s := (c_wire A s)(d := c_wire A s d @ [m]))\<rparr>"

lemmas cfg_ops = set_rest_def set_data_def pop_wire_def push_wire_def
lemma upd_replicate [simp]: "(replicate k x @ y # ys)[k := z] = replicate k x @ z # ys"
  by (simp add: list_update_append)

lemma const_upd [simp]: "(\<lambda>_. y)(x := y) = (\<lambda>_. y)"
  by auto

lemmas cluster_ops = set_proc_def enqueue_def dequeue_def

text \<open>Entering a section that starts threads.\<close>

lemma leads_enter:
  assumes "c_rest A i = ins # R"
    and "\<And>p. p_st p = c_st A i \<Longrightarrow> p_mem p = c_mem A i \<Longrightarrow>
      start ins p = p\<lparr>p_st := fst d, p_mem := snd d, p_threads := ths\<rparr>"
  shows "leads fo (at_rest A) (at_with i ths (set_rest i R (set_data i d A)))"
proof (rule leads_step [where l = "Join i"])
  fix c
  assume c: "at_rest A c"
  let ?p = "(procs c i)\<lparr>p_rest := R\<rparr>"
  have "exec fo (Join i) c = Some (set_proc i (start ins ?p) c)"
    using c assms(1) by (simp add: at_rest_def clean_def Let_def)
  moreover have "start ins ?p = ?p\<lparr>p_st := fst d, p_mem := snd d, p_threads := ths\<rparr>"
    using c by (intro assms(2)) (simp_all add: at_rest_def)
  ultimately show "\<exists>c'. exec fo (Join i) c = Some c' \<and> at_with i ths (set_rest i R (set_data i d A)) c'"
    using c by (auto simp: at_rest_def at_with_def cluster_ops cfg_ops clean_def no_token_def)
qed

lemma leads_New_state:
  assumes "c_rest A i = New_state w # R"
  shows "leads fo (at_rest A) (at_rest (set_rest i R (set_data i (new_state w, c_mem A i) A)))"
  by (rule leads_weaken [OF leads_enter [OF assms, where ths = "[]" and d = "(new_state w, c_mem A i)"]])
    (auto simp: start_def dest: at_with_rest)

text \<open>Receiving into the accumulator.\<close>

definition accum :: "float_ops \<Rightarrow> byte list \<Rightarrow> workspace_state \<times> mem \<Rightarrow> workspace_state \<times> mem" where
  "accum fo b d = (let st = fst d; m = snd d; w = st_w st; n = w_count w in
     (st\<lparr>recv_count := recv_count st + 1\<rparr>,
      write_mem m (w_recv w) (combine fo n (w_dt w) (w_op w) b (read_mem m (effective_data st) (n * elem_size (w_dt w))))))"

lemma added_accum: "added fo b p = p\<lparr>p_st := fst (accum fo b (p_st p, p_mem p)), p_mem := snd (accum fo b (p_st p, p_mem p))\<rparr>"
  by (simp add: added_def accum_def Let_def)

definition get_data :: "nat \<Rightarrow> cfg \<Rightarrow> workspace_state \<times> mem" where
  "get_data i A = (c_st A i, c_mem A i)"

lemma leads_recv_one:
  assumes "wf_ws (st_w (c_st A i))" and "c_wire A s i = \<lparr>m_name = w_name (st_w (c_st A i)), m_wait_recv_buf = False, m_data = b\<rparr> # ms"
  shows "leads fo (at_with i (replicate k T_done @ T_recv s # ths) A)
    (at_with i (replicate (Suc k) T_done @ ths) (pop_wire s i (set_data i (accum fo b (get_data i A)) A)))"
proof -
  let ?key = "(s, w_name (st_w (c_st A i)))"
  let ?ths = "\<lambda>t. replicate k T_done @ t # ths"
  have "\<exists>c'. run_labels (exec fo) [Hand s i, Thr i k, Thr i k] c = Some c' \<and>
      at_with i (?ths T_done) (pop_wire s i (set_data i (accum fo b (get_data i A)) A)) c'"
    if c: "at_with i (?ths (T_recv s)) A c" for c
  proof -
    let ?p = "procs c i"
    let ?p1 = "?p\<lparr>p_mail := (\<lambda>_. [])(?key := [b])\<rparr>"
    let ?c1 = "dequeue s i (set_proc i ?p1 c)"
    have 1: "exec fo (Hand s i) c = Some ?c1"
      using c assms(2) by (simp add: at_with_def clean_def Let_def handle_def)
    let ?p2 = "set_thread k (T_add b) (?p\<lparr>p_mail := (\<lambda>_. [])\<rparr>)"
    let ?c2 = "set_proc i ?p2 ?c1"
    have 2: "exec fo (Thr i k) ?c1 = Some ?c2"
      using c by (simp add: at_with_def clean_def Let_def cluster_ops cur_name_def nth_append)
    let ?c3 = "set_proc i (set_thread k T_done (added fo b ?p2)) ?c2"
    have 3: "exec fo (Thr i k) ?c2 = Some ?c3"
      using c assms(1) by (simp add: at_with_def clean_def Let_def cluster_ops coll_simps nth_append thread_step_add del: thread_step.simps)
    have "at_with i (?ths T_done) (pop_wire s i (set_data i (accum fo b (get_data i A)) A)) ?c3"
      using c by (auto simp: at_with_def cluster_ops cfg_ops get_data_def clean_def no_token_def added_accum coll_simps)
    with 1 2 3 show ?thesis by (simp del: exec.simps)
  qed
  then have "leads fo (at_with i (?ths (T_recv s)) A)
      (at_with i (?ths T_done) (pop_wire s i (set_data i (accum fo b (get_data i A)) A)))"
    unfolding leads_def by metis
  then show ?thesis by (simp add: replicate_app_Cons_same)
qed

fun recv_all :: "float_ops \<Rightarrow> nat \<Rightarrow> (nat \<Rightarrow> byte list) \<Rightarrow> nat list \<Rightarrow> cfg \<Rightarrow> cfg" where
  "recv_all fo i b [] A = A"
| "recv_all fo i b (s # ids) A = recv_all fo i b ids (pop_wire s i (set_data i (accum fo (b s) (get_data i A)) A))"

definition reduce_msg :: "workspace \<Rightarrow> byte list \<Rightarrow> msg" where
  "reduce_msg w b = \<lparr>m_name = w_name w, m_wait_recv_buf = False, m_data = b\<rparr>"

definition slot_msg :: "workspace \<Rightarrow> byte list \<Rightarrow> msg" where
  "slot_msg w b = \<lparr>m_name = w_name w, m_wait_recv_buf = True, m_data = b\<rparr>"

lemma st_w_accum [simp]: "st_w (fst (accum fo b d)) = st_w (fst d)"
  by (simp add: accum_def Let_def)

lemma leads_recv_threads:
  assumes "wf_ws (st_w (c_st A i))" and "distinct ids"
    and "\<And>s. s \<in> set ids \<Longrightarrow> \<exists>ms. c_wire A s i = reduce_msg (st_w (c_st A i)) (b s) # ms"
  shows "leads fo (at_with i (replicate k T_done @ map T_recv ids) A)
    (at_with i (replicate (k + length ids) T_done) (recv_all fo i b ids A))"
  using assms
proof (induction ids arbitrary: k A)
  case Nil
  show ?case by (simp add: leads_refl)
next
  case (Cons s ids)
  let ?A = "pop_wire s i (set_data i (accum fo (b s) (get_data i A)) A)"
  obtain ms where "c_wire A s i = reduce_msg (st_w (c_st A i)) (b s) # ms" using Cons.prems(3) by force
  then have "leads fo (at_with i (replicate k T_done @ T_recv s # map T_recv ids) A)
      (at_with i (replicate (Suc k) T_done @ map T_recv ids) ?A)"
    using leads_recv_one [OF Cons.prems(1)] by (simp add: reduce_msg_def)
  also have "leads fo \<dots> (at_with i (replicate (Suc k + length ids) T_done) (recv_all fo i b ids ?A))"
  proof (rule Cons.IH)
    have st: "st_w (c_st ?A i) = st_w (c_st A i)" by (simp add: cfg_ops get_data_def)
    then show "wf_ws (st_w (c_st ?A i))" using Cons.prems(1) by simp
    show "distinct ids" using Cons.prems(2) by simp
    show "\<exists>ms. c_wire ?A s' i = reduce_msg (st_w (c_st ?A i)) (b s') # ms" if "s' \<in> set ids" for s'
      unfolding st using that Cons.prems(2,3) by (auto simp: cfg_ops)
  qed
  finally show ?case by simp
qed

lemma list_all_replicate [simp]: "list_all finished (replicate k T_done)"
  by (simp add: list_all_length)

lemma get_data_sel [simp]: "fst (get_data i A) = c_st A i" "snd (get_data i A) = c_mem A i"
  by (simp_all add: get_data_def)

lemma set_data_get [simp]: "set_data i (c_st A i, c_mem A i) A = A" "set_data i (get_data i A) A = A"
  by (simp_all add: set_data_def get_data_def)

lemma leads_Par_recv:
  assumes "c_rest A i = Par_recv ids # R" and "wf_ws (st_w (c_st A i))" and "distinct ids"
    and "\<And>s. s \<in> set ids \<Longrightarrow> \<exists>ms. c_wire A s i = reduce_msg (st_w (c_st A i)) (b s) # ms"
  shows "leads fo (at_rest A) (at_rest (recv_all fo i b ids (set_rest i R A)))"
proof -
  have "leads fo (at_rest A) (at_with i (replicate 0 T_done @ map T_recv ids) (set_rest i R A))"
    using leads_enter [OF assms(1), where d = "(c_st A i, c_mem A i)" and ths = "map T_recv ids"] by (simp add: start_def)
  also have "leads fo \<dots> (at_with i (replicate (0 + length ids) T_done) (recv_all fo i b ids (set_rest i R A)))"
    using assms(2-4) by (intro leads_recv_threads) (auto simp: cfg_ops)
  finally show ?thesis by (rule leads_weaken) (auto dest: at_with_rest)
qed

text \<open>Sending.\<close>

definition eff_bytes :: "workspace_state \<times> mem \<Rightarrow> byte list" where
  "eff_bytes d = read_mem (snd d) (effective_data (fst d)) (w_count (st_w (fst d)) * elem_size (w_dt (st_w (fst d))))"

definition out_msg :: "bool \<Rightarrow> workspace_state \<times> mem \<Rightarrow> msg" where
  "out_msg red d = (if red then reduce_msg else slot_msg) (st_w (fst d)) (eff_bytes d)"

fun send_all :: "bool \<Rightarrow> nat \<Rightarrow> nat list \<Rightarrow> cfg \<Rightarrow> cfg" where
  "send_all red i [] A = A"
| "send_all red i (d # ids) A = send_all red i ids (push_wire i d (out_msg red (get_data i A)) A)"

lemma leads_send_one:
  assumes "wf_ws (st_w (c_st A i))"
  shows "leads fo (at_with i (replicate k T_done @ T_send red d # ths) A)
    (at_with i (replicate (Suc k) T_done @ ths) (push_wire i d (out_msg red (get_data i A)) A))"
proof -
  let ?ths = "\<lambda>t. replicate k T_done @ t # ths"
  have "leads fo (at_with i (?ths (T_send red d)) A) (at_with i (?ths T_done) (push_wire i d (out_msg red (get_data i A)) A))"
  proof (rule leads_step [where l = "Thr i k"])
    fix c
    assume c: "at_with i (?ths (T_send red d)) A c"
    have m: "send_msg red (procs c i) = Inr (out_msg red (get_data i A))"
      using c assms by (simp add: at_with_def send_msg_wf out_msg_def eff_bytes_def get_data_def cur_name_def
          reduce_msg_def slot_msg_def)
    show "\<exists>c'. exec fo (Thr i k) c = Some c' \<and> at_with i (?ths T_done) (push_wire i d (out_msg red (get_data i A)) A) c'"
      using c m by (auto simp: at_with_def clean_def no_token_def Let_def nth_append cluster_ops cfg_ops coll_simps)
  qed
  then show ?thesis by (simp add: replicate_app_Cons_same)
qed

lemma leads_send_threads:
  assumes "wf_ws (st_w (c_st A i))"
  shows "leads fo (at_with i (replicate k T_done @ map (T_send red) ids) A)
    (at_with i (replicate (k + length ids) T_done) (send_all red i ids A))"
  using assms
proof (induction ids arbitrary: k A)
  case Nil
  show ?case by (simp add: leads_refl)
next
  case (Cons d ids)
  let ?A = "push_wire i d (out_msg red (get_data i A)) A"
  have "leads fo (at_with i (replicate k T_done @ T_send red d # map (T_send red) ids) A)
      (at_with i (replicate (Suc k) T_done @ map (T_send red) ids) ?A)"
    using leads_send_one [OF Cons.prems] by simp
  also have "leads fo \<dots> (at_with i (replicate (Suc k + length ids) T_done) (send_all red i ids ?A))"
    using Cons.prems by (intro Cons.IH) (simp add: cfg_ops)
  finally show ?case by simp
qed

lemma leads_Par_send:
  assumes "c_rest A i = Par_send red ids # R" and "wf_ws (st_w (c_st A i))"
  shows "leads fo (at_rest A) (at_rest (send_all red i ids (set_rest i R A)))"
proof -
  have "leads fo (at_rest A) (at_with i (replicate 0 T_done @ map (T_send red) ids) (set_rest i R A))"
    using leads_enter [OF assms(1), where d = "(c_st A i, c_mem A i)" and ths = "map (T_send red) ids"] by (simp add: start_def)
  also have "leads fo \<dots> (at_with i (replicate (0 + length ids) T_done) (send_all red i ids (set_rest i R A)))"
    using assms(2) by (intro leads_send_threads) (simp add: cfg_ops)
  finally show ?thesis by (rule leads_weaken) (auto dest: at_with_rest)
qed

text \<open>Receiving into the buffer: from nobody, or from one process.\<close>

definition forwarded :: "workspace_state \<times> mem \<Rightarrow> workspace_state \<times> mem" where
  "forwarded d = (let w = st_w (fst d) in
     (fst d, write_mem (snd d) (w_recv w) (read_mem (snd d) (w_send w) (w_count w * elem_size (w_dt w)))))"

lemma forward_eq: "wf_ws w \<Longrightarrow> forward w m = Inr (write_mem m (w_recv w) (read_mem m (w_send w) (w_count w * elem_size (w_dt w))))"
  by (auto simp: forward_def data_size_wf wf_ws_def)

lemma leads_forward:
  assumes "c_rest A i = Recv_into [] # R" and "wf_ws (st_w (c_st A i))" and "recv_count (c_st A i) = 0"
  shows "leads fo (at_rest A) (at_rest (set_rest i R (set_data i (forwarded (get_data i A)) A)))"
  by (rule leads_weaken [OF leads_enter [OF assms(1), where ths = "[]" and d = "forwarded (get_data i A)"]])
    (auto simp: start_def assms forward_eq forwarded_def get_data_def Let_def dest: at_with_rest)

lemma leads_no_forward:
  assumes "c_rest A i = Recv_into [] # R" and "recv_count (c_st A i) \<noteq> 0"
  shows "leads fo (at_rest A) (at_rest (set_rest i R A))"
  by (rule leads_weaken [OF leads_enter [OF assms(1), where ths = "[T_into []]" and d = "get_data i A"]])
    (use assms in \<open>auto simp: start_def dest: at_with_rest\<close>)

definition stored :: "byte list \<Rightarrow> workspace_state \<times> mem \<Rightarrow> workspace_state \<times> mem" where
  "stored b d = (fst d, write_mem (snd d) (w_recv (st_w (fst d))) b)"

lemma leads_into_one:
  assumes "c_wire A s i = slot_msg (st_w (c_st A i)) b # ms"
  shows "leads fo (at_with i [T_into [s]] A) (at_with i [T_into []] (pop_wire s i (set_data i (stored b (get_data i A)) A)))"
proof -
  let ?w = "st_w (c_st A i)"
  let ?B = "pop_wire s i (set_data i (stored b (get_data i A)) A)"
  let ?key = "(s, w_name ?w)"
  let ?q = "(\<lambda>_. [])(?key := [w_recv ?w])"
  have "\<exists>c'. run_labels (exec fo) [Thr i 0, Hand s i, Thr i 0] c = Some c' \<and> at_with i [T_into []] ?B c'"
    if c: "at_with i [T_into [s]] A c" for c
  proof -
    let ?p1 = "set_thread 0 (T_await s []) ((procs c i)\<lparr>p_waitq := ?q\<rparr>)"
    let ?c1 = "set_proc i ?p1 c"
    have 1: "exec fo (Thr i 0) c = Some ?c1"
      using c by (simp add: at_with_def clean_def no_token_def Let_def cur_name_def)
    let ?p2 = "(set_thread 0 (T_await s []) (procs c i))
      \<lparr>p_waitq := (\<lambda>_. []), p_mem := write_mem (c_mem A i) (w_recv ?w) b, p_recvq := ?q\<rparr>"
    let ?c2 = "dequeue s i (set_proc i ?p2 c)"
    have 2: "exec fo (Hand s i) ?c1 = Some ?c2"
      using c assms by (simp add: at_with_def clean_def no_token_def Let_def cluster_ops handle_def slot_msg_def
          set_thread_def)
    let ?p3 = "set_thread 0 (T_into []) (?p2\<lparr>p_recvq := (\<lambda>_. [])\<rparr>)"
    let ?c3 = "dequeue s i (set_proc i ?p3 c)"
    have 3: "exec fo (Thr i 0) ?c2 = Some ?c3"
      using c by (simp add: at_with_def clean_def no_token_def Let_def cluster_ops cur_name_def coll_simps)
    have "at_with i [T_into []] ?B ?c3"
      using c by (auto simp: at_with_def cluster_ops cfg_ops clean_def no_token_def coll_simps stored_def)
    with 1 2 3 show ?thesis by (simp del: exec.simps)
  qed
  then show ?thesis unfolding leads_def by metis
qed

lemma leads_Recv_into:
  assumes "c_rest A i = Recv_into [s] # R" and "c_wire A s i = slot_msg (st_w (c_st A i)) b # ms"
  shows "leads fo (at_rest A) (at_rest (pop_wire s i (set_data i (stored b (get_data i A)) (set_rest i R A))))"
proof -
  have "leads fo (at_rest A) (at_with i [T_into [s]] (set_rest i R A))"
    using leads_enter [OF assms(1), where d = "(c_st A i, c_mem A i)" and ths = "[T_into [s]]"] by (simp add: start_def)
  also have "leads fo \<dots> (at_with i [T_into []] (pop_wire s i (set_data i (stored b (get_data i (set_rest i R A))) (set_rest i R A))))"
    using assms(2) by (intro leads_into_one) (auto simp: cfg_ops)
  finally show ?thesis by (rule leads_weaken) (auto dest: at_with_rest simp: set_rest_def get_data_def)
qed

section \<open>From one run to all runs\<close>

lemma at_rest_halted:
  assumes "at_rest A c" and "\<And>i. c_rest A i = []" and "\<And>i j. c_wire A i j = []"
  shows "halted (exec fo) c"
  unfolding halted_def
proof
  fix l
  show "exec fo l c = None"
  proof (cases l)
    case (Thr i k)
    have "finished (p_threads (procs c i) ! k)" if "k < length (p_threads (procs c i))"
      using assms(1) that by (simp add: at_rest_def list_all_length)
    with Thr show ?thesis by (cases "p_threads (procs c i) ! k") (auto simp: Let_def)
  next
    case (Join i)
    with assms show ?thesis by (auto simp: at_rest_def Let_def)
  next
    case (Hand s d)
    with assms show ?thesis by (auto simp: at_rest_def Let_def)
  qed
qed

section \<open>The part of a process in a graph\<close>

type_synonym data = "workspace_state \<times> mem"
type_synonym wires = "nat \<Rightarrow> nat \<Rightarrow> msg list"

definition conf :: "(nat \<Rightarrow> data) \<Rightarrow> (nat \<Rightarrow> instr list) \<Rightarrow> wires \<Rightarrow> cfg" where
  "conf D R W = \<lparr>c_mem = (\<lambda>i. snd (D i)), c_st = (\<lambda>i. fst (D i)), c_rest = R, c_wire = W\<rparr>"

definition pop_all :: "nat \<Rightarrow> nat list \<Rightarrow> wires \<Rightarrow> wires" where
  "pop_all i ids W = (\<lambda>s d. if d = i \<and> s \<in> set ids then tl (W s d) else W s d)"

definition push_all :: "nat \<Rightarrow> nat list \<Rightarrow> msg \<Rightarrow> wires \<Rightarrow> wires" where
  "push_all i ids m W = (\<lambda>s d. if s = i \<and> d \<in> set ids then W s d @ [m] else W s d)"

lemma conf_sel [simp]: "c_rest (conf D R W) = R" "c_wire (conf D R W) = W"
  "c_st (conf D R W) i = fst (D i)" "c_mem (conf D R W) i = snd (D i)" "get_data i (conf D R W) = D i"
  by (simp_all add: conf_def get_data_def)

lemma conf_upd [simp]: "set_rest i r (conf D R W) = conf D (R(i := r)) W"
  "set_data i d (conf D R W) = conf (D(i := d)) R W"
  "pop_wire s i (conf D R W) = conf D R (W(s := (W s)(i := tl (W s i))))"
  "push_wire s i m (conf D R W) = conf D R (W(s := (W s)(i := W s i @ [m])))"
  by (simp_all add: conf_def cfg_ops fun_eq_iff)

lemma recv_all_conf: "distinct ids \<Longrightarrow> recv_all fo i b ids (conf D R W) =
    conf (D(i := fold (\<lambda>s. accum fo (b s)) ids (D i))) R (pop_all i ids W)"
proof (induction ids arbitrary: D W)
  case Nil
  show ?case by (simp add: pop_all_def)
next
  case (Cons s ids)
  have "pop_all i ids (W(s := (W s)(i := tl (W s i)))) = pop_all i (s # ids) W"
    using Cons.prems by (auto simp: pop_all_def fun_eq_iff)
  then show ?case using Cons.IH [of "D(i := accum fo (b s) (D i))"] Cons.prems
    by (simp only: recv_all.simps conf_sel conf_upd fold_simps fun_upd_same fun_upd_upd distinct.simps)
qed

lemma send_all_conf: "distinct ids \<Longrightarrow> send_all red i ids (conf D R W) = conf D R (push_all i ids (out_msg red (D i)) W)"
proof (induction ids arbitrary: W)
  case Nil
  show ?case by (simp add: push_all_def)
next
  case (Cons d ids)
  have "push_all i ids m (W(i := (W i)(d := W i d @ [m]))) = push_all i (d # ids) m W" for m
    using Cons.prems by (auto simp: push_all_def fun_eq_iff)
  with Cons show ?case by simp
qed

abbreviation run_to :: "float_ops \<Rightarrow> cfg \<Rightarrow> cfg \<Rightarrow> bool" where
  "run_to fo A B \<equiv> leads fo (at_rest A) (at_rest B)"

lemma run_New_state: "R i = New_state w # r \<Longrightarrow>
    run_to fo (conf D R W) (conf (D(i := (new_state w, snd (D i)))) (R(i := r)) W)"
  using leads_New_state [of "conf D R W" i w r fo] by simp

text \<open>One process runs its part of a reduce graph, or of a broadcast graph.\<close>

lemma st_w_fold_accum [simp]: "st_w (fst (fold (\<lambda>s. accum fo (b s)) ids d)) = st_w (fst d)"
  by (induction ids arbitrary: d) simp_all

lemma run_reduce_proc:
  assumes "R i = [Par_recv ps, Par_send True ns] @ r" and "wf_ws (st_w (fst (D i)))" and "distinct ps" "distinct ns"
    and "\<And>s. s \<in> set ps \<Longrightarrow> \<exists>ms. W s i = reduce_msg (st_w (fst (D i))) (b s) # ms"
    and "d' = fold (\<lambda>s. accum fo (b s)) ps (D i)"
  shows "run_to fo (conf D R W)
    (conf (D(i := d')) (R(i := r)) (push_all i ns (out_msg True d') (pop_all i ps W)))"
proof -
  have "run_to fo (conf D R W) (conf (D(i := d')) (R(i := Par_send True ns # r)) (pop_all i ps W))"
    using leads_Par_recv [of "conf D R W" i ps "Par_send True ns # r" b fo] assms by (simp add: recv_all_conf)
  also have "leads fo \<dots> (at_rest (conf (D(i := d')) (R(i := r)) (push_all i ns (out_msg True d') (pop_all i ps W))))"
    using leads_Par_send [of "conf (D(i := d')) (R(i := Par_send True ns # r)) (pop_all i ps W)" i True ns r fo] assms
    by (simp add: send_all_conf)
  finally show ?thesis .
qed

definition source_data :: "data \<Rightarrow> data" where
  "source_data d = (if recv_count (fst d) = 0 then forwarded d else d)"

lemma st_w_source [simp]: "st_w (fst (source_data d)) = st_w (fst d)" "st_w (fst (stored b d)) = st_w (fst d)"
  by (simp_all add: source_data_def forwarded_def stored_def Let_def)

lemma run_bcast_source:
  assumes "R i = [Recv_into [], Par_send False ns] @ r" and "wf_ws (st_w (fst (D i)))" and "distinct ns"
  shows "run_to fo (conf D R W)
    (conf (D(i := source_data (D i))) (R(i := r)) (push_all i ns (out_msg False (source_data (D i))) W))"
proof -
  let ?A = "conf (D(i := source_data (D i))) (R(i := Par_send False ns # r)) W"
  have "run_to fo (conf D R W) ?A"
    using leads_forward [of "conf D R W" i "Par_send False ns # r" fo]
      leads_no_forward [of "conf D R W" i "Par_send False ns # r" fo] assms
    by (cases "recv_count (fst (D i)) = 0") (simp_all add: source_data_def)
  also have "run_to fo ?A (conf (D(i := source_data (D i))) (R(i := r)) (push_all i ns (out_msg False (source_data (D i))) W))"
    using leads_Par_send [of ?A i False ns r fo] assms by (simp add: send_all_conf)
  finally show ?thesis .
qed

lemma run_bcast_proc:
  assumes "R i = [Recv_into [s], Par_send False ns] @ r" and "wf_ws (st_w (fst (D i)))" and "distinct ns"
    and "W s i = slot_msg (st_w (fst (D i))) b # ms"
  shows "run_to fo (conf D R W)
    (conf (D(i := stored b (D i))) (R(i := r)) (push_all i ns (out_msg False (stored b (D i))) (pop_all i [s] W)))"
proof -
  let ?A = "conf (D(i := stored b (D i))) (R(i := Par_send False ns # r)) (pop_all i [s] W)"
  have "W(s := (W s)(i := tl (W s i))) = pop_all i [s] W" by (auto simp: pop_all_def fun_eq_iff)
  then have "run_to fo (conf D R W) ?A"
    using leads_Recv_into [of "conf D R W" i s "Par_send False ns # r" b ms fo] assms by simp
  also have "run_to fo ?A (conf (D(i := stored b (D i))) (R(i := r)) (push_all i ns (out_msg False (stored b (D i))) (pop_all i [s] W)))"
    using leads_Par_send [of ?A i False ns r fo] assms by (simp add: send_all_conf)
  finally show ?thesis .
qed

text \<open>Processes that take the same phase in any order.\<close>

lemma run_each:
  assumes "finite L" and "\<And>X i. X \<subseteq> L \<Longrightarrow> i \<in> L \<Longrightarrow> i \<notin> X \<Longrightarrow> run_to fo (F X) (F (insert i X))"
  shows "run_to fo (F {}) (F L)"
proof -
  have "run_to fo (F {}) (F X)" if "X \<subseteq> L" for X
    using finite_subset [OF that assms(1)] that
  proof (induction X rule: finite_induct)
    case empty
    show ?case by (rule leads_refl)
  next
    case (insert i X)
    then have "run_to fo (F {}) (F X)" by simp
    also have "run_to fo (F X) (F (insert i X))" using insert by (intro assms(2)) auto
    finally show ?case .
  qed
  then show ?thesis by simp
qed

lemma run_upto:
  assumes "\<And>k. k < n \<Longrightarrow> run_to fo (F k) (F (Suc k))"
  shows "run_to fo (F 0) (F n)"
proof -
  have "run_to fo (F 0) (F k)" if "k \<le> n" for k
    using that
  proof (induction k)
    case 0
    show ?case by (rule leads_refl)
  next
    case (Suc k)
    then have "run_to fo (F 0) (F k)" by simp
    also have "run_to fo (F k) (F (Suc k))" using Suc.prems by (intro assms) simp
    finally show ?case .
  qed
  then show ?thesis by simp
qed

text \<open>All processes begin a workspace.\<close>

lemma run_New_all:
  assumes "\<And>i. i < n \<Longrightarrow> R i = New_state (ws i) # r i"
  shows "run_to fo (conf D R W)
    (conf (\<lambda>i. if i < n then (new_state (ws i), snd (D i)) else D i) (\<lambda>i. if i < n then r i else R i) W)"
proof -
  define F where "F X = conf (\<lambda>i. if i \<in> X then (new_state (ws i), snd (D i)) else D i) (\<lambda>i. if i \<in> X then r i else R i) W" for X
  have "run_to fo (F {}) (F {..<n})"
  proof (rule run_each)
    fix X i
    assume i: "i \<in> {..<n}" "i \<notin> X"
    let ?D = "\<lambda>i. if i \<in> X then (new_state (ws i), snd (D i)) else D i" and ?R = "\<lambda>i. if i \<in> X then r i else R i"
    have "?D(i := (new_state (ws i), snd (?D i))) = (\<lambda>j. if j \<in> insert i X then (new_state (ws j), snd (D j)) else D j)"
      "?R(i := r i) = (\<lambda>j. if j \<in> insert i X then r j else R j)" using i by auto
    with run_New_state [of ?R i "ws i" "r i" fo ?D W] i assms show "run_to fo (F X) (F (insert i X))"
      by (simp add: F_def)
  qed simp
  then show ?thesis by (simp add: F_def)
qed

end
