(* ===== verification/Star_Ring.thy ===== *)
theory Star_Ring
  imports Runs
begin

text \<open>
  Runs of the reduce and broadcast graphs of both strategies. For the star, leaves run first and
  the root last, and in the broadcast the other way round. A rotation of the ring is a line of
  processes in each graph; the locale \<open>line_order\<close> enumerates a line and its lemmas run it from
  one end to the other. The resulting data of each process are \<open>star_bcast_data\<close>,
  \<open>line_reduce\<close> and \<open>line_bcast\<close>.
\<close>

section \<open>Star\<close>

abbreviation quiet :: wires where
  "quiet \<equiv> (\<lambda>_ _. [])"

definition same_names :: "nat \<Rightarrow> (nat \<Rightarrow> data) \<Rightarrow> bool" where
  "same_names n D \<longleftrightarrow> (\<forall>i<n. \<forall>j<n. w_name (st_w (fst (D i))) = w_name (st_w (fst (D j))))"

definition wf_data :: "nat \<Rightarrow> (nat \<Rightarrow> data) \<Rightarrow> bool" where
  "wf_data n D \<longleftrightarrow> same_names n D \<and> (\<forall>i<n. wf_ws (st_w (fst (D i))))"

lemma out_msg_wf:
  assumes "wf_data n D" and "i < n" and "j < n" and "st_w (fst d) = st_w (fst (D i))"
  shows "out_msg True d = reduce_msg (st_w (fst (D j))) (eff_bytes d)"
    and "out_msg False d = slot_msg (st_w (fst (D j))) (eff_bytes d)"
proof -
  have "w_name (st_w (fst d)) = w_name (st_w (fst (D j)))"
    using assms unfolding wf_data_def same_names_def by metis
  then show "out_msg True d = reduce_msg (st_w (fst (D j))) (eff_bytes d)"
    "out_msg False d = slot_msg (st_w (fst (D j))) (eff_bytes d)"
    by (simp_all add: out_msg_def reduce_msg_def slot_msg_def)
qed

definition run_rest :: "nat \<Rightarrow> (nat \<Rightarrow> instr list) \<Rightarrow> (nat \<Rightarrow> instr list) \<Rightarrow> (nat \<Rightarrow> instr list)" where
  "run_rest n r R = (\<lambda>i. if i < n then r i else R i)"

lemma graph_prog_star_reduce: "root < n \<Longrightarrow> i < n \<Longrightarrow> graph_prog i (reduce_graph (star_pair n root)) =
    [Par_recv (if i = root then star_leaves n root else []), Par_send True (if i = root then [] else [root])]"
  by (simp add: graph_prog_def topo_simps)

lemma graph_prog_star_bcast: "root < n \<Longrightarrow> i < n \<Longrightarrow> graph_prog i (broadcast_graph (star_pair n root)) =
    [Recv_into (if i = root then [] else [root]), Par_send False (if i = root then star_leaves n root else [])]"
  by (simp add: graph_prog_def topo_simps)

lemma star_leaves_simps [simp]: "distinct (star_leaves n root)" "set (star_leaves n root) = {..<n} - {root}"
  by (auto simp: star_leaves_def)

lemma star_reduce:
  assumes "root < n" and wf: "wf_data n D"
    and R: "\<And>i. i < n \<Longrightarrow> R i = graph_prog i (reduce_graph (star_pair n root)) @ r i"
  shows "run_to fo (conf D R quiet)
    (conf (D(root := fold (\<lambda>s. accum fo (eff_bytes (D s))) (star_leaves n root) (D root))) (run_rest n r R) quiet)"
proof -
  let ?L = "{..<n} - {root}" and ?d = "fold (\<lambda>s. accum fo (eff_bytes (D s))) (star_leaves n root) (D root)"
  define F where "F X = conf D (\<lambda>i. if i \<in> X then r i else R i)
    (\<lambda>s d. if s \<in> X \<and> d = root then [out_msg True (D s)] else [])" for X
  have "run_to fo (F {}) (F ?L)"
  proof (rule run_each)
    fix X i
    assume i: "X \<subseteq> ?L" "i \<in> ?L" "i \<notin> X"
    let ?R = "\<lambda>i. if i \<in> X then r i else R i"
    let ?W = "\<lambda>s d. if s \<in> X \<and> d = root then [out_msg True (D s)] else []"
    have Ri: "?R i = [Par_recv [], Par_send True [root]] @ r i"
      using i assms(1) by (simp add: R graph_prog_star_reduce)
    have "run_to fo (conf D ?R ?W) (conf (D(i := D i)) (?R(i := r i)) (push_all i [root] (out_msg True (D i)) (pop_all i [] ?W)))"
      using i wf by (intro run_reduce_proc Ri) (auto simp: wf_data_def)
    moreover have "push_all i [root] (out_msg True (D i)) (pop_all i [] ?W) =
        (\<lambda>s d. if s \<in> insert i X \<and> d = root then [out_msg True (D s)] else [])"
      using i by (auto simp: push_all_def pop_all_def fun_eq_iff)
    moreover have "?R(i := r i) = (\<lambda>j. if j \<in> insert i X then r j else R j)" by auto
    ultimately show "run_to fo (F X) (F (insert i X))" by (simp add: F_def)
  qed simp
  also have "run_to fo (F ?L) (conf (D(root := ?d)) (run_rest n r R) quiet)"
  proof -
    let ?R = "\<lambda>i. if i \<in> ?L then r i else R i"
    let ?W = "\<lambda>s d. if s \<in> ?L \<and> d = root then [out_msg True (D s)] else []"
    have Rr: "?R root = [Par_recv (star_leaves n root), Par_send True []] @ r root"
      using assms(1) by (simp add: R graph_prog_star_reduce)
    have "run_to fo (conf D ?R ?W) (conf (D(root := ?d)) (?R(root := r root)) (push_all root [] (out_msg True ?d) (pop_all root (star_leaves n root) ?W)))"
    proof (rule run_reduce_proc [where b = "\<lambda>s. eff_bytes (D s)"], rule Rr)
      fix s
      assume "s \<in> set (star_leaves n root)"
      with assms(1) wf show "\<exists>ms. ?W s root = reduce_msg (st_w (fst (D root))) (eff_bytes (D s)) # ms"
        by (auto simp: out_msg_wf(1) [OF wf _ assms(1)])
    qed (use wf assms(1) in \<open>auto simp: wf_data_def\<close>)
    moreover have "push_all root [] (out_msg True ?d) (pop_all root (star_leaves n root) ?W) = quiet"
      by (auto simp: push_all_def pop_all_def fun_eq_iff)
    moreover have "?R(root := r root) = run_rest n r R" using assms(1) by (auto simp: run_rest_def)
    ultimately show ?thesis by (simp add: F_def)
  qed
  finally show ?thesis by (simp add: F_def)
qed

definition star_bcast_data :: "nat \<Rightarrow> nat \<Rightarrow> (nat \<Rightarrow> data) \<Rightarrow> nat \<Rightarrow> data" where
  "star_bcast_data n root D i =
     (if i = root then source_data (D root)
      else if i < n then stored (eff_bytes (source_data (D root))) (D i) else D i)"

lemma star_bcast:
  assumes "root < n" and wf: "wf_data n D"
    and R: "\<And>i. i < n \<Longrightarrow> R i = graph_prog i (broadcast_graph (star_pair n root)) @ r i"
  shows "run_to fo (conf D R quiet) (conf (star_bcast_data n root D) (run_rest n r R) quiet)"
proof -
  let ?L = "{..<n} - {root}" and ?d = "source_data (D root)"
  define F where "F X = conf (\<lambda>i. if i = root then ?d else if i \<in> X then stored (eff_bytes ?d) (D i) else D i)
    (\<lambda>i. if i = root \<or> i \<in> X then r i else R i)
    (\<lambda>s d. if s = root \<and> d \<in> ?L - X then [out_msg False ?d] else [])" for X
  have Rr: "R root = [Recv_into [], Par_send False (star_leaves n root)] @ r root"
    using assms(1) by (simp add: R graph_prog_star_bcast)
  have "run_to fo (conf D R quiet) (conf (D(root := ?d)) (R(root := r root)) (push_all root (star_leaves n root) (out_msg False ?d) quiet))"
    using wf assms(1) by (intro run_bcast_source Rr) (auto simp: wf_data_def)
  also have "conf (D(root := ?d)) (R(root := r root)) (push_all root (star_leaves n root) (out_msg False ?d) quiet) = F {}"
    unfolding F_def by (intro arg_cong3 [where f = conf]) (auto simp: push_all_def fun_eq_iff)
  also have "run_to fo (F {}) (F ?L)"
  proof (rule run_each)
    fix X i
    assume i: "X \<subseteq> ?L" "i \<in> ?L" "i \<notin> X"
    let ?D = "\<lambda>i. if i = root then ?d else if i \<in> X then stored (eff_bytes ?d) (D i) else D i"
    let ?R = "\<lambda>i. if i = root \<or> i \<in> X then r i else R i"
    let ?W = "\<lambda>s d. if s = root \<and> d \<in> ?L - X then [out_msg False ?d] else []"
    have Ri: "?R i = [Recv_into [root], Par_send False []] @ r i"
      using i assms(1) by (simp add: R graph_prog_star_bcast)
    have "out_msg False ?d = slot_msg (st_w (fst (D i))) (eff_bytes ?d)"
      using i by (intro out_msg_wf(2) [OF wf assms(1)]) auto
    then have m: "?W root i = slot_msg (st_w (fst (?D i))) (eff_bytes ?d) # []"
      using i by simp
    have "run_to fo (conf ?D ?R ?W) (conf (?D(i := stored (eff_bytes ?d) (?D i))) (?R(i := r i))
        (push_all i [] (out_msg False (stored (eff_bytes ?d) (?D i))) (pop_all i [root] ?W)))"
      using i wf by (intro run_bcast_proc [where ms = "[]"] Ri m) (auto simp: wf_data_def)
    also have "conf (?D(i := stored (eff_bytes ?d) (?D i))) (?R(i := r i))
        (push_all i [] (out_msg False (stored (eff_bytes ?d) (?D i))) (pop_all i [root] ?W)) = F (insert i X)"
      unfolding F_def using i by (intro arg_cong3 [where f = conf]) (auto simp: push_all_def pop_all_def fun_eq_iff)
    finally show "run_to fo (F X) (F (insert i X))" by (simp add: F_def)
  qed simp
  also have "F ?L = conf (star_bcast_data n root D) (run_rest n r R) quiet"
    unfolding F_def using assms(1) by (intro arg_cong3 [where f = conf]) (auto simp: star_bcast_data_def run_rest_def fun_eq_iff)
  finally show ?thesis .
qed

section \<open>Ring\<close>

text \<open>Processes in a line: \<open>u k\<close> receives from \<open>u (k - 1)\<close> and sends to \<open>u (k + 1)\<close>.\<close>

fun line_reduce :: "float_ops \<Rightarrow> (nat \<Rightarrow> data) \<Rightarrow> nat \<Rightarrow> data" where
  "line_reduce fo d 0 = d 0"
| "line_reduce fo d (Suc k) = accum fo (eff_bytes (line_reduce fo d k)) (d (Suc k))"

fun line_bcast :: "(nat \<Rightarrow> data) \<Rightarrow> nat \<Rightarrow> data" where
  "line_bcast d 0 = source_data (d 0)"
| "line_bcast d (Suc k) = stored (eff_bytes (line_bcast d k)) (d (Suc k))"

lemma st_w_line [simp]: "st_w (fst (line_reduce fo d k)) = st_w (fst (d k))" "st_w (fst (line_bcast d k)) = st_w (fst (d k))"
  by (cases k; simp)+

definition line_prevs :: "(nat \<Rightarrow> nat) \<Rightarrow> nat \<Rightarrow> nat list" where
  "line_prevs u k = (if k = 0 then [] else [u (k - 1)])"

definition line_nexts :: "nat \<Rightarrow> (nat \<Rightarrow> nat) \<Rightarrow> nat \<Rightarrow> nat list" where
  "line_nexts n u k = (if k + 1 < n then [u (k + 1)] else [])"

locale line_order =
  fixes n :: nat and u pos :: "nat \<Rightarrow> nat"
  assumes u_less: "k < n \<Longrightarrow> u k < n"
    and pos_u: "k < n \<Longrightarrow> pos (u k) = k"
    and pos_less: "x < n \<Longrightarrow> pos x < n"
    and u_pos: "x < n \<Longrightarrow> u (pos x) = x"
begin

lemma u_eq: "k < n \<Longrightarrow> j < n \<Longrightarrow> u k = u j \<longleftrightarrow> k = j"
  by (metis pos_u)

lemma u_eq_pos: "k < n \<Longrightarrow> x < n \<Longrightarrow> x = u k \<longleftrightarrow> pos x = k"
  by (metis pos_u u_pos)

definition on_line :: "nat \<Rightarrow> (nat \<Rightarrow> 'a) \<Rightarrow> (nat \<Rightarrow> 'a) \<Rightarrow> nat \<Rightarrow> 'a" where
  "on_line k f g x = (if x < n \<and> pos x < k then f x else g x)"

definition between :: "nat \<Rightarrow> msg \<Rightarrow> wires" where
  "between k m = (\<lambda>s d. if 0 < k \<and> k < n \<and> s = u (k - 1) \<and> d = u k then [m] else [])"

lemma on_line_0 [simp]: "on_line 0 f g = g"
  by (auto simp: on_line_def)

lemma on_line_n: "on_line n f g = (\<lambda>x. if x < n then f x else g x)"
  by (auto simp: on_line_def pos_less)

lemma on_line_upd: "k < n \<Longrightarrow> (on_line k f g)(u k := f (u k)) = on_line (Suc k) f g"
  by (auto simp: on_line_def fun_eq_iff pos_u u_less less_Suc_eq u_pos)

lemma on_line_at [simp]: "k < n \<Longrightarrow> on_line k f g (u k) = g (u k)"
  by (simp add: on_line_def pos_u)

lemma between_0 [simp]: "between 0 m = quiet" "between n m = quiet"
  by (auto simp: between_def)

lemma pop_between: "k < n \<Longrightarrow> pop_all (u k) (line_prevs u k) (between k m) = quiet"
  by (cases k) (simp_all add: between_def pop_all_def line_prevs_def fun_eq_iff)

lemma push_between: "push_all (u k) (line_nexts n u k) m quiet = between (Suc k) m"
  by (simp add: between_def push_all_def line_nexts_def fun_eq_iff)

lemma between_step:
  "k < n \<Longrightarrow> push_all (u k) (line_nexts n u k) m (pop_all (u k) (line_prevs u k) (between k m')) = between (Suc k) m"
  by (simp add: pop_between push_between)

lemma line_distinct [simp]: "distinct (line_prevs u k)" "distinct (line_nexts n u k)"
  by (simp_all add: line_prevs_def line_nexts_def)

lemma run_line_reduce:
  assumes wf: "wf_data n D"
    and R: "\<And>k. k < n \<Longrightarrow> R (u k) = [Par_recv (line_prevs u k), Par_send True (line_nexts n u k)] @ r (u k)"
  shows "run_to fo (conf D R quiet)
    (conf (\<lambda>x. if x < n then line_reduce fo (\<lambda>k. D (u k)) (pos x) else D x) (run_rest n r R) quiet)"
proof -
  let ?c = "line_reduce fo (\<lambda>k. D (u k))"
  define F where "F k = conf (on_line k (\<lambda>x. ?c (pos x)) D) (on_line k r R) (between k (out_msg True (?c (k - 1))))" for k
  have "run_to fo (F 0) (F n)"
  proof (rule run_upto)
    fix k
    assume k: "k < n"
    let ?D = "on_line k (\<lambda>x. ?c (pos x)) D" and ?R = "on_line k r R" and ?W = "between k (out_msg True (?c (k - 1)))"
    have Rk: "?R (u k) = [Par_recv (line_prevs u k), Par_send True (line_nexts n u k)] @ r (u k)"
      using k R by simp
    have m: "\<exists>ms. ?W s (u k) = reduce_msg (st_w (fst (?D (u k)))) (eff_bytes (?c (k - 1))) # ms"
      if "s \<in> set (line_prevs u k)" for s
    proof -
      from that have s: "0 < k" "s = u (k - 1)" by (auto simp: line_prevs_def split: if_splits)
      have "out_msg True (?c (k - 1)) = reduce_msg (st_w (fst (D (u k)))) (eff_bytes (?c (k - 1)))"
        by (rule out_msg_wf(1) [OF wf u_less [of "k - 1"] u_less [OF k]]) (use k in simp_all)
      with s k show ?thesis by (simp add: between_def)
    qed
    have d: "?c k = fold (\<lambda>s. accum fo (eff_bytes (?c (k - 1)))) (line_prevs u k) (?D (u k))"
      using k by (cases k) (simp_all add: line_prevs_def)
    have "run_to fo (conf ?D ?R ?W) (conf (?D(u k := ?c k)) (?R(u k := r (u k)))
        (push_all (u k) (line_nexts n u k) (out_msg True (?c k)) (pop_all (u k) (line_prevs u k) ?W)))"
      using k wf by (intro run_reduce_proc [where b = "\<lambda>_. eff_bytes (?c (k - 1))"] Rk m d) (simp_all add: wf_data_def u_less)
    also have "?D(u k := ?c k) = on_line (Suc k) (\<lambda>x. ?c (pos x)) D"
      using on_line_upd [OF k, of "\<lambda>x. ?c (pos x)" D] k by (simp add: pos_u)
    also have "?R(u k := r (u k)) = on_line (Suc k) r R" using k by (rule on_line_upd)
    also have "push_all (u k) (line_nexts n u k) (out_msg True (?c k)) (pop_all (u k) (line_prevs u k) ?W) =
        between (Suc k) (out_msg True (?c k))" using k by (rule between_step)
    finally show "run_to fo (F k) (F (Suc k))" by (simp add: F_def)
  qed
  then show ?thesis by (simp add: F_def on_line_n run_rest_def)
qed

lemma run_line_bcast:
  assumes wf: "wf_data n D"
    and R: "\<And>k. k < n \<Longrightarrow> R (u k) = [Recv_into (line_prevs u k), Par_send False (line_nexts n u k)] @ r (u k)"
  shows "run_to fo (conf D R quiet)
    (conf (\<lambda>x. if x < n then line_bcast (\<lambda>k. D (u k)) (pos x) else D x) (run_rest n r R) quiet)"
proof -
  let ?c = "line_bcast (\<lambda>k. D (u k))"
  define F where "F k = conf (on_line k (\<lambda>x. ?c (pos x)) D) (on_line k r R) (between k (out_msg False (?c (k - 1))))" for k
  have "run_to fo (F 0) (F n)"
  proof (rule run_upto)
    fix k
    assume k: "k < n"
    let ?D = "on_line k (\<lambda>x. ?c (pos x)) D" and ?R = "on_line k r R" and ?W = "between k (out_msg False (?c (k - 1)))"
    have wfk: "wf_ws (st_w (fst (?D (u k))))" using wf k by (simp add: wf_data_def u_less)
    have "run_to fo (conf ?D ?R ?W) (conf (?D(u k := ?c k)) (?R(u k := r (u k)))
        (push_all (u k) (line_nexts n u k) (out_msg False (?c k)) (pop_all (u k) (line_prevs u k) ?W)))"
    proof (cases k)
      case 0
      have Rk: "?R (u k) = [Recv_into [], Par_send False (line_nexts n u k)] @ r (u k)"
        using k R 0 by (simp add: line_prevs_def)
      have "run_to fo (conf ?D ?R ?W) (conf (?D(u k := source_data (?D (u k)))) (?R(u k := r (u k)))
        (push_all (u k) (line_nexts n u k) (out_msg False (source_data (?D (u k)))) ?W))"
        by (intro run_bcast_source Rk wfk) simp
      with 0 k show ?thesis by (simp add: line_prevs_def pop_all_def)
    next
      case (Suc j)
      have Rk: "?R (u k) = [Recv_into [u j], Par_send False (line_nexts n u k)] @ r (u k)"
        using k R Suc by (simp add: line_prevs_def)
      have m: "?W (u j) (u k) = slot_msg (st_w (fst (?D (u k)))) (eff_bytes (?c j)) # []"
      proof -
        have "out_msg False (?c j) = slot_msg (st_w (fst (D (u k)))) (eff_bytes (?c j))"
          by (rule out_msg_wf(2) [OF wf u_less [of j] u_less [OF k]]) (use k Suc in simp_all)
        with Suc k show ?thesis by (simp add: between_def)
      qed
      have "run_to fo (conf ?D ?R ?W) (conf (?D(u k := stored (eff_bytes (?c j)) (?D (u k)))) (?R(u k := r (u k)))
        (push_all (u k) (line_nexts n u k) (out_msg False (stored (eff_bytes (?c j)) (?D (u k)))) (pop_all (u k) [u j] ?W)))"
        by (intro run_bcast_proc [where ms = "[]"] Rk wfk m) simp
      with Suc k show ?thesis by (simp add: line_prevs_def)
    qed
    also have "?D(u k := ?c k) = on_line (Suc k) (\<lambda>x. ?c (pos x)) D"
      using on_line_upd [OF k, of "\<lambda>x. ?c (pos x)" D] k by (simp add: pos_u)
    also have "?R(u k := r (u k)) = on_line (Suc k) r R" using k by (rule on_line_upd)
    also have "push_all (u k) (line_nexts n u k) (out_msg False (?c k)) (pop_all (u k) (line_prevs u k) ?W) =
        between (Suc k) (out_msg False (?c k))" using k by (rule between_step)
    finally show "run_to fo (F k) (F (Suc k))" by (simp add: F_def)
  qed
  then show ?thesis by (simp add: F_def on_line_n run_rest_def)
qed

end

text \<open>The rotations of the ring.\<close>

definition ring_vertex :: "nat \<Rightarrow> nat \<Rightarrow> nat \<Rightarrow> nat" where
  "ring_vertex n b k = (b + k) mod n"

definition ring_pos :: "nat \<Rightarrow> nat \<Rightarrow> nat \<Rightarrow> nat" where
  "ring_pos n b x = (x + (n - b mod n)) mod n"

lemma ring_vertex_pos: "x < n \<Longrightarrow> ring_vertex n b (ring_pos n b x) = x"
proof -
  assume x: "x < n"
  have "ring_vertex n b (ring_pos n b x) = (b mod n + (x + (n - b mod n))) mod n"
    by (simp add: ring_vertex_def ring_pos_def mod_simps)
  also have "b mod n + (x + (n - b mod n)) = x + n"
    using x mod_less_divisor [of n b] by linarith
  finally show ?thesis using x by simp
qed

lemma ring_pos_vertex: "k < n \<Longrightarrow> ring_pos n b (ring_vertex n b k) = k"
proof -
  assume k: "k < n"
  then have p: "ring_pos n b (ring_vertex n b k) < n" "ring_vertex n b k < n"
    by (simp_all add: ring_pos_def ring_vertex_def)
  then have "(b + ring_pos n b (ring_vertex n b k)) mod n = (b + k) mod n"
    using ring_vertex_pos [OF p(2), of b] by (simp add: ring_vertex_def)
  with p k show ?thesis by (simp add: mod_offset_eq)
qed

interpretation ring: line_order n "ring_vertex n b" "ring_pos n b" for n b
  by unfold_locales (auto simp: ring_vertex_pos ring_pos_vertex, auto simp: ring_vertex_def ring_pos_def)

lemma graph_prog_ring_reduce:
  assumes "k < n"
  shows "graph_prog (ring_vertex n (r + 1) k) (reduce_graph (make_circular_graph_pair n r)) =
    [Par_recv (line_prevs (ring_vertex n (r + 1)) k), Par_send True (line_nexts n (ring_vertex n (r + 1)) k)]"
proof -
  let ?j = "(k + 1) mod n"
  have v: "ring_vertex n (r + 1) k = (r + ?j) mod n" by (simp add: ring_vertex_def mod_simps)
  have j: "?j < n" using assms by simp
  have "prevs (reduce_graph (make_circular_graph_pair n r)) ((r + ?j) mod n) = line_prevs (ring_vertex n (r + 1)) k"
  proof (cases "k + 1 < n")
    case True
    then show ?thesis using ring_reduce_prevs [OF j, of r] by (auto simp: line_prevs_def ring_vertex_def)
  next
    case False
    with assms have "n = k + 1" by simp
    then show ?thesis using ring_reduce_prevs [OF j, of r] by (auto simp: line_prevs_def ring_vertex_def)
  qed
  moreover have "nexts (reduce_graph (make_circular_graph_pair n r)) ((r + ?j) mod n) = line_nexts n (ring_vertex n (r + 1)) k"
  proof (cases "k + 1 < n")
    case True
    then show ?thesis using ring_reduce_nexts [OF j, of r] by (auto simp: line_nexts_def ring_vertex_def)
  next
    case False
    with assms have "n = k + 1" by simp
    then show ?thesis using ring_reduce_nexts [OF j, of r] by (auto simp: line_nexts_def ring_vertex_def)
  qed
  moreover have "self_loop (reduce_graph (make_circular_graph_pair n r)) ((r + ?j) mod n)"
    using assms by (intro ring_self_loops) simp
  ultimately show ?thesis unfolding v graph_prog_def by simp
qed

lemma graph_prog_ring_bcast:
  assumes "k < n"
  shows "graph_prog (ring_vertex n r k) (broadcast_graph (make_circular_graph_pair n r)) =
    [Recv_into (line_prevs (ring_vertex n r) k), Par_send False (line_nexts n (ring_vertex n r) k)]"
  using ring_broadcast_prevs [OF assms, of r] ring_broadcast_nexts [OF assms, of r] assms
  by (auto simp: graph_prog_def ring_vertex_def topo_simps line_prevs_def line_nexts_def)

end
