(* ===== verification/All_Reduce.thy ===== *)
theory All_Reduce
  imports Star_Ring
begin

text \<open>
  The values that one pass over a pair of graphs leaves in the memories. \<open>contrib\<close> is the send
  buffer of a process, \<open>result_of\<close> the reduction of all of them. The star gives every process the
  result. The ring gives it to the process where the reduce line ends and to its successor; the
  others get what the successor sends on, which is the result only if the successor works in
  place (\<open>ring_chunk\<close>).
\<close>

definition bytes :: "workspace \<Rightarrow> nat" where
  "bytes w = w_count w * elem_size (w_dt w)"

definition contrib :: "workspace \<Rightarrow> mem \<Rightarrow> byte list" where
  "contrib w m = read_mem m (w_send w) (bytes w)"

abbreviation op_of :: "float_ops \<Rightarrow> workspace \<Rightarrow> byte list \<Rightarrow> byte list \<Rightarrow> byte list" where
  "op_of fo w \<equiv> combine fo (w_count w) (w_dt w) (w_op w)"

definition result_of :: "float_ops \<Rightarrow> nat \<Rightarrow> workspace \<Rightarrow> (nat \<Rightarrow> workspace) \<Rightarrow> (nat \<Rightarrow> mem) \<Rightarrow> byte list" where
  "result_of fo n w0 ws M = total (op_of fo w0) (map (\<lambda>i. contrib (ws i) (M i)) [0..<n])"

text \<open>The processes call the operation with the same name, count, type and operator, those of \<open>w0\<close>.\<close>

definition agree :: "nat \<Rightarrow> workspace \<Rightarrow> (nat \<Rightarrow> workspace) \<Rightarrow> bool" where
  "agree n w0 ws \<longleftrightarrow> (\<forall>i<n. wf_ws (ws i) \<and> w_name (ws i) = w_name w0 \<and> w_count (ws i) = w_count w0 \<and>
     w_dt (ws i) = w_dt w0 \<and> w_op (ws i) = w_op w0)"

section \<open>Values\<close>

lemma agreeD: "agree n w0 ws \<Longrightarrow> i < n \<Longrightarrow> wf_ws (ws i)" "agree n w0 ws \<Longrightarrow> i < n \<Longrightarrow> bytes (ws i) = bytes w0"
  "agree n w0 ws \<Longrightarrow> i < n \<Longrightarrow> op_of fo (ws i) = op_of fo w0"
  "agree n w0 ws \<Longrightarrow> i < n \<Longrightarrow> w_name (ws i) = w_name w0"
  by (simp_all add: agree_def bytes_def)

lemma length_contrib [simp]: "length (contrib w m) = bytes w"
  by (simp add: contrib_def)

lemma ok_contrib: "agree n w0 ws \<Longrightarrow> i < n \<Longrightarrow> ok_buf (w_count w0) (w_dt w0) (contrib (ws i) m)"
  by (simp add: ok_buf_def agreeD(2)) (auto simp: agree_def wf_ws_def bytes_def)

lemma length_op_of: "wf_ws w \<Longrightarrow> length (op_of fo w x y) = bytes w"
  by (simp add: wf_ws_def length_combine bytes_def del: is_integer.simps)

lemma wf_data_new: "agree n w0 ws \<Longrightarrow> wf_data n (\<lambda>i. (new_state (ws i), M i))"
  "agree n w0 ws \<Longrightarrow> (\<And>i. i < n \<Longrightarrow> st_w (fst (D i)) = ws i) \<Longrightarrow> wf_data n D"
  by (simp_all add: wf_data_def same_names_def new_state_def agree_def)

text \<open>A sequence of accumulations in closed form.\<close>

definition state_data :: "workspace \<Rightarrow> nat \<Rightarrow> byte list \<Rightarrow> mem \<Rightarrow> data" where
  "state_data w k b m = (\<lparr>st_w = w, recv_count = k\<rparr>, write_mem m (w_recv w) b)"

lemma eff_bytes_new: "eff_bytes (new_state w, m) = contrib w m"
  by (simp add: eff_bytes_def new_state_def effective_data_def contrib_def bytes_def)

lemma eff_bytes_state: "length b = bytes w \<Longrightarrow> 0 < k \<Longrightarrow> eff_bytes (state_data w k b m) = b"
  by (simp add: eff_bytes_def state_data_def effective_data_def bytes_def)

lemma accum_new: "accum fo b (new_state w, m) = state_data w 1 (op_of fo w b (contrib w m)) m"
  by (simp add: accum_def Let_def new_state_def state_data_def effective_data_def contrib_def bytes_def)

lemma accum_state: "wf_ws w \<Longrightarrow> length c = bytes w \<Longrightarrow> 0 < k \<Longrightarrow>
    accum fo b (state_data w k c m) = state_data w (Suc k) (op_of fo w b c) m"
  by (simp add: accum_def Let_def state_data_def effective_data_def bytes_def length_op_of)

lemma fold_accum_state: "wf_ws w \<Longrightarrow> length c = bytes w \<Longrightarrow> 0 < k \<Longrightarrow>
    fold (\<lambda>s. accum fo (b s)) ids (state_data w k c m) = state_data w (k + length ids) (fold (op_of fo w) (map b ids) c) m"
  by (induction ids arbitrary: k c) (simp_all add: accum_state length_op_of)

lemma fold_accum_new: "wf_ws w \<Longrightarrow> ids \<noteq> [] \<Longrightarrow>
    fold (\<lambda>s. accum fo (b s)) ids (new_state w, m) =
    state_data w (length ids) (fold (op_of fo w) (map b ids) (contrib w m)) m"
  by (cases ids) (simp_all add: accum_new fold_accum_state length_op_of)

lemma source_state [simp]: "0 < k \<Longrightarrow> source_data (state_data w k b m) = state_data w k b m"
  by (simp add: source_data_def state_data_def)

lemma source_new: "source_data (new_state w, m) = (new_state w, write_mem m (w_recv w) (contrib w m))"
  by (simp add: source_data_def new_state_def forwarded_def Let_def contrib_def bytes_def)

lemma snd_stored: "snd (stored b d) = write_mem (snd d) (w_recv (st_w (fst d))) b"
  by (simp add: stored_def)

section \<open>The star\<close>

lemma result_root_first:
  assumes "agree n w0 ws" and "root < n"
  shows "result_of fo n w0 ws M =
    fold (op_of fo w0) (map (\<lambda>i. contrib (ws i) (M i)) (star_leaves n root)) (contrib (ws root) (M root))"
proof -
  let ?c = "\<lambda>i. contrib (ws i) (M i)"
  have "mset [0..<n] = mset (root # star_leaves n root)"
    using assms(2) by (intro set_eq_iff_mset_eq_distinct [THEN iffD1]) auto
  then have "mset (map ?c [0..<n]) = mset (map ?c (root # star_leaves n root))" by (simp only: mset_map)
  then have "result_of fo n w0 ws M = total (op_of fo w0) (map ?c (root # star_leaves n root))"
    unfolding result_of_def using assms by (intro red.total_perm) (auto simp: ok_contrib)
  then show ?thesis by (simp add: total_def)
qed

lemma length_result: "agree n w0 ws \<Longrightarrow> 0 < n \<Longrightarrow> length (result_of fo n w0 ws M) = bytes w0"
proof -
  assume a: "agree n w0 ws" "0 < n"
  have "ok_buf (w_count w0) (w_dt w0) (result_of fo n w0 ws M)"
    unfolding result_root_first [OF a(1,2)] using a by (intro red.fold_closed) (auto simp: ok_contrib)
  then show ?thesis by (simp add: ok_buf_def bytes_def)
qed

text \<open>\<open>stores n ws v M\<close>: the memories after every process has stored \<open>v i\<close> in its receive buffer.\<close>

definition stores :: "nat \<Rightarrow> (nat \<Rightarrow> workspace) \<Rightarrow> (nat \<Rightarrow> byte list) \<Rightarrow> (nat \<Rightarrow> mem) \<Rightarrow> nat \<Rightarrow> mem" where
  "stores n ws v M = (\<lambda>i. if i < n then write_mem (M i) (w_recv (ws i)) (v i) else M i)"

definition mems :: "(nat \<Rightarrow> data) \<Rightarrow> nat \<Rightarrow> mem" where
  "mems D = (\<lambda>i. snd (D i))"

text \<open>
  \<open>passes fo n gs ws v\<close>: started on the workspaces \<open>ws\<close> with the graphs \<open>gs\<close>, a cluster of \<open>n\<close>
  processes can run to the end, with \<open>v M i\<close> in the receive buffer of process \<open>i\<close>.
\<close>

definition passes :: "float_ops \<Rightarrow> nat \<Rightarrow> graph list \<Rightarrow> (nat \<Rightarrow> workspace) \<Rightarrow> ((nat \<Rightarrow> mem) \<Rightarrow> nat \<Rightarrow> byte list) \<Rightarrow> bool" where
  "passes fo n gs ws v \<longleftrightarrow> (\<forall>D R r. (\<forall>i<n. R i = run_graphs_prog i (ws i) gs @ r i) \<longrightarrow>
     (\<exists>D'. run_to fo (conf D R quiet) (conf D' (run_rest n r R) quiet) \<and> mems D' = stores n ws (v (mems D)) (mems D)))"

abbreviation graphs :: "graph_pair \<Rightarrow> graph list" where
  "graphs gp \<equiv> [reduce_graph gp, broadcast_graph gp]"

lemma run_rest_absorb [simp]: "run_rest n r (run_rest n r' R) = run_rest n r R"
  by (auto simp: run_rest_def)

lemma run_rest_at: "i < n \<Longrightarrow> run_rest n r R i = r i"
  by (simp add: run_rest_def)

lemma run_begin:
  assumes "\<And>i. i < n \<Longrightarrow> R i = run_graphs_prog i (ws i) gs @ r i"
  shows "run_to fo (conf D R quiet)
    (conf (\<lambda>i. if i < n then (new_state (ws i), mems D i) else D i)
      (run_rest n (\<lambda>i. concat (map (graph_prog i) gs) @ r i) R) quiet)"
  unfolding run_rest_def mems_def using assms by (intro run_New_all) (simp add: run_graphs_prog_def)

lemma star_reduce_phase: "root < n \<Longrightarrow> wf_data n D \<Longrightarrow>
    run_to fo (conf D (run_rest n (\<lambda>i. graph_prog i (reduce_graph (star_pair n root)) @ r i) R) quiet)
      (conf (D(root := fold (\<lambda>s. accum fo (eff_bytes (D s))) (star_leaves n root) (D root))) (run_rest n r R) quiet)"
  using star_reduce [of root n D "run_rest n (\<lambda>i. graph_prog i (reduce_graph (star_pair n root)) @ r i) R" r fo]
  by (simp add: run_rest_at)

lemma star_bcast_phase: "root < n \<Longrightarrow> wf_data n D \<Longrightarrow>
    run_to fo (conf D (run_rest n (\<lambda>i. graph_prog i (broadcast_graph (star_pair n root)) @ r i) R) quiet)
      (conf (star_bcast_data n root D) (run_rest n r R) quiet)"
  using star_bcast [of root n D "run_rest n (\<lambda>i. graph_prog i (broadcast_graph (star_pair n root)) @ r i) R" r fo]
  by (simp add: run_rest_at)

lemma star_chunk:
  assumes "agree n w0 ws" and "root < n"
  shows "passes fo n (graphs (star_pair n root)) ws (\<lambda>M i. result_of fo n w0 ws M)"
  unfolding passes_def
proof (intro allI impI)
  fix D R r
  assume R: "\<forall>i<n. R i = run_graphs_prog i (ws i) (graphs (star_pair n root)) @ r i"
  let ?M = "mems D" and ?T = "result_of fo n w0 ws (mems D)"
  let ?D0 = "\<lambda>i. if i < n then (new_state (ws i), ?M i) else D i"
  let ?b = "\<lambda>i. graph_prog i (broadcast_graph (star_pair n root)) @ r i"
  let ?D1 = "?D0(root := fold (\<lambda>s. accum fo (eff_bytes (?D0 s))) (star_leaves n root) (?D0 root))"
  let ?D2 = "star_bcast_data n root ?D1"
  have wf0: "wf_data n ?D0" by (intro wf_data_new(2) [OF assms(1)]) (simp add: new_state_def)
  have wf1: "wf_data n ?D1" using assms by (intro wf_data_new(2) [OF assms(1)]) (auto simp: new_state_def)
  have "run_to fo (conf D R quiet) (conf ?D0 (run_rest n (\<lambda>i. graph_prog i (reduce_graph (star_pair n root)) @ ?b i) R) quiet)"
    using run_begin [of n R ws "graphs (star_pair n root)" r fo D] R by simp
  also have "run_to fo (conf ?D0 (run_rest n (\<lambda>i. graph_prog i (reduce_graph (star_pair n root)) @ ?b i) R) quiet)
      (conf ?D1 (run_rest n ?b R) quiet)"
    by (rule star_reduce_phase [OF assms(2) wf0])
  also have "run_to fo (conf ?D1 (run_rest n ?b R) quiet) (conf ?D2 (run_rest n r R) quiet)"
    by (rule star_bcast_phase [OF assms(2) wf1])
  finally have run: "run_to fo (conf D R quiet) (conf ?D2 (run_rest n r R) quiet)" .
  have wfr: "wf_ws (ws root)" using assms by (simp add: agreeD)
  have "?D1 root = fold (\<lambda>s. accum fo (contrib (ws s) (?M s))) (star_leaves n root) (new_state (ws root), ?M root)"
    using assms(2) by (auto simp: eff_bytes_new intro!: fold_cong)
  then have D1: "if star_leaves n root = [] then ?D1 root = (new_state (ws root), ?M root)
      else ?D1 root = state_data (ws root) (length (star_leaves n root)) ?T (?M root)"
    using fold_accum_new [OF wfr] assms by (auto simp: result_root_first agreeD(3) [OF assms] comp_def)
  have T: "star_leaves n root = [] \<Longrightarrow> ?T = contrib (ws root) (?M root)"
    using result_root_first [OF assms, of fo ?M] by simp
  have mroot: "snd (source_data (?D1 root)) = write_mem (?M root) (w_recv (ws root)) ?T"
  proof (cases "star_leaves n root = []")
    case True
    with D1 T assms(2) show ?thesis by (simp add: source_new)
  next
    case False
    with D1 have "source_data (?D1 root) = state_data (ws root) (length (star_leaves n root)) ?T (?M root)" by simp
    then show ?thesis by (simp add: state_data_def)
  qed
  have eroot: "eff_bytes (source_data (?D1 root)) = ?T" if "star_leaves n root \<noteq> []"
    using D1 that assms by (simp add: eff_bytes_state length_result agreeD(2))
  have "mems ?D2 = stores n ws (\<lambda>_. ?T) ?M"
  proof
    fix i
    have "i < n \<Longrightarrow> i \<noteq> root \<Longrightarrow> star_leaves n root \<noteq> []"
      by (metis DiffI empty_iff lessThan_iff list.set(1) singletonD star_leaves_simps(2))
    then show "mems ?D2 i = stores n ws (\<lambda>_. ?T) ?M i"
      using assms(2) mroot eroot
      by (cases "i = root") (auto simp: mems_def stores_def star_bcast_data_def snd_stored new_state_def)
  qed
  with run show "\<exists>D'. run_to fo (conf D R quiet) (conf D' (run_rest n r R) quiet) \<and> mems D' = stores n ws (\<lambda>_. ?T) ?M"
    by blast
qed

section \<open>The ring\<close>

lemma ring_reduce_phase: "wf_data n D \<Longrightarrow>
    run_to fo (conf D (run_rest n (\<lambda>i. graph_prog i (reduce_graph (make_circular_graph_pair n r)) @ q i) R) quiet)
      (conf (\<lambda>x. if x < n then line_reduce fo (\<lambda>k. D (ring_vertex n (r + 1) k)) (ring_pos n (r + 1) x) else D x) (run_rest n q R) quiet)"
  using ring.run_line_reduce [where n = n and D = D and b = "r + 1" and r = q and fo = fo
      and R = "run_rest n (\<lambda>i. graph_prog i (reduce_graph (make_circular_graph_pair n r)) @ q i) R"]
  by (simp add: run_rest_at ring.u_less graph_prog_ring_reduce [simplified])

lemma ring_bcast_phase: "wf_data n D \<Longrightarrow>
    run_to fo (conf D (run_rest n (\<lambda>i. graph_prog i (broadcast_graph (make_circular_graph_pair n r)) @ q i) R) quiet)
      (conf (\<lambda>x. if x < n then line_bcast (\<lambda>k. D (ring_vertex n r k)) (ring_pos n r x) else D x) (run_rest n q R) quiet)"
  using ring.run_line_bcast [where n = n and D = D and b = r and r = q and fo = fo
      and R = "run_rest n (\<lambda>i. graph_prog i (broadcast_graph (make_circular_graph_pair n r)) @ q i) R"]
  by (simp add: run_rest_at ring.u_less graph_prog_ring_bcast)

text \<open>The partial results along the reduce line.\<close>

lemma total_snoc: "xs \<noteq> [] \<Longrightarrow> total f (xs @ [x]) = f x (total f xs)"
  by (cases xs) (simp_all add: total_def)

definition line_total :: "float_ops \<Rightarrow> workspace \<Rightarrow> (nat \<Rightarrow> byte list) \<Rightarrow> nat \<Rightarrow> byte list" where
  "line_total fo w0 c k = total (op_of fo w0) (map c [0..<Suc k])"

lemma line_total_simps:
  assumes "is_integer (w_dt w0)"
  shows "line_total fo w0 c 0 = c 0" "line_total fo w0 c (Suc k) = op_of fo w0 (line_total fo w0 c k) (c (Suc k))"
proof -
  have "line_total fo w0 c (Suc k) = op_of fo w0 (c (Suc k)) (line_total fo w0 c k)"
    using total_snoc [of "map c [0..<Suc k]" "op_of fo w0" "c (Suc k)"] by (simp add: line_total_def)
  then show "line_total fo w0 c (Suc k) = op_of fo w0 (line_total fo w0 c k) (c (Suc k))"
    by (simp only: combine_comm [OF assms, of fo _ _ "c (Suc k)"])
qed (simp add: line_total_def total_def)

lemma line_reduce_values:
  assumes int: "is_integer (w_dt w0)"
    and d: "\<And>k. k < n \<Longrightarrow> d k = (new_state (v k), m k)" and op: "\<And>k. k < n \<Longrightarrow> op_of fo (v k) = op_of fo w0"
    and sz: "\<And>k. k < n \<Longrightarrow> bytes (v k) = bytes w0" and "k < n"
  shows "line_reduce fo d k = (if k = 0 then d 0 else state_data (v k) 1 (line_total fo w0 (\<lambda>k. contrib (v k) (m k)) k) (m k)) \<and>
    eff_bytes (line_reduce fo d k) = line_total fo w0 (\<lambda>k. contrib (v k) (m k)) k \<and>
    length (line_total fo w0 (\<lambda>k. contrib (v k) (m k)) k) = bytes w0"
  using \<open>k < n\<close>
proof (induction k)
  case 0
  then show ?case by (simp add: line_total_simps [OF int] d eff_bytes_new sz)
next
  case (Suc k)
  let ?T = "line_total fo w0 (\<lambda>k. contrib (v k) (m k))"
  have len: "length (?T (Suc k)) = bytes w0"
    using int by (simp add: line_total_simps length_combine bytes_def del: is_integer.simps)
  have e: "eff_bytes (line_reduce fo d k) = ?T k" using Suc.IH [OF Suc_lessD [OF Suc.prems]] by blast
  have "line_reduce fo d (Suc k) = state_data (v (Suc k)) 1 (?T (Suc k)) (m (Suc k))"
    using e d [OF Suc.prems] Suc.prems by (simp add: accum_new line_total_simps [OF int] op)
  with len Suc.prems show ?case by (simp add: eff_bytes_state sz)
qed

text \<open>What the second process of the broadcast line sends on after it has stored the result.\<close>

definition relayed :: "workspace \<Rightarrow> mem \<Rightarrow> byte list \<Rightarrow> byte list" where
  "relayed w m b = (if w_send w = w_recv w then b else contrib w m)"

lemma eff_bytes_stored_new: "wf_ws w \<Longrightarrow> length b = bytes w \<Longrightarrow> eff_bytes (stored b (new_state w, m)) = relayed w m b"
  by (auto simp: eff_bytes_def stored_def new_state_def effective_data_def relayed_def contrib_def bytes_def
      wf_ws_def disjoint_or_same_def intro!: read_write_disjoint)

lemma eff_bytes_stored_state: "length b = bytes w \<Longrightarrow> length c = bytes w \<Longrightarrow> 0 < k \<Longrightarrow>
    eff_bytes (stored b (state_data w k c m)) = b"
  by (simp add: eff_bytes_def stored_def state_data_def effective_data_def bytes_def)

lemma line_bcast_relay:
  assumes "\<And>k. 2 \<le> k \<Longrightarrow> k < n \<Longrightarrow> d k = state_data (v k) 1 (x k) (m k) \<and> length (x k) = bytes (v k) \<and> bytes (v k) = l"
    and "length (eff_bytes (line_bcast d 1)) = l" and "2 \<le> k" and "k < n"
  shows "snd (line_bcast d k) = write_mem (m k) (w_recv (v k)) (eff_bytes (line_bcast d 1)) \<and>
    eff_bytes (line_bcast d k) = eff_bytes (line_bcast d 1)"
  using assms(3,4)
proof (induction k rule: nat_induct_at_least)
  case base
  have "line_bcast d 2 = stored (eff_bytes (line_bcast d 1)) (d 2)" by (simp add: numeral_2_eq_2)
  with assms(1) [OF order_refl base] assms(2) show ?case
    by (simp add: eff_bytes_stored_state) (simp add: snd_stored state_data_def)
next
  case (Suc k)
  then have "line_bcast d (Suc k) = stored (eff_bytes (line_bcast d 1)) (d (Suc k))" by simp
  with assms(1) [OF _ Suc.prems] assms(2) Suc.hyps show ?case
    by (simp add: eff_bytes_stored_state) (simp add: snd_stored state_data_def)
qed

lemma agree_integer: "agree n w0 ws \<Longrightarrow> 0 < n \<Longrightarrow> is_integer (w_dt w0)"
  unfolding agree_def wf_ws_def by metis

lemma line_total_ring:
  assumes "agree n w0 ws" and "0 < n"
  shows "line_total fo w0 (\<lambda>k. contrib (ws (ring_vertex n b k)) (M (ring_vertex n b k))) (n - 1) = result_of fo n w0 ws M"
proof -
  let ?c = "\<lambda>i. contrib (ws i) (M i)"
  have inj: "inj_on (ring_vertex n b) {..<n}" using ring.u_eq by (auto simp: inj_on_def)
  have "ring_vertex n b ` {..<n} = {..<n}"
  proof
    show "{..<n} \<subseteq> ring_vertex n b ` {..<n}" using ring.u_pos ring.pos_less by (metis image_eqI lessThan_iff subsetI)
  qed (use ring.u_less in auto)
  then have "mset (map (ring_vertex n b) [0..<n]) = mset [0..<n]"
    using inj by (intro set_eq_iff_mset_eq_distinct [THEN iffD1]) (auto simp: distinct_map atLeast_upt)
  then have "mset (map ?c [0..<n]) = mset (map ?c (map (ring_vertex n b) [0..<n]))" by (simp only: mset_map)
  then have "result_of fo n w0 ws M = total (op_of fo w0) (map ?c (map (ring_vertex n b) [0..<n]))"
    unfolding result_of_def using assms by (intro red.total_perm) (auto simp: ok_contrib)
  then show ?thesis using assms(2) by (simp add: line_total_def comp_def)
qed

definition ring_value :: "float_ops \<Rightarrow> nat \<Rightarrow> nat \<Rightarrow> workspace \<Rightarrow> (nat \<Rightarrow> workspace) \<Rightarrow> (nat \<Rightarrow> mem) \<Rightarrow> nat \<Rightarrow> byte list" where
  "ring_value fo n r w0 ws M i =
     (let t = result_of fo n w0 ws M; next_rank = (r + 1) mod n in
      if ring_pos n r i \<le> 1 then t else relayed (ws next_rank) (M next_rank) t)"

lemma ring_vertex_shift: "0 < n \<Longrightarrow> ring_vertex n r 0 = ring_vertex n (r + 1) (n - 1)"
  "ring_vertex n r (Suc k) = ring_vertex n (r + 1) k"
  by (simp_all add: ring_vertex_def)

text \<open>The broadcast line after the reduce line: \<open>x k\<close> is the process at position \<open>k\<close> of the former.\<close>

lemma bcast_values:
  assumes d0: "n = 1 \<Longrightarrow> d 0 = (new_state (v 0), m 0) \<and> t = contrib (v 0) (m 0)" "2 \<le> n \<Longrightarrow> d 0 = state_data (v 0) 1 t (m 0)"
    and d1: "2 \<le> n \<Longrightarrow> d 1 = (new_state (v 1), m 1)"
    and d2: "\<And>k. 2 \<le> k \<Longrightarrow> k < n \<Longrightarrow> d k = state_data (v k) 1 (x k) (m k) \<and> length (x k) = l"
    and wf: "\<And>k. k < n \<Longrightarrow> wf_ws (v k) \<and> bytes (v k) = l" and t: "length t = l" and k: "k < n"
  shows "snd (line_bcast d k) = write_mem (m k) (w_recv (v k)) (if k \<le> 1 then t else relayed (v 1) (m 1) t)"
proof -
  have e0: "eff_bytes (line_bcast d 0) = t" if "2 \<le> n"
    using d0(2) that wf [of 0] t by (simp add: eff_bytes_state)
  have b1: "line_bcast d 1 = stored t (new_state (v 1), m 1)" if "2 \<le> n"
    using that d1 e0 by simp
  have e1: "eff_bytes (line_bcast d 1) = relayed (v 1) (m 1) t" if "2 \<le> n"
    unfolding b1 [OF that] using that wf [of 1] t by (intro eff_bytes_stored_new) auto
  have len: "length (relayed (v 1) (m 1) t) = l" if "2 \<le> n"
    using that wf [of 1] t by (simp add: relayed_def)
  consider "k = 0" "n = 1" | "k = 0" "2 \<le> n" | "k = 1" "2 \<le> n" | "2 \<le> k" "2 \<le> n" using k by linarith
  then show ?thesis
  proof cases
    case 1
    with d0(1) show ?thesis by (simp add: source_new)
  next
    case 2
    with d0(2) show ?thesis by (simp add: state_data_def source_data_def)
  next
    case 3
    with b1 show ?thesis by (simp add: snd_stored new_state_def)
  next
    case 4
    have "snd (line_bcast d k) = write_mem (m k) (w_recv (v k)) (eff_bytes (line_bcast d 1))"
      using line_bcast_relay [of n d v x m l k] d2 wf e1 len 4 k by simp
    with 4 e1 show ?thesis by simp
  qed
qed

lemma ring_chunk:
  assumes a: "agree n w0 ws"
  shows "passes fo n (graphs (make_circular_graph_pair n r)) ws (\<lambda>M. ring_value fo n r w0 ws M)"
  unfolding passes_def
proof (intro allI impI)
  fix D R q
  assume R: "\<forall>i<n. R i = run_graphs_prog i (ws i) (graphs (make_circular_graph_pair n r)) @ q i"
  let ?M = "mems D" and ?T = "result_of fo n w0 ws (mems D)"
  let ?u = "ring_vertex n (r + 1)" and ?v = "ring_vertex n r"
  let ?D0 = "\<lambda>i. if i < n then (new_state (ws i), ?M i) else D i"
  let ?b = "\<lambda>i. graph_prog i (broadcast_graph (make_circular_graph_pair n r)) @ q i"
  define L where "L = line_reduce fo (\<lambda>k. ?D0 (?u k))"
  let ?D1 = "\<lambda>x. if x < n then L (ring_pos n (r + 1) x) else ?D0 x"
  define B where "B = line_bcast (\<lambda>k. ?D1 (?v k))"
  let ?D2 = "\<lambda>x. if x < n then B (ring_pos n r x) else ?D1 x"
  have st: "st_w (fst (?D1 i)) = ws i" if "i < n" for i
    using that ring.u_pos [of i n "r + 1"] by (simp add: L_def new_state_def)
  have wf0: "wf_data n ?D0" by (intro wf_data_new(2) [OF a]) (simp add: new_state_def)
  have wf1: "wf_data n ?D1" by (rule wf_data_new(2) [OF a st])
  have "run_to fo (conf D R quiet) (conf ?D0 (run_rest n (\<lambda>i. graph_prog i (reduce_graph (make_circular_graph_pair n r)) @ ?b i) R) quiet)"
    using run_begin [of n R ws "graphs (make_circular_graph_pair n r)" q fo D] R by simp
  also have "run_to fo (conf ?D0 (run_rest n (\<lambda>i. graph_prog i (reduce_graph (make_circular_graph_pair n r)) @ ?b i) R) quiet)
      (conf ?D1 (run_rest n ?b R) quiet)"
    unfolding L_def by (rule ring_reduce_phase [OF wf0])
  also have "run_to fo (conf ?D1 (run_rest n ?b R) quiet) (conf ?D2 (run_rest n q R) quiet)"
    unfolding B_def by (rule ring_bcast_phase [OF wf1])
  finally have run: "run_to fo (conf D R quiet) (conf ?D2 (run_rest n q R) quiet)" .
  have "mems ?D2 = stores n ws (ring_value fo n r w0 ws ?M) ?M"
  proof
    fix i
    show "mems ?D2 i = stores n ws (ring_value fo n r w0 ws ?M) ?M i"
    proof (cases "i < n")
      case False
      then show ?thesis by (simp add: mems_def stores_def)
    next
      case True
      then have n: "0 < n" by simp
      define P where "P = line_total fo w0 (\<lambda>k. contrib (ws (?u k)) (?M (?u k)))"
      have lr: "L k = (if k = 0 then ?D0 (?u 0) else state_data (ws (?u k)) 1 (P k) (?M (?u k))) \<and>
          eff_bytes (L k) = P k \<and> length (P k) = bytes w0" if "k < n" for k
        unfolding L_def P_def
      proof (rule line_reduce_values [OF agree_integer [OF a n] _ _ _ that])
        fix j
        assume j: "j < n"
        show "?D0 (?u j) = (new_state (ws (?u j)), ?M (?u j))" using ring.u_less [OF j, of "r + 1"] by simp
        show "op_of fo (ws (?u j)) = op_of fo w0" "bytes (ws (?u j)) = bytes w0"
          by (rule agreeD [OF a ring.u_less [OF j]])+
      qed
      have L: "L k = (if k = 0 then (new_state (ws (?u 0)), ?M (?u 0)) else state_data (ws (?u k)) 1 (P k) (?M (?u k)))"
        "length (P k) = bytes w0" if "k < n" for k
        using lr [OF that] ring.u_less [OF n, of "r + 1"] by simp_all
      have PT: "P (n - 1) = ?T" unfolding P_def by (rule line_total_ring [OF a n])
      have D1: "?D1 (?v 0) = L (n - 1)" "\<And>k. Suc k < n \<Longrightarrow> ?D1 (?v (Suc k)) = L k"
        using n ring.u_less ring.pos_u by (auto simp: ring_vertex_shift(1) [OF n] ring_vertex_shift(2))
      let ?k = "ring_pos n r i"
      have "snd (line_bcast (\<lambda>k. ?D1 (?v k)) ?k) = write_mem (?M (?v ?k)) (w_recv (ws (?v ?k)))
          (if ?k \<le> 1 then ?T else relayed (ws (?v 1)) (?M (?v 1)) ?T)"
      proof (rule bcast_values [where x = "\<lambda>k. P (k - 1)" and l = "bytes w0"])
        show "?k < n" by (rule ring.pos_less [OF True])
        show "length ?T = bytes w0" by (rule length_result [OF a n])
        show "wf_ws (ws (?v k)) \<and> bytes (ws (?v k)) = bytes w0" if "k < n" for k
          using agreeD(1,2) [OF a ring.u_less [OF that]] by simp
        show "?D1 (?v 0) = (new_state (ws (?v 0)), ?M (?v 0)) \<and> ?T = contrib (ws (?v 0)) (?M (?v 0))" if "n = 1"
          using D1(1) L(1) [of 0] PT that ring_vertex_shift(1) [OF n, of r]
          by (simp add: P_def line_total_def total_def)
        show "?D1 (?v 0) = state_data (ws (?v 0)) 1 ?T (?M (?v 0))" if "2 \<le> n"
          using D1(1) L(1) [of "n - 1"] PT that ring_vertex_shift(1) [OF n, of r] by simp
        show "?D1 (?v 1) = (new_state (ws (?v 1)), ?M (?v 1))" if "2 \<le> n"
        proof -
          have v1: "?v 1 = ?u 0" using ring_vertex_shift(2) [of n r 0] by (simp only: One_nat_def)
          have "?D1 (?v 1) = L 0" using D1(2) [of 0] that by (simp only: One_nat_def)
          also have "L 0 = (new_state (ws (?u 0)), ?M (?u 0))" using L(1) [OF n] by simp
          finally show ?thesis unfolding v1 .
        qed
        show "?D1 (?v k) = state_data (ws (?v k)) 1 (P (k - 1)) (?M (?v k)) \<and> length (P (k - 1)) = bytes w0"
          if k: "2 \<le> k" "k < n" for k
        proof -
          from k(1) obtain j where j: "k = Suc j" "0 < j" by (cases k) auto
          have vk: "?v k = ?u j" unfolding j(1) by (rule ring_vertex_shift(2))
          have "?D1 (?v k) = L j" using D1(2) [of j] k j by (simp only: j(1))
          also have "L j = state_data (ws (?u j)) 1 (P j) (?M (?u j))" using L(1) [of j] k j by simp
          finally show ?thesis unfolding vk using L(2) [of j] k j by simp
        qed
      qed
      moreover have "mems ?D2 i = snd (line_bcast (\<lambda>k. ?D1 (?v k)) ?k)"
        using True unfolding mems_def B_def by simp
      moreover have "?v ?k = i" by (rule ring.u_pos [OF True])
      moreover have "?v 1 = (r + 1) mod n" by (simp add: ring_vertex_def)
      ultimately show ?thesis using True by (simp only: stores_def ring_value_def Let_def if_True)
    qed
  qed
  with run show "\<exists>D'. run_to fo (conf D R quiet) (conf D' (run_rest n q R) quiet) \<and>
      mems D' = stores n ws (ring_value fo n r w0 ws ?M) ?M"
    by blast
qed

end
