(* ===== verification/Broadcast.thy ===== *)
theory Broadcast
  imports All_Reduce
begin

text \<open>
  The values after a pass over a broadcast graph alone, as \<open>session::broadcast\<close> makes it. On the
  star every process gets the root's buffer; on the ring \<open>relay_line\<close> says what each position of
  the line passes on.
\<close>

section \<open>Broadcast\<close>

lemma run_begin_one:
  assumes "\<forall>i<n. R i = run_graphs_prog i (ws i) [g] @ r i"
  shows "run_to fo (conf D R quiet) (conf (\<lambda>i. if i < n then (new_state (ws i), mems D i) else D i)
    (run_rest n (\<lambda>i. graph_prog i g @ r i) R) quiet)"
  using run_begin [of n R ws "[g]" r fo D] assms by simp

lemma eff_source_new: "wf_ws w \<Longrightarrow> eff_bytes (source_data (new_state w, m)) = contrib w m"
proof -
  assume wf: "wf_ws w"
  have "source_data (new_state w, m) = stored (contrib w m) (new_state w, m)"
    by (simp only: source_new) (simp add: stored_def new_state_def)
  with wf show ?thesis by (simp add: eff_bytes_stored_new relayed_def)
qed

lemma star_broadcast:
  assumes "agree n w0 ws" and "root < n"
  shows "passes fo n [broadcast_graph (star_pair n root)] ws (\<lambda>M i. contrib (ws root) (M root))"
  unfolding passes_def
proof (intro allI impI)
  fix D R r
  assume R: "\<forall>i<n. R i = run_graphs_prog i (ws i) [broadcast_graph (star_pair n root)] @ r i"
  let ?D0 = "\<lambda>i. if i < n then (new_state (ws i), mems D i) else D i"
  let ?D1 = "star_bcast_data n root ?D0"
  have wf0: "wf_data n ?D0" by (intro wf_data_new(2) [OF assms(1)]) (simp add: new_state_def)
  have run: "run_to fo (conf D R quiet) (conf ?D1 (run_rest n r R) quiet)"
    by (rule leads_trans [OF run_begin_one [OF R] star_bcast_phase [OF assms(2) wf0]])
  have "eff_bytes (source_data (?D0 root)) = contrib (ws root) (mems D root)"
    using assms agreeD(1) [OF assms] by (simp add: eff_source_new)
  then have "mems ?D1 = stores n ws (\<lambda>_. contrib (ws root) (mems D root)) (mems D)"
    using assms(2) by (auto simp: mems_def [of ?D1] stores_def star_bcast_data_def snd_stored new_state_def [of "ws _"]
        source_new [unfolded new_state_def] fun_eq_iff) (simp add: mems_def)
  with run show "\<exists>D'. run_to fo (conf D R quiet) (conf D' (run_rest n r R) quiet) \<and>
      mems D' = stores n ws (\<lambda>_. contrib (ws root) (mems D root)) (mems D)" by blast
qed

text \<open>What position \<open>k\<close> of the line sends on: each process that does not work in place relays its own send buffer.\<close>

fun relay_line :: "(nat \<Rightarrow> workspace) \<Rightarrow> (nat \<Rightarrow> mem) \<Rightarrow> nat \<Rightarrow> byte list" where
  "relay_line v m 0 = contrib (v 0) (m 0)"
| "relay_line v m (Suc k) = relayed (v (Suc k)) (m (Suc k)) (relay_line v m k)"

definition ring_bcast_value :: "nat \<Rightarrow> nat \<Rightarrow> (nat \<Rightarrow> workspace) \<Rightarrow> (nat \<Rightarrow> mem) \<Rightarrow> nat \<Rightarrow> byte list" where
  "ring_bcast_value n r ws M i =
     relay_line (\<lambda>k. ws (ring_vertex n r k)) (\<lambda>k. M (ring_vertex n r k)) (ring_pos n r i - 1)"

lemma line_bcast_new:
  assumes "\<And>k. k < n \<Longrightarrow> d k = (new_state (v k), m k)" and wf: "\<And>k. k < n \<Longrightarrow> wf_ws (v k) \<and> bytes (v k) = l" and "k < n"
  shows "snd (line_bcast d k) = write_mem (m k) (w_recv (v k)) (relay_line v m (k - 1)) \<and>
    eff_bytes (line_bcast d k) = relay_line v m k \<and> length (relay_line v m k) = l"
  using \<open>k < n\<close>
proof (induction k)
  case 0
  then show ?case using assms(1) [of 0] wf [of 0] by (simp add: eff_source_new) (simp add: source_new)
next
  case (Suc k)
  then have "line_bcast d (Suc k) = stored (relay_line v m k) (new_state (v (Suc k)), m (Suc k))" "length (relay_line v m k) = l"
    using assms(1) [OF Suc.prems] by simp_all
  then show ?case using wf [OF Suc.prems]
    by (simp add: eff_bytes_stored_new) (simp add: snd_stored new_state_def relayed_def)
qed

lemma ring_broadcast:
  assumes a: "agree n w0 ws"
  shows "passes fo n [broadcast_graph (make_circular_graph_pair n r)] ws (ring_bcast_value n r ws)"
  unfolding passes_def
proof (intro allI impI)
  fix D R q
  assume R: "\<forall>i<n. R i = run_graphs_prog i (ws i) [broadcast_graph (make_circular_graph_pair n r)] @ q i"
  let ?D0 = "\<lambda>i. if i < n then (new_state (ws i), mems D i) else D i" and ?v = "ring_vertex n r"
  let ?D1 = "\<lambda>x. if x < n then line_bcast (\<lambda>k. ?D0 (?v k)) (ring_pos n r x) else ?D0 x"
  have wf0: "wf_data n ?D0" by (intro wf_data_new(2) [OF a]) (simp add: new_state_def)
  have run: "run_to fo (conf D R quiet) (conf ?D1 (run_rest n q R) quiet)"
    by (rule leads_trans [OF run_begin_one [OF R] ring_bcast_phase [OF wf0]])
  have "mems ?D1 = stores n ws (ring_bcast_value n r ws (mems D)) (mems D)"
  proof
    fix i
    show "mems ?D1 i = stores n ws (ring_bcast_value n r ws (mems D)) (mems D) i"
    proof (cases "i < n")
      case False
      then show ?thesis by (simp add: mems_def stores_def)
    next
      case True
      let ?k = "ring_pos n r i"
      have "snd (line_bcast (\<lambda>k. ?D0 (?v k)) ?k) = write_mem (mems D (?v ?k)) (w_recv (ws (?v ?k)))
          (relay_line (\<lambda>k. ws (?v k)) (\<lambda>k. mems D (?v k)) (?k - 1)) \<and>
          eff_bytes (line_bcast (\<lambda>k. ?D0 (?v k)) ?k) = relay_line (\<lambda>k. ws (?v k)) (\<lambda>k. mems D (?v k)) ?k \<and>
          length (relay_line (\<lambda>k. ws (?v k)) (\<lambda>k. mems D (?v k)) ?k) = bytes w0"
      proof (rule line_bcast_new)
        show "?k < n" by (rule ring.pos_less [OF True])
        show "?D0 (?v k) = (new_state (ws (?v k)), mems D (?v k))" if "k < n" for k
          using ring.u_less [OF that, of r] by simp
        show "wf_ws (ws (?v k)) \<and> bytes (ws (?v k)) = bytes w0" if "k < n" for k
          using agreeD(1,2) [OF a ring.u_less [OF that]] by simp
      qed
      moreover have "mems ?D1 i = snd (line_bcast (\<lambda>k. ?D0 (?v k)) ?k)" using True unfolding mems_def by simp
      moreover have "?v ?k = i" by (rule ring.u_pos [OF True])
      ultimately show ?thesis using True by (simp only: stores_def ring_bcast_value_def if_True)
    qed
  qed
  with run show "\<exists>D'. run_to fo (conf D R quiet) (conf D' (run_rest n q R) quiet) \<and>
      mems D' = stores n ws (ring_bcast_value n r ws (mems D)) (mems D)" by blast
qed

end
