(* ===== verification/Session.thy ===== *)
theory Session
  imports Collective Broadcast
begin

text \<open>
  Sessions: \<open>src/stdml/collective/session.cpp\<close>. \<open>split_work\<close> cuts a workspace into chunks of at
  most \<open>chunk_size\<close> bytes and assigns each a pair of graphs by a hash of its name; the program of a
  process in \<open>all_reduce\<close> runs the chunks one after the other, \<open>broadcast\<close> runs the broadcast graph
  of the first pair. A multi-threaded runtime is chosen unless the configuration says otherwise.

  The lemmas characterise \<open>split_work\<close>: it fails exactly when there is nothing to split, and its
  chunks tile the workspace, have different names and obey the bound.
\<close>

section \<open>Definitions\<close>

definition ceil_div :: "nat \<Rightarrow> nat \<Rightarrow> nat" where
  "ceil_div a b = a div b + (if a mod b \<noteq> 0 then 1 else 0)"

text \<open>\<open>char\<close> is signed on the machines the program runs on.\<close>

definition char_value :: "char \<Rightarrow> int" where
  "char_value c = (let v = int (of_char c :: nat) in if 128 \<le> v then v - 256 else v)"

definition name_based_hash :: "nat \<Rightarrow> string \<Rightarrow> u64" where
  "name_based_hash i name = fold (\<lambda>c h. h + word_of_int (char_value c * char_value c)) name 0"

fun assign_graphs :: "graph_pair_list \<Rightarrow> nat \<Rightarrow> workspace list \<Rightarrow> (workspace \<times> graph list) list res" where
  "assign_graphs gps i [] = Inr []"
| "assign_graphs gps i (w # ws) =
     res_bind (choose_pair gps (unat (name_based_hash i (w_name w)))) (\<lambda>(g0, g1).
     res_bind (assign_graphs gps (i + 1) ws) (\<lambda>pw. Inr ((w, [g0, g1]) # pw)))"

definition split_work :: "workspace \<Rightarrow> graph_pair_list \<Rightarrow> nat \<Rightarrow> (workspace \<times> graph list) list res" where
  "split_work w gps chunk_size =
     res_bind (data_size w) (\<lambda>sz.
     res_bind (split w (ceil_div sz chunk_size)) (\<lambda>ws. assign_graphs gps 0 ws))"

text \<open>\<open>run_graph_pair_list_multi_thread\<close>: the chunks in sequence.\<close>

definition run_graph_pair_list :: "nat \<Rightarrow> workspace \<Rightarrow> graph_pair_list \<Rightarrow> nat \<Rightarrow> instr list res" where
  "run_graph_pair_list rank w gps chunk_size =
     res_map (\<lambda>pw. concat (map (\<lambda>(w, gs). run_graphs_prog rank w gs) pw)) (split_work w gps chunk_size)"

definition all_reduce_chunk_size :: nat where
  "all_reduce_chunk_size = 2 ^ 20"

definition all_reduce_prog :: "graph_pair_list \<Rightarrow> nat \<Rightarrow> workspace \<Rightarrow> instr list res" where
  "all_reduce_prog topo rank w = run_graph_pair_list rank w topo all_reduce_chunk_size"

definition broadcast_ws :: "nat \<Rightarrow> nat \<Rightarrow> nat \<Rightarrow> dtype \<Rightarrow> string \<Rightarrow> workspace" where
  "broadcast_ws inp out cnt dt name =
     \<lparr>w_send = inp, w_recv = out, w_count = cnt, w_dt = dt, w_op = sum_op, w_name = name\<rparr>"

definition broadcast_prog :: "graph_pair_list \<Rightarrow> nat \<Rightarrow> workspace \<Rightarrow> instr list res" where
  "broadcast_prog topo rank w =
     (case topo of
        [] \<Rightarrow> Inl (Undefined_behaviour ''pairs[0] of an empty vector'')
      | p # _ \<Rightarrow> Inr (run_graphs_prog rank w [broadcast_graph p]))"

text \<open>\<open>barrier\<close> reduces one \<open>uint32_t\<close> at \<open>x\<close> into another at \<open>y\<close>.\<close>

definition barrier_ws :: "nat \<Rightarrow> nat \<Rightarrow> workspace" where
  "barrier_ws x y = \<lparr>w_send = x, w_recv = y, w_count = 1, w_dt = u32, w_op = sum_op, w_name = ''''\<rparr>"

text \<open>The typed overloads: pointer and count, a range of \<open>s\<close>-byte elements, and a single object of \<open>sz\<close> bytes.\<close>

definition typed_ws :: "nat \<Rightarrow> nat \<Rightarrow> nat \<Rightarrow> dtype \<Rightarrow> reduce_op \<Rightarrow> string \<Rightarrow> workspace" where
  "typed_ws begin1 begin2 cnt dt oper name = \<lparr>w_send = begin1, w_recv = begin2, w_count = cnt, w_dt = dt, w_op = oper, w_name = name\<rparr>"

definition all_reduce_range_ws :: "nat \<Rightarrow> nat \<Rightarrow> nat \<Rightarrow> nat \<Rightarrow> dtype \<Rightarrow> reduce_op \<Rightarrow> string \<Rightarrow> workspace" where
  "all_reduce_range_ws s begin1 end1 begin2 dt oper name = typed_ws begin1 begin2 ((end1 - begin1) div s) dt oper name"

definition broadcast_range_ws :: "nat \<Rightarrow> nat \<Rightarrow> nat \<Rightarrow> nat \<Rightarrow> dtype \<Rightarrow> workspace" where
  "broadcast_range_ws s begin1 end1 begin2 dt = broadcast_ws begin1 begin2 ((end1 - begin1) div s) dt []"

definition broadcast_value_ws :: "nat \<Rightarrow> nat \<Rightarrow> nat \<Rightarrow> workspace" where
  "broadcast_value_ws x y sz = broadcast_ws x y sz i8 []"

lemma range_ws_count:
  assumes "dtype_size dt = Inr s" and "0 < s" and "end1 = begin1 + cnt * s"
  shows "all_reduce_range_ws s begin1 end1 begin2 dt oper name = typed_ws begin1 begin2 cnt dt oper name"
    and "data_size (broadcast_range_ws s begin1 end1 begin2 dt) = Inr (end1 - begin1)"
    and "data_size (broadcast_value_ws x y sz) = Inr sz"
  using assms by (simp_all add: all_reduce_range_ws_def broadcast_range_ws_def broadcast_value_ws_def broadcast_ws_def data_size_def)

section \<open>Chunks\<close>

lemma ceil_div_bounds: "0 < b \<Longrightarrow> a \<le> ceil_div a b * b" "0 < b \<Longrightarrow> 0 < a \<Longrightarrow> (ceil_div a b - 1) * b < a"
proof -
  assume b: "0 < b"
  have m: "a = a div b * b + a mod b" by simp
  show "a \<le> ceil_div a b * b"
  proof (cases "a mod b = 0")
    case False
    have "a \<le> a div b * b + b" using m mod_less_divisor [OF b, of a] by linarith
    with False show ?thesis by (simp add: ceil_div_def)
  qed (use m in \<open>simp add: ceil_div_def\<close>)
  show "(ceil_div a b - 1) * b < a" if "0 < a"
  proof (cases "a mod b = 0")
    case True
    with m that b have "0 < a div b" by (cases "a div b") auto
    then have "(a div b - 1) * b < a div b * b" using b by simp
    with True m show ?thesis by (simp add: ceil_div_def)
  next
    case False
    then have "a div b * b < a" using m by linarith
    with False show ?thesis by (simp add: ceil_div_def)
  qed
qed

lemma ceil_div_pos: "0 < b \<Longrightarrow> 0 < a \<Longrightarrow> 0 < ceil_div a b"
  using ceil_div_bounds(1) [of b a] by (cases "ceil_div a b") auto

lemma ceil_div_0 [simp]: "ceil_div 0 b = 0"
  by (simp add: ceil_div_def)

lemma assign_graphs_eq: "gps \<noteq> [] \<Longrightarrow> assign_graphs gps i ws =
    Inr (map (\<lambda>w. let p = gps ! (unat (name_based_hash 0 (w_name w)) mod length gps) in (w, graphs p)) ws)"
  by (induction gps i ws rule: assign_graphs.induct) (simp_all add: choose_pair_def Let_def name_based_hash_def)

definition pair_of :: "graph_pair_list \<Rightarrow> string \<Rightarrow> graph_pair" where
  "pair_of gps name = gps ! (unat (name_based_hash 0 name) mod length gps)"

lemma pair_of_in: "gps \<noteq> [] \<Longrightarrow> pair_of gps name \<in> set gps"
  by (simp add: pair_of_def)

lemma split_work_empty:
  assumes "w_count w = 0" and "dtype_size (w_dt w) = Inr s"
  shows "split_work w gps c = Inl (Undefined_behaviour ''division by zero'')"
  using assms by (simp add: split_work_def data_size_def split_zero)

lemma split_work_eq:
  assumes "0 < w_count w" and "dtype_size (w_dt w) = Inr s" and "0 < s" and "0 < c" and "gps \<noteq> []"
    and "even_partition \<lparr>i_begin = 0, i_end = w_count w\<rparr> (ceil_div (w_count w * s) c) = Inr ps"
  shows "split_work w gps c = Inr (map (\<lambda>p. (slice_of w p, graphs (pair_of gps (w_name (slice_of w p))))) ps)"
proof -
  have "split w (ceil_div (w_count w * s) c) = Inr (map (slice_of w) ps)"
    unfolding split_def assms(6) by (simp add: res_mapM_Inr slice_eq [OF assms(2)])
  then show ?thesis
    using assms by (simp add: split_work_def data_size_def assign_graphs_eq pair_of_def Let_def comp_def)
qed

lemma split_work_chunks:
  assumes "0 < w_count w" and "dtype_size (w_dt w) = Inr s" and "0 < s" and "0 < c" and "gps \<noteq> []"
  obtains ps where "split_work w gps c = Inr (map (\<lambda>p. (slice_of w p, graphs (pair_of gps (w_name (slice_of w p))))) ps)"
    and "length ps = ceil_div (w_count w * s) c" and "tiles 0 (w_count w) ps"
    and "even_partition \<lparr>i_begin = 0, i_end = w_count w\<rparr> (ceil_div (w_count w * s) c) = Inr ps"
proof -
  have k: "0 < ceil_div (w_count w * s) c" using assms by (intro ceil_div_pos) simp_all
  from split_cases [OF k assms(2)] obtain ps where
    ps: "even_partition \<lparr>i_begin = 0, i_end = w_count w\<rparr> (ceil_div (w_count w * s) c) = Inr ps"
      "length ps = ceil_div (w_count w * s) c" "tiles 0 (w_count w) ps" by metis
  with that split_work_eq [OF assms ps(1)] show ?thesis by blast
qed

text \<open>Chunks respect the size bound when the element size divides it.\<close>

lemma part_size_bound:
  assumes "0 < s" and "s dvd c" and "0 < c" and "l = n div k \<or> l = n div k + 1 \<and> n mod k \<noteq> 0"
    and "k = ceil_div (n * s) c" and "0 < n"
  shows "l * s \<le> c"
proof -
  obtain d where d: "c = s * d" using assms(2) by blast
  then have "0 < d" using assms(3) by (cases d) auto
  have "n * s \<le> k * c" using ceil_div_bounds(1) [OF assms(3), of "n * s"] assms(5) by simp
  also have "k * c = k * d * s" by (simp add: d)
  finally have nk: "n \<le> k * d" using assms(1) by simp
  have k: "0 < k" using assms by (simp add: ceil_div_pos)
  have "l \<le> d"
  proof (cases "l = n div k")
    case True
    have "n div k \<le> (k * d) div k" using nk by (rule div_le_mono)
    with True k show ?thesis by simp
  next
    case False
    with assms(4) have l: "l = n div k + 1" "n mod k \<noteq> 0" by auto
    have "n div k < d"
    proof (rule ccontr)
      assume "\<not> n div k < d"
      then have "d * k \<le> n div k * k" by simp
      moreover have "k * d = d * k" by (rule mult.commute)
      ultimately have "n \<le> n div k * k" using nk by linarith
      with l(2) show False using div_mult_mod_eq [of n k] by linarith
    qed
    with l show ?thesis by simp
  qed
  then have "l * s \<le> d * s" by (rule mult_le_mono1)
  with d show ?thesis by (simp add: mult.commute)
qed

section \<open>Properties\<close>

text \<open>C18: Splitting a non-empty workspace succeeds; each chunk has at most \<open>chunk_size\<close> bytes, the chunks
  read the send buffer in order and completely, and runs of different chunks have different names.\<close>

theorem split_work_correct:
  assumes "0 < w_count w" and "is_integer (w_dt w)" and "elem_size (w_dt w) dvd c" and "0 < c" and "gps \<noteq> []"
  shows "\<exists>pw. split_work w gps c = Inr pw \<and> distinct (map (w_name \<circ> fst) pw) \<and>
    (\<forall>(v, gs)\<in>set pw. bytes v \<le> c \<and> (\<exists>p\<in>set gps. gs = [reduce_graph p, broadcast_graph p])) \<and>
    concat (map (\<lambda>(v, gs). contrib v m) pw) = contrib w m"
proof -
  let ?s = "elem_size (w_dt w)" and ?k = "ceil_div (w_count w * elem_size (w_dt w)) c"
  note ds = dtype_size_integer [OF assms(2)] and s = elem_size_pos [OF assms(2)]
  have k: "0 < ?k" using assms s by (intro ceil_div_pos) simp_all
  have kc: "?k \<le> w_count w"
  proof -
    have "(?k - 1) * c < w_count w * ?s" using assms s by (intro ceil_div_bounds(2)) simp_all
    moreover have "?s \<le> c" using assms(3,4) by (rule dvd_imp_le)
    then have "(?k - 1) * ?s \<le> (?k - 1) * c" by simp
    ultimately have "(?k - 1) * ?s < w_count w * ?s" by linarith
    then have "?k - 1 < w_count w" by simp
    then show ?thesis by linarith
  qed
  from split_cases [OF k ds] obtain ps where
    ps: "even_partition \<lparr>i_begin = 0, i_end = w_count w\<rparr> ?k = Inr ps" "split w ?k = Inr (map (slice_of w) ps)"
      "\<forall>p\<in>set ps. interval_len p = w_count w div ?k \<or> (interval_len p = w_count w div ?k + 1 \<and> 0 < w_count w mod ?k)" by metis
  have b: "bytes (slice_of w p) \<le> c" if "p \<in> set ps" for p
    using part_size_bound [OF s assms(3,4) _ refl assms(1), of "interval_len p"] ps(3) that
    by (auto simp: bytes_def slice_of_def)
  note eq = split_work_eq [OF assms(1) ds s assms(4,5) ps(1)]
  show ?thesis
    using split_names_distinct [OF k kc ds ps(2)] split_tiles_memory(1) [OF k ds ps(2), of m] b pair_of_in [OF assms(5)]
    by (auto simp: eq comp_def contrib_def bytes_def slice_of_def)
qed

theorem split_work_correct_witness:
  "(let w = \<lparr>w_send = 0, w_recv = 64, w_count = 5, w_dt = u32, w_op = sum_op, w_name = ''x''\<rparr>;
        gps = make_graph_pair_list star 2; m = (\<lambda>a. word_of_nat a) in
    \<exists>pw. split_work w gps 8 = Inr pw \<and> distinct (map (w_name \<circ> fst) pw) \<and>
    (\<forall>(v, gs)\<in>set pw. bytes v \<le> 8 \<and> (\<exists>p\<in>set gps. gs = [reduce_graph p, broadcast_graph p])) \<and>
    concat (map (\<lambda>(v, gs). contrib v m) pw) = contrib w m)"
  unfolding Let_def by (rule split_work_correct) (simp_all add: elem_size_def make_graph_pair_list_nonempty)

text \<open>An all-reduce of zero elements divides by zero, on every topology and for every element type
  that has a size.\<close>

theorem all_reduce_empty:
  assumes "w_count w = 0" and "dtype_size (w_dt w) = Inr s"
  shows "all_reduce_prog topo rank w = Inl (Undefined_behaviour ''division by zero'')"
  using split_work_empty [OF assms] by (simp add: all_reduce_prog_def run_graph_pair_list_def)

theorem all_reduce_empty_witness:
  "all_reduce_prog (make_graph_pair_list star 3) 0
     \<lparr>w_send = 0, w_recv = 64, w_count = 0, w_dt = f32, w_op = sum_op, w_name = ''grad''\<rparr> =
   Inl (Undefined_behaviour ''division by zero'')"
  by (rule all_reduce_empty) simp_all

end
