(* ===== verification/Schedules.thy ===== *)
theory Schedules
  imports Session
begin

text \<open>
  From one pass over a pair of graphs to whole operations, and from one schedule to all of them.
  \<open>passes_all\<close> runs a list of chunks; \<open>exact_chunks\<close> puts the results of the chunks of a workspace
  together; \<open>every_schedule\<close> is the statement the operations satisfy: no schedule runs for ever or
  gets stuck, and each ends with all processes returned and the given memories.
\<close>

section \<open>The statement\<close>

definition idle_ws :: workspace where
  "idle_ws = \<lparr>w_send = 0, w_recv = 0, w_count = 0, w_dt = u8, w_op = sum_op, w_name = ''''\<rparr>"

definition start_proc :: "mem \<Rightarrow> instr list \<Rightarrow> proc" where
  "start_proc m prog = \<lparr>p_mem = m, p_st = new_state idle_ws, p_threads = [], p_rest = prog,
     p_mail = (\<lambda>_. []), p_waitq = (\<lambda>_. []), p_recvq = (\<lambda>_. []), p_fault = None\<rparr>"

definition start_cluster :: "nat \<Rightarrow> (nat \<Rightarrow> mem) \<Rightarrow> (nat \<Rightarrow> instr list) \<Rightarrow> cluster" where
  "start_cluster n M prog = \<lparr>procs = (\<lambda>i. start_proc (M i) (if i < n then prog i else [])), wire = (\<lambda>_ _. [])\<rparr>"

definition returned :: "cluster \<Rightarrow> bool" where
  "returned c \<longleftrightarrow> (\<forall>i. p_rest (procs c i) = [] \<and> list_all finished (p_threads (procs c i)) \<and>
     p_fault (procs c i) = None \<and> (\<forall>j. wire c i j = []))"

definition every_schedule :: "float_ops \<Rightarrow> cluster \<Rightarrow> (nat \<Rightarrow> mem) \<Rightarrow> bool" where
  "every_schedule fo c M \<longleftrightarrow> (\<exists>N. \<forall>ks u. run_labels (exec fo) ks c = Some u \<longrightarrow>
     length ks \<le> N \<and>
     (\<exists>ms v. run_labels (exec fo) ms u = Some v \<and> returned v) \<and>
     (halted (exec fo) u \<longrightarrow> returned u \<and> (\<forall>i. p_mem (procs u i) = M i)))"

section \<open>From one run to every schedule\<close>

lemma start_cluster_inv:
  assumes "\<And>i. i < n \<Longrightarrow> list_all wf_instr (prog i)"
  shows "cluster_inv (start_cluster n M prog)"
  using assms
  by (simp add: cluster_inv_def start_cluster_def proc_inv_def start_proc_def phase_def no_token_def new_state_def
      idle_ws_def wf_ws_def disjoint_or_same_def)

lemma start_at_rest:
  "at_rest (conf (\<lambda>i. (new_state idle_ws, M i)) (\<lambda>i. if i < n then prog i else []) quiet) (start_cluster n M prog)"
  by (simp add: at_rest_def start_cluster_def start_proc_def conf_def clean_def no_token_def)

lemma at_rest_returned:
  "at_rest (conf D (\<lambda>_. []) quiet) c \<Longrightarrow> returned c \<and> (\<forall>i. p_mem (procs c i) = mems D i)"
  by (simp add: at_rest_def returned_def conf_def clean_def mems_def)

lemma run_every_schedule:
  assumes prog: "\<And>i. i < n \<Longrightarrow> list_all wf_instr (prog i)"
    and run: "run_to fo (conf (\<lambda>i. (new_state idle_ws, M i)) (\<lambda>i. if i < n then prog i else []) quiet) (conf D (\<lambda>_. []) quiet)"
    and D: "mems D = M'"
  shows "every_schedule fo (start_cluster n M prog) M'"
proof -
  let ?c = "start_cluster n M prog"
  have inv: "cluster_inv ?c" using prog by (rule start_cluster_inv)
  obtain ls t where t: "run_labels (exec fo) ls ?c = Some t" "at_rest (conf D (\<lambda>_. []) quiet) t"
    using run start_at_rest unfolding leads_def by blast
  have h: "halted (exec fo) t" by (rule at_rest_halted [OF t(2)]) simp_all
  have r: "returned t" "\<forall>i. p_mem (procs t i) = M' i" using at_rest_returned [OF t(2)] D by auto
  have "length ks \<le> length ls \<and> (\<exists>ms v. run_labels (exec fo) ms u = Some v \<and> returned v) \<and>
      (halted (exec fo) u \<longrightarrow> returned u \<and> (\<forall>i. p_mem (procs u i) = M' i))"
    if u: "run_labels (exec fo) ks ?c = Some u" for ks u
    using cl.any_run_completes [OF inv t(1) h u] cl.halted_unique [OF inv t(1) h u] r by blast
  then show ?thesis unfolding every_schedule_def by blast
qed

section \<open>Lists of chunks\<close>

record chunk =
  ch_ws :: "nat \<Rightarrow> workspace"
  ch_graphs :: "graph list"
  ch_value :: "(nat \<Rightarrow> mem) \<Rightarrow> nat \<Rightarrow> byte list"

definition chunks_prog :: "chunk list \<Rightarrow> nat \<Rightarrow> instr list" where
  "chunks_prog cs i = concat (map (\<lambda>c. run_graphs_prog i (ch_ws c i) (ch_graphs c)) cs)"

definition chunks_mem :: "nat \<Rightarrow> chunk list \<Rightarrow> (nat \<Rightarrow> mem) \<Rightarrow> nat \<Rightarrow> mem" where
  "chunks_mem n cs M = fold (\<lambda>c M. stores n (ch_ws c) (ch_value c M) M) cs M"

lemma passes_all:
  assumes "\<And>c. c \<in> set cs \<Longrightarrow> passes fo n (ch_graphs c) (ch_ws c) (ch_value c)"
    and "\<And>i. i < n \<Longrightarrow> R i = chunks_prog cs i @ r i"
  shows "\<exists>D'. run_to fo (conf D R quiet) (conf D' (run_rest n r R) quiet) \<and> mems D' = chunks_mem n cs (mems D)"
  using assms
proof (induction cs arbitrary: D R)
  case Nil
  then have "run_rest n r R = R" by (auto simp: run_rest_def chunks_prog_def)
  then show ?case using leads_refl by (auto simp: chunks_mem_def)
next
  case (Cons c cs)
  let ?r = "\<lambda>i. chunks_prog cs i @ r i"
  have "\<forall>i<n. R i = run_graphs_prog i (ch_ws c i) (ch_graphs c) @ ?r i"
    using Cons.prems(2) by (simp add: chunks_prog_def)
  then obtain D1 where 1: "run_to fo (conf D R quiet) (conf D1 (run_rest n ?r R) quiet)"
      "mems D1 = stores n (ch_ws c) (ch_value c (mems D)) (mems D)"
    using Cons.prems(1) [of c] unfolding passes_def by (meson list.set_intros(1))
  obtain D2 where 2: "run_to fo (conf D1 (run_rest n ?r R) quiet) (conf D2 (run_rest n r (run_rest n ?r R)) quiet)"
      "mems D2 = chunks_mem n cs (mems D1)"
    using Cons.IH [of "run_rest n ?r R" D1] Cons.prems(1) by (auto simp: run_rest_at)
  have "run_to fo (conf D R quiet) (conf D2 (run_rest n r R) quiet)"
    using leads_trans [OF 1(1) 2(1)] by simp
  moreover have "mems D2 = chunks_mem n (c # cs) (mems D)" using 1 2 by (simp add: chunks_mem_def)
  ultimately show ?case by blast
qed

lemma wf_graph_prog: "wf_graph n g \<Longrightarrow> i < n \<Longrightarrow> list_all wf_instr (graph_prog i g)"
  by (simp add: graph_prog_def wf_graph_def)

lemma wf_run_graphs_prog:
  "wf_ws w \<Longrightarrow> \<forall>g\<in>set gs. wf_graph n g \<Longrightarrow> i < n \<Longrightarrow> list_all wf_instr (run_graphs_prog i w gs)"
  unfolding run_graphs_prog_def using wf_graph_prog by (simp add: list_all_iff) (metis (no_types))

lemma chunks_every_schedule:
  assumes "\<And>c. c \<in> set cs \<Longrightarrow> passes fo n (ch_graphs c) (ch_ws c) (ch_value c)"
    and wf: "\<And>c i. c \<in> set cs \<Longrightarrow> i < n \<Longrightarrow> wf_ws (ch_ws c i)" "\<And>c g. c \<in> set cs \<Longrightarrow> g \<in> set (ch_graphs c) \<Longrightarrow> wf_graph n g"
    and prog: "\<And>i. i < n \<Longrightarrow> prog i = chunks_prog cs i"
  shows "every_schedule fo (start_cluster n M prog) (chunks_mem n cs M)"
proof -
  let ?R = "\<lambda>i. if i < n then prog i else []"
  obtain D where D: "run_to fo (conf (\<lambda>i. (new_state idle_ws, M i)) ?R quiet) (conf D (run_rest n (\<lambda>_. []) ?R) quiet)"
      "mems D = chunks_mem n cs (mems (\<lambda>i. (new_state idle_ws, M i)))"
    using passes_all [of cs fo n ?R "\<lambda>_. []" "\<lambda>i. (new_state idle_ws, M i)"] assms(1) prog by auto
  have r: "run_rest n (\<lambda>_. []) ?R = (\<lambda>_. [])" by (auto simp: run_rest_def)
  show ?thesis
  proof (rule run_every_schedule)
    show "run_to fo (conf (\<lambda>i. (new_state idle_ws, M i)) ?R quiet) (conf D (\<lambda>_. []) quiet)" using D(1) r by simp
    show "mems D = chunks_mem n cs M" using D(2) by (simp add: mems_def [of "\<lambda>i. (new_state idle_ws, M i)"])
    show "list_all wf_instr (prog i)" if "i < n" for i
    proof -
      have "list_all wf_instr (run_graphs_prog i (ch_ws c i) (ch_graphs c))" if "c \<in> set cs" for c
        using wf that \<open>i < n\<close> by (intro wf_run_graphs_prog) auto
      then show ?thesis unfolding prog [OF that] chunks_prog_def by (auto simp: list_all_iff)
    qed
  qed
qed

section \<open>Chunks of one workspace\<close>

definition piece :: "nat \<Rightarrow> interval \<Rightarrow> 'a list \<Rightarrow> 'a list" where
  "piece s p xs = take (interval_len p * s) (drop (i_begin p * s) xs)"

lemma take_drop_piece: "i < m \<Longrightarrow> take s (drop (i * s) (take (m * s) xs)) = take s (drop (i * s) xs)"
proof -
  assume "i < m"
  then have "Suc i * s \<le> m * s" by (intro mult_le_mono1) simp
  then have "s \<le> m * s - i * s" by simp
  then show ?thesis by (simp add: drop_take min_def)
qed

lemma transform_piece:
  assumes "i_begin p \<le> i_end p" and "i_end p \<le> n"
  shows "piece s p (transform s n f x y) = transform s (interval_len p) f (piece s p x) (piece s p y)"
    (is "?l = ?r")
proof -
  let ?m = "interval_len p"
  have bound: "i_begin p * s + ?m * s \<le> n * s"
    using assms by (simp add: interval_len_def add_mult_distrib [symmetric])
  have len: "length ?l = ?m * s" using bound by (simp add: piece_def)
  have "chunks s ?m ?l = chunks s ?m ?r"
  proof (rule nth_equalityI)
    fix i
    assume "i < length (chunks s ?m ?l)"
    then have i: "i < ?m" by simp
    then have n: "i_begin p + i < n" using assms by (simp add: interval_len_def)
    have pc: "take s (drop (i * s) (piece s p xs)) = take s (drop ((i_begin p + i) * s) xs)" for xs :: "byte list"
      using i by (simp add: piece_def take_drop_piece add_mult_distrib add.commute)
    show "chunks s ?m ?l ! i = chunks s ?m ?r ! i"
      using i by (simp add: chunks_nth transform_nth [OF i]) (simp only: pc transform_nth [OF n] One_nat_def)
  qed simp
  then have "concat (chunks s ?m ?l) = concat (chunks s ?m ?r)" by simp
  then show ?thesis using len by (simp add: concat_chunks)
qed

lemma combine_piece:
  assumes "is_integer dt" and "i_begin p \<le> i_end p" and "i_end p \<le> n"
  shows "piece (elem_size dt) p (combine fo n dt oper x y) =
    combine fo (interval_len p) dt oper (piece (elem_size dt) p x) (piece (elem_size dt) p y)"
  using assms by (cases dt) (simp_all add: combine_simps transform_piece)

lemma total_hom:
  "xs \<noteq> [] \<Longrightarrow> (\<And>a b. h (f a b) = g (h a) (h b)) \<Longrightarrow> h (total f xs) = total g (map h xs)"
proof -
  assume hom: "\<And>a b. h (f a b) = g (h a) (h b)"
  have "h (fold f ys a) = fold g (map h ys) (h a)" for ys a
    by (induction ys arbitrary: a) (simp_all add: hom)
  moreover assume "xs \<noteq> []"
  ultimately show ?thesis by (cases xs) (simp_all add: total_def)
qed

lemma contrib_slice:
  assumes "i_begin p \<le> i_end p" and "i_end p \<le> w_count w"
  shows "contrib (slice_of w p) m = piece (elem_size (w_dt w)) p (contrib w m)"
proof -
  let ?s = "elem_size (w_dt w)"
  have "i_begin p * ?s + interval_len p * ?s \<le> w_count w * ?s"
    using assms by (simp add: interval_len_def add_mult_distrib [symmetric])
  then obtain r where "w_count w * ?s = i_begin p * ?s + (interval_len p * ?s + r)"
    by (metis add.assoc le_Suc_ex)
  then show ?thesis
    by (simp add: piece_def contrib_def bytes_def slice_of_def read_mem_append)
qed

lemma result_slice:
  assumes a: "agree n w0 ws" and "0 < n" and p: "i_begin p \<le> i_end p" "i_end p \<le> w_count w0"
  shows "result_of fo n (slice_of w0 p) (\<lambda>i. slice_of (ws i) p) M = piece (elem_size (w_dt w0)) p (result_of fo n w0 ws M)"
proof -
  let ?h = "piece (elem_size (w_dt w0)) p"
  have c: "contrib (slice_of (ws i) p) (M i) = ?h (contrib (ws i) (M i))" if "i < n" for i
    using a p that contrib_slice [of p "ws i" "M i"] by (simp add: agree_def)
  have "?h (result_of fo n w0 ws M) = total (op_of fo (slice_of w0 p)) (map ?h (map (\<lambda>i. contrib (ws i) (M i)) [0..<n]))"
    unfolding result_of_def using assms(2) combine_piece [OF agree_integer [OF a assms(2)] p]
    by (intro total_hom) (simp_all add: slice_of_def)
  also have "map ?h (map (\<lambda>i. contrib (ws i) (M i)) [0..<n]) = map (\<lambda>i. contrib (slice_of (ws i) p) (M i)) [0..<n]"
    using c by simp
  finally show ?thesis by (simp add: result_of_def)
qed

lemma agree_slice:
  assumes "agree n w0 ws" and "i_begin p \<le> i_end p" and "i_end p \<le> w_count w0"
  shows "agree n (slice_of w0 p) (\<lambda>i. slice_of (ws i) p)"
proof -
  have "wf_ws (slice_of (ws i) p)" if "i < n" for i
  proof -
    let ?s = "elem_size (w_dt (ws i))"
    have wf: "wf_ws (ws i)" and c: "w_count (ws i) = w_count w0" using assms that by (auto simp: agree_def)
    have "i_begin p * ?s + interval_len p * ?s \<le> w_count w0 * ?s"
      using assms by (simp add: interval_len_def add_mult_distrib [symmetric])
    with wf c show ?thesis by (auto simp: wf_ws_def slice_of_def disjoint_or_same_def simp del: is_integer.simps)
  qed
  with assms show ?thesis by (simp add: agree_def slice_of_def)
qed

lemma write_mem_append: "write_mem (write_mem m p xs) (p + length xs) ys = write_mem m p (xs @ ys)"
  by (auto simp: write_mem_def fun_eq_iff nth_append)

text \<open>Earlier chunks leave the send buffers of later ones alone.\<close>

lemma contrib_later:
  assumes "wf_ws w" and "i_begin p \<le> i_end p" and "i_end p \<le> w_count w" and "length b = i_begin p * elem_size (w_dt w)"
  shows "contrib (slice_of w p) (write_mem m (w_recv w) b) = contrib (slice_of w p) m"
proof -
  let ?s = "elem_size (w_dt w)"
  have bound: "i_begin p * ?s + interval_len p * ?s \<le> w_count w * ?s"
    using assms by (simp add: interval_len_def add_mult_distrib [symmetric])
  have "w_send (slice_of w p) + bytes (slice_of w p) \<le> w_recv w \<or> w_recv w + length b \<le> w_send (slice_of w p)"
    using assms bound by (auto simp: wf_ws_def disjoint_or_same_def slice_of_def bytes_def simp del: is_integer.simps)
  then show ?thesis unfolding contrib_def by (rule read_write_disjoint)
qed

definition exact_chunk :: "float_ops \<Rightarrow> nat \<Rightarrow> workspace \<Rightarrow> (nat \<Rightarrow> workspace) \<Rightarrow> (string \<Rightarrow> graph list) \<Rightarrow> interval \<Rightarrow> chunk" where
  "exact_chunk fo n w0 ws gs p = \<lparr>ch_ws = (\<lambda>i. slice_of (ws i) p), ch_graphs = gs (w_name (slice_of w0 p)),
     ch_value = (\<lambda>M _. result_of fo n (slice_of w0 p) (\<lambda>i. slice_of (ws i) p) M)\<rparr>"

lemma exact_chunks:
  assumes a: "agree n w0 ws" and n: "0 < n" and t: "tiles a0 (w_count w0) ps"
  shows "chunks_mem n (map (exact_chunk fo n w0 ws gs) ps) (stores n ws (\<lambda>_. take (a0 * elem_size (w_dt w0)) (result_of fo n w0 ws M)) M) =
    stores n ws (\<lambda>_. result_of fo n w0 ws M) M"
  using t
proof (induction ps arbitrary: a0)
  case Nil
  then show ?case by (simp add: chunks_mem_def length_result [OF a n] bytes_def)
next
  case (Cons p ps)
  let ?s = "elem_size (w_dt w0)" and ?T = "result_of fo n w0 ws M"
  let ?M = "stores n ws (\<lambda>_. take (a0 * ?s) ?T) M"
  have p: "i_begin p = a0" "i_begin p \<le> i_end p" "tiles (i_end p) (w_count w0) ps" using Cons.prems by auto
  have le: "i_end p \<le> w_count w0" using p(3) by (rule tiles_le)
  have len: "length (take (a0 * ?s) ?T) = i_begin p * ?s"
  proof -
    have "a0 * ?s \<le> w_count w0 * ?s" using p le by (intro mult_le_mono1) simp
    then show ?thesis using p(1) by (simp add: length_result [OF a n] bytes_def)
  qed
  have c: "contrib (slice_of (ws i) p) (?M i) = contrib (slice_of (ws i) p) (M i)" if "i < n" for i
    using contrib_later [of "ws i" p "take (a0 * ?s) ?T"] a that p(2) le len by (simp add: stores_def agree_def)
  then have "map (\<lambda>i. contrib (slice_of (ws i) p) (?M i)) [0..<n] = map (\<lambda>i. contrib (slice_of (ws i) p) (M i)) [0..<n]"
    by simp
  then have v: "result_of fo n (slice_of w0 p) (\<lambda>i. slice_of (ws i) p) ?M = piece ?s p ?T"
    using result_slice [OF a n p(2) le, of fo M] by (simp only: result_of_def)
  have "take (a0 * ?s) ?T @ piece ?s p ?T = take (i_end p * ?s) ?T"
    using p(1,2) by (simp add: piece_def interval_len_def take_add [symmetric] add_mult_distrib [symmetric])
  then have "stores n (\<lambda>i. slice_of (ws i) p) (\<lambda>_. piece ?s p ?T) ?M = stores n ws (\<lambda>_. take (i_end p * ?s) ?T) M"
    using len write_mem_append [of _ _ "take (a0 * ?s) ?T" "piece ?s p ?T"] a
    by (auto simp: stores_def fun_eq_iff slice_of_def agree_def)
  then have "chunks_mem n (map (exact_chunk fo n w0 ws gs) (p # ps)) ?M =
      chunks_mem n (map (exact_chunk fo n w0 ws gs) ps) (stores n ws (\<lambda>_. take (i_end p * ?s) ?T) M)"
    using v by (simp add: chunks_mem_def exact_chunk_def)
  with Cons.IH [OF p(3)] show ?case by simp
qed

section \<open>Whole operations\<close>

lemma passes_cong: "passes fo n gs ws v \<Longrightarrow> (\<And>M i. i < n \<Longrightarrow> v M i = v' M i) \<Longrightarrow> passes fo n gs ws v'"
proof -
  assume p: "passes fo n gs ws v" and e: "\<And>M i. i < n \<Longrightarrow> v M i = v' M i"
  have "stores n ws (v M) M = stores n ws (v' M) M" for M using e by (auto simp: stores_def)
  with p show ?thesis unfolding passes_def by simp
qed

text \<open>All processes cut their workspace in the same way.\<close>

lemma all_reduce_prog_chunks:
  assumes a: "agree n w0 ws" and "0 < n" and "0 < w_count w0" and "gps \<noteq> []"
  obtains ps where "tiles 0 (w_count w0) ps"
    and "\<And>fo i. i < n \<Longrightarrow> all_reduce_prog gps i (ws i) =
      Inr (chunks_prog (map (exact_chunk fo n w0 ws (\<lambda>nm. graphs (pair_of gps nm))) ps) i)"
proof -
  let ?s = "elem_size (w_dt w0)"
  have int: "is_integer (w_dt w0)" by (rule agree_integer [OF a assms(2)])
  note ds = dtype_size_integer [OF int] and s = elem_size_pos [OF int]
  have c: "0 < all_reduce_chunk_size" by (simp add: all_reduce_chunk_size_def)
  from split_work_chunks [OF assms(3) ds s c assms(4)] obtain ps where
    ps: "tiles 0 (w_count w0) ps"
      "even_partition \<lparr>i_begin = 0, i_end = w_count w0\<rparr> (ceil_div (w_count w0 * ?s) all_reduce_chunk_size) = Inr ps" by metis
  have "all_reduce_prog gps i (ws i) = Inr (chunks_prog (map (exact_chunk fo n w0 ws (\<lambda>nm. graphs (pair_of gps nm))) ps) i)"
    if i: "i < n" for fo i
  proof -
    have eq: "w_count (ws i) = w_count w0" "w_dt (ws i) = w_dt w0" "w_name (ws i) = w_name w0"
      using a i by (auto simp: agree_def)
    have "w_name (slice_of (ws i) p) = w_name (slice_of w0 p)" for p using eq by (simp add: slice_of_def)
    moreover have "split_work (ws i) gps all_reduce_chunk_size =
        Inr (map (\<lambda>p. (slice_of (ws i) p, graphs (pair_of gps (w_name (slice_of (ws i) p))))) ps)"
      by (rule split_work_eq [where s = ?s]) (use eq ps(2) assms(3,4) ds s c in simp_all)
    ultimately show ?thesis
      by (simp add: all_reduce_prog_def run_graph_pair_list_def chunks_prog_def exact_chunk_def comp_def)
  qed
  with ps(1) that show ?thesis by blast
qed

lemma all_reduce_succeeds:
  assumes "agree n w0 ws" and "0 < n" and "0 < w_count w0" and "gps \<noteq> []"
  shows "\<exists>prog. \<forall>i<n. all_reduce_prog gps i (ws i) = Inr (prog i)"
proof (rule all_reduce_prog_chunks [OF assms])
  fix ps
  assume "\<And>fo i. i < n \<Longrightarrow> all_reduce_prog gps i (ws i) =
    Inr (chunks_prog (map (exact_chunk fo n w0 ws (\<lambda>nm. graphs (pair_of gps nm))) ps) i)"
  then show ?thesis by (intro exI allI impI)
qed

text \<open>Chunks that run to the end on well-formed workspaces and graphs.\<close>

definition chunks_ok :: "float_ops \<Rightarrow> nat \<Rightarrow> chunk list \<Rightarrow> bool" where
  "chunks_ok fo n cs \<longleftrightarrow> (\<forall>c\<in>set cs. passes fo n (ch_graphs c) (ch_ws c) (ch_value c) \<and>
     (\<forall>i<n. wf_ws (ch_ws c i)) \<and> (\<forall>g\<in>set (ch_graphs c). wf_graph n g))"

lemma chunks_ok_every_schedule:
  "chunks_ok fo n cs \<Longrightarrow> (\<And>i. i < n \<Longrightarrow> prog i = chunks_prog cs i) \<Longrightarrow>
     every_schedule fo (start_cluster n M prog) (chunks_mem n cs M)"
  by (rule chunks_every_schedule) (auto simp: chunks_ok_def)

lemma all_reduce_chunks:
  assumes a: "agree n w0 ws" and n: "0 < n" and "0 < w_count w0" and "gps \<noteq> []"
    and wf: "\<And>gp g. gp \<in> set gps \<Longrightarrow> g \<in> set (graphs gp) \<Longrightarrow> wf_graph n g"
    and pass: "\<And>gp p. gp \<in> set gps \<Longrightarrow> i_begin p \<le> i_end p \<Longrightarrow> i_end p \<le> w_count w0 \<Longrightarrow>
      passes fo n (graphs gp) (\<lambda>i. slice_of (ws i) p) (\<lambda>M _. result_of fo n (slice_of w0 p) (\<lambda>i. slice_of (ws i) p) M)"
  obtains cs where "chunks_ok fo n cs" and "\<And>i. i < n \<Longrightarrow> all_reduce_prog gps i (ws i) = Inr (chunks_prog cs i)"
    and "\<And>M. chunks_mem n cs M = stores n ws (\<lambda>_. result_of fo n w0 ws M) M"
proof -
  let ?gs = "\<lambda>nm. graphs (pair_of gps nm)"
  from all_reduce_prog_chunks [OF a n assms(3,4)] obtain ps where t: "tiles 0 (w_count w0) ps"
    and pc: "\<And>i. i < n \<Longrightarrow> all_reduce_prog gps i (ws i) = Inr (chunks_prog (map (exact_chunk fo n w0 ws ?gs) ps) i)"
    by metis
  note in_gps = pair_of_in [OF assms(4)]
  have "chunks_ok fo n (map (exact_chunk fo n w0 ws ?gs) ps)"
    unfolding chunks_ok_def
  proof (intro ballI)
    fix c
    assume "c \<in> set (map (exact_chunk fo n w0 ws ?gs) ps)"
    then obtain p where p: "p \<in> set ps" "c = exact_chunk fo n w0 ws ?gs p" by auto
    note b = tiles_bounds [OF t p(1)]
    show "passes fo n (ch_graphs c) (ch_ws c) (ch_value c) \<and> (\<forall>i<n. wf_ws (ch_ws c i)) \<and> (\<forall>g\<in>set (ch_graphs c). wf_graph n g)"
      using pass [OF in_gps] agree_slice [OF a, of p] b wf [OF in_gps] unfolding p(2) exact_chunk_def by (simp add: agree_def)
  qed
  moreover have "chunks_mem n (map (exact_chunk fo n w0 ws ?gs) ps) M = stores n ws (\<lambda>_. result_of fo n w0 ws M) M" for M
  proof -
    have "stores n ws (\<lambda>_. take (0 * elem_size (w_dt w0)) (result_of fo n w0 ws M)) M = M"
      by (auto simp: stores_def write_mem_def fun_eq_iff)
    with exact_chunks [OF a n t, of fo ?gs M] show ?thesis by simp
  qed
  ultimately show ?thesis using that pc by blast
qed

lemma all_reduce_exact:
  assumes "agree n w0 ws" and "0 < n" and "0 < w_count w0" and "gps \<noteq> []"
    and "\<And>gp g. gp \<in> set gps \<Longrightarrow> g \<in> set (graphs gp) \<Longrightarrow> wf_graph n g"
    and "\<And>gp p. gp \<in> set gps \<Longrightarrow> i_begin p \<le> i_end p \<Longrightarrow> i_end p \<le> w_count w0 \<Longrightarrow>
      passes fo n (graphs gp) (\<lambda>i. slice_of (ws i) p) (\<lambda>M _. result_of fo n (slice_of w0 p) (\<lambda>i. slice_of (ws i) p) M)"
    and prog: "\<And>i. i < n \<Longrightarrow> all_reduce_prog gps i (ws i) = Inr (prog i)"
  shows "every_schedule fo (start_cluster n M prog) (stores n ws (\<lambda>_. result_of fo n w0 ws M) M)"
proof (rule all_reduce_chunks [OF assms(1-6)])
  fix cs
  assume cs: "chunks_ok fo n cs" "\<And>i. i < n \<Longrightarrow> all_reduce_prog gps i (ws i) = Inr (chunks_prog cs i)"
    "\<And>M. chunks_mem n cs M = stores n ws (\<lambda>_. result_of fo n w0 ws M) M"
  then have "prog i = chunks_prog cs i" if "i < n" for i using prog [OF that] that by simp
  then show ?thesis using chunks_ok_every_schedule [OF cs(1), of prog M] cs(3) by simp
qed

text \<open>On the star every chunk gives every process the result.\<close>

lemma star_pass:
  assumes "agree n w0 ws" and "0 < n" and "gp \<in> set (make_graph_pair_list star n)"
    and "i_begin p \<le> i_end p" and "i_end p \<le> w_count w0"
  shows "passes fo n (graphs gp) (\<lambda>i. slice_of (ws i) p) (\<lambda>M _. result_of fo n (slice_of w0 p) (\<lambda>i. slice_of (ws i) p) M)"
proof -
  have "gp = star_pair n 0" using assms(3) by (simp add: make_graph_pair_list_def make_star)
  then show ?thesis using star_chunk [OF agree_slice [OF assms(1,4,5)] assms(2)] by simp
qed

lemma star_chunks:
  assumes "agree n w0 ws" and "0 < n" and "0 < w_count w0"
  obtains cs where "chunks_ok fo n cs"
    and "\<And>i. i < n \<Longrightarrow> all_reduce_prog (make_graph_pair_list star n) i (ws i) = Inr (chunks_prog cs i)"
    and "\<And>M. chunks_mem n cs M = stores n ws (\<lambda>_. result_of fo n w0 ws M) M"
  by (rule all_reduce_chunks [OF assms make_graph_pair_list_nonempty [OF assms(2)]])
    (use wf_pair assms(2) star_pass [OF assms(1,2)] in auto)

lemma ring_value_in_place:
  assumes "w_send (ws ((r + 1) mod n)) = w_recv (ws ((r + 1) mod n))"
  shows "ring_value fo n r w0 ws M i = result_of fo n w0 ws M"
  using assms by (simp add: ring_value_def relayed_def Let_def)

lemma one_pass_every_schedule:
  assumes "passes fo n gs ws v" and "\<And>i. i < n \<Longrightarrow> wf_ws (ws i)" and "\<And>g. g \<in> set gs \<Longrightarrow> wf_graph n g"
    and "\<And>i. i < n \<Longrightarrow> prog i = run_graphs_prog i (ws i) gs"
  shows "every_schedule fo (start_cluster n M prog) (stores n ws (v M) M)"
  using chunks_every_schedule [of "[\<lparr>ch_ws = ws, ch_graphs = gs, ch_value = v\<rparr>]" fo n prog M] assms
  by (simp add: chunks_prog_def chunks_mem_def)

end
