(* ===== verification/Consistent.thy ===== *)
theory Consistent
  imports Schedules
begin

text \<open>
  Agreement: \<open>session::consistent\<close> of \<open>src/stdml/collective/session.cpp\<close>, over the scalar and
  contiguous overloads of \<open>all_reduce\<close> in \<open>session.hpp\<close>. A process compares the minimum of all sizes
  with their maximum and, when they are equal, the minimum of all data with their maximum.

  Successive calls of \<open>all_reduce\<close> on the star behave as if each ended before the next one starts
  (\<open>all_reduces_every_schedule\<close>), although processes run ahead of each other. On unsigned elements the
  minimum of a list of buffers is its maximum only if the buffers are equal (\<open>min_max_equal\<close>), so all
  processes return whether their data agree. On the ring, processes that only relay the result see
  one and the same buffer twice, and return true whatever the data.
\<close>

section \<open>Definitions\<close>

text \<open>
  The objects of one call: the parameter \<open>size\<close>, the two results of the scalar reductions, the data
  and the vectors \<open>y\<close> and \<open>z\<close>, by their addresses.
\<close>

record frame =
  f_size :: nat
  f_size_1 :: nat
  f_size_2 :: nat
  f_ptr :: nat
  f_y :: nat
  f_z :: nat

definition scalar_ws :: "nat \<Rightarrow> nat \<Rightarrow> reduce_op \<Rightarrow> workspace" where
  "scalar_ws x y oper = \<lparr>w_send = x, w_recv = y, w_count = 1, w_dt = u64, w_op = oper, w_name = []\<rparr>"

definition range_ws :: "nat \<Rightarrow> nat \<Rightarrow> nat \<Rightarrow> reduce_op \<Rightarrow> workspace" where
  "range_ws inp out k oper = \<lparr>w_send = inp, w_recv = out, w_count = k, w_dt = u8, w_op = oper, w_name = []\<rparr>"

text \<open>The workspaces of the calls of \<open>all_reduce\<close>; \<open>same\<close> is the outcome of \<open>size_1 == size_2\<close>.\<close>

definition consistent_calls :: "frame \<Rightarrow> nat \<Rightarrow> bool \<Rightarrow> workspace list" where
  "consistent_calls fr sz same =
     [scalar_ws (f_size fr) (f_size_1 fr) min_op, scalar_ws (f_size fr) (f_size_2 fr) max_op] @
     (if same \<and> sz \<noteq> 0 then [range_ws (f_ptr fr) (f_y fr) sz min_op, range_ws (f_ptr fr) (f_z fr) sz max_op] else [])"

definition all_reduce_progs :: "graph_pair_list \<Rightarrow> nat \<Rightarrow> workspace list \<Rightarrow> instr list res" where
  "all_reduce_progs topo me ws = res_map concat (res_mapM (all_reduce_prog topo me) ws)"

definition consistent_prog :: "graph_pair_list \<Rightarrow> nat \<Rightarrow> frame \<Rightarrow> nat \<Rightarrow> bool \<Rightarrow> instr list res" where
  "consistent_prog topo me fr sz same = all_reduce_progs topo me (consistent_calls fr sz same)"

text \<open>What the process reads from its memory: whether the sizes agree, and what it returns.\<close>

definition same_sizes :: "frame \<Rightarrow> mem \<Rightarrow> bool" where
  "same_sizes fr m \<longleftrightarrow> read_mem m (f_size_1 fr) 8 = read_mem m (f_size_2 fr) 8"

definition consistent :: "frame \<Rightarrow> nat \<Rightarrow> mem \<Rightarrow> bool" where
  "consistent fr sz m \<longleftrightarrow> same_sizes fr m \<and> (sz = 0 \<or> read_mem m (f_y fr) sz = read_mem m (f_z fr) sz)"

section \<open>Minimum and maximum\<close>

definition elem :: "nat \<Rightarrow> nat \<Rightarrow> byte list \<Rightarrow> 'a::len word" where
  "elem s i b = word_of_bytes (take s (drop (i * s) b))"

lemma elem_transform:
  fixes f :: "'a::len word \<Rightarrow> 'a word \<Rightarrow> 'a word"
  assumes "256 ^ s = (2::nat) ^ LENGTH('a)" and "i < n"
  shows "elem s i (transform s n f x y) = f (elem s i x) (elem s i y)"
  using assms by (simp add: elem_def chunks_nth [symmetric] chunks_transform word_bytes_word)

lemma word_of_bytes_inj:
  assumes "256 ^ s = (2::nat) ^ LENGTH('a::len)" and "length x = s" and "length y = s"
    and "(word_of_bytes x :: 'a word) = word_of_bytes y"
  shows "x = y"
proof -
  have "le_dec x < 2 ^ LENGTH('a)" "le_dec y < 2 ^ LENGTH('a)"
    using le_dec_bound [of x] le_dec_bound [of y] assms(1-3) by simp_all
  then have "le_dec x = le_dec y"
    using arg_cong [OF assms(4), of unat] by (simp add: word_of_bytes_def unat_of_nat)
  with assms show ?thesis by (intro le_dec_inj) simp_all
qed

lemma elem_eqI:
  assumes s: "256 ^ s = (2::nat) ^ LENGTH('a::len)" and "length x = n * s" and "length y = n * s"
    and e: "\<And>i. i < n \<Longrightarrow> (elem s i x :: 'a word) = elem s i y"
  shows "x = y"
proof -
  have "chunks s n x = chunks s n y"
  proof (rule nth_equalityI)
    fix i assume "i < length (chunks s n x)"
    then have i: "i < n" by simp
    then have "chunks s n x ! i \<in> set (chunks s n x)" "chunks s n y ! i \<in> set (chunks s n y)" by simp_all
    then have "length (chunks s n x ! i) = s" "length (chunks s n y ! i) = s"
      using assms(2,3) by (meson chunks_length)+
    with e [OF i] i show "chunks s n x ! i = chunks s n y ! i"
      by (intro word_of_bytes_inj [OF s]) (simp_all add: elem_def chunks_nth)
  qed simp
  then show ?thesis using assms by (metis concat_chunks)
qed

lemma total_min_le:
  fixes xs :: "'a::linorder list"
  shows "x \<in> set xs \<Longrightarrow> total (std_min (<)) xs \<le> x" and "x \<in> set xs \<Longrightarrow> x \<le> total (std_max (<)) xs"
proof -
  have mn: "fold (std_min (<)) ys a \<le> a \<and> (\<forall>y\<in>set ys. fold (std_min (<)) ys a \<le> y)" for ys and a :: 'a
    by (induction ys arbitrary: a) (auto simp: std_min_def, (meson order_trans less_imp_le not_less)+)
  have mx: "a \<le> fold (std_max (<)) ys a \<and> (\<forall>y\<in>set ys. y \<le> fold (std_max (<)) ys a)" for ys and a :: 'a
    by (induction ys arbitrary: a) (auto simp: std_max_def, (meson order_trans less_imp_le not_less)+)
  show "total (std_min (<)) xs \<le> x" if "x \<in> set xs"
    using that mn [of "tl xs" "hd xs"] by (cases xs) (auto simp: total_def)
  show "x \<le> total (std_max (<)) xs" if "x \<in> set xs"
    using that mx [of "hd xs" "tl xs"] by (cases xs) (auto simp: total_def)
qed

lemma total_idem: "(\<And>x. x \<in> set xs \<Longrightarrow> x = a) \<Longrightarrow> xs \<noteq> [] \<Longrightarrow> f a a = a \<Longrightarrow> total f xs = a"
proof -
  assume f: "f a a = a"
  have r: "fold f (replicate k a) a = a" for k by (induction k) (simp_all add: f)
  have "fold f ys a = a" if "\<And>x. x \<in> set ys \<Longrightarrow> x = a" for ys
    using r [of "length ys"] replicate_length_same [of ys a] that by metis
  then show "(\<And>x. x \<in> set xs \<Longrightarrow> x = a) \<Longrightarrow> xs \<noteq> [] \<Longrightarrow> total f xs = a"
    by (cases xs) (auto simp: total_def)
qed

lemma transform_min_max:
  assumes s: "256 ^ s = (2::nat) ^ LENGTH('a::len)" and "xs \<noteq> []" and len: "\<And>x. x \<in> set xs \<Longrightarrow> length x = n * s"
  shows "total (transform s n (std_min ((<) :: 'a word \<Rightarrow> _))) xs = total (transform s n (std_max ((<) :: 'a word \<Rightarrow> _))) xs \<longleftrightarrow>
    (\<forall>x\<in>set xs. \<forall>y\<in>set xs. x = y)" (is "?mn = ?mx \<longleftrightarrow> _")
proof
  assume eq: "?mn = ?mx"
  show "\<forall>x\<in>set xs. \<forall>y\<in>set xs. x = y"
  proof (intro ballI)
    fix x y assume x: "x \<in> set xs" and y: "y \<in> set xs"
    show "x = y"
    proof (rule elem_eqI [OF s])
      fix i assume i: "i < n"
      let ?h = "elem s i :: byte list \<Rightarrow> 'a word"
      have "?h ?mn = total (std_min (<)) (map ?h xs)" "?h ?mx = total (std_max (<)) (map ?h xs)"
        using assms(2) elem_transform [OF s i] by (simp_all add: total_hom)
      with eq have e: "total (std_min (<)) (map ?h xs) = total (std_max (<)) (map ?h xs)" by simp
      have "?h a = total (std_min (<)) (map ?h xs)" if "a \<in> set xs" for a
        using total_min_le [of "?h a" "map ?h xs"] that e by (intro order_antisym) simp_all
      with x y show "?h x = ?h y" by metis
    qed (use len x y in simp_all)
  qed
next
  assume all: "\<forall>x\<in>set xs. \<forall>y\<in>set xs. x = y"
  let ?a = "hd xs"
  have a: "?a \<in> set xs" using assms(2) by simp
  have "transform s n f ?a ?a = ?a" if "\<And>v. f v v = v" for f :: "'a word \<Rightarrow> 'a word \<Rightarrow> 'a word"
    using that len [OF a] by (intro elem_eqI [OF s, where n = n]) (simp_all add: elem_transform [OF s])
  then have "total (transform s n f) xs = ?a" if "\<And>v. f v v = v" for f :: "'a word \<Rightarrow> 'a word \<Rightarrow> 'a word"
    using all a assms(2) that by (intro total_idem) auto
  then show "?mn = ?mx" by (simp add: std_min_def std_max_def)
qed

lemma min_max_equal:
  assumes "dt = u8 \<or> dt = u64" and "xs \<noteq> []" and "\<And>x. x \<in> set xs \<Longrightarrow> length x = n * elem_size dt"
  shows "total (combine fo n dt min_op) xs = total (combine fo n dt max_op) xs \<longleftrightarrow> (\<forall>x\<in>set xs. \<forall>y\<in>set xs. x = y)"
proof -
  have c: "combine fo n u8 min_op = transform 1 n (std_min ((<) :: 8 word \<Rightarrow> _))"
    "combine fo n u8 max_op = transform 1 n (std_max ((<) :: 8 word \<Rightarrow> _))"
    "combine fo n u64 min_op = transform 8 n (std_min ((<) :: 64 word \<Rightarrow> _))"
    "combine fo n u64 max_op = transform 8 n (std_max ((<) :: 64 word \<Rightarrow> _))"
    by (intro ext; simp add: combine_simps transform_def)+
  from assms show ?thesis
    using transform_min_max [where 'a = 8, of 1 xs n] transform_min_max [where 'a = 64, of 8 xs n]
    by (auto simp: c elem_size_def)
qed

corollary min_max_equal_upt:
  assumes "dt = u8 \<or> dt = u64" and "0 < n" and "\<And>i. i < n \<Longrightarrow> length (b i) = k * elem_size dt"
  shows "total (combine fo k dt min_op) (map b [0..<n]) = total (combine fo k dt max_op) (map b [0..<n]) \<longleftrightarrow>
    (\<forall>i<n. \<forall>j<n. b i = b j)"
proof -
  have "total (combine fo k dt min_op) (map b [0..<n]) = total (combine fo k dt max_op) (map b [0..<n]) \<longleftrightarrow>
      (\<forall>x\<in>set (map b [0..<n]). \<forall>y\<in>set (map b [0..<n]). x = y)"
    by (rule min_max_equal [OF assms(1)]) (use assms in auto)
  also have "\<dots> \<longleftrightarrow> (\<forall>i<n. \<forall>j<n. b i = b j)"
    unfolding set_map set_upt ball_simps(9) by (simp only: Ball_def atLeastLessThan_iff le0 simp_thms)
  finally show ?thesis .
qed

section \<open>Successive calls\<close>

text \<open>A call of a collective by \<open>n\<close> processes: what they agree on, and the workspace of each.\<close>

type_synonym call = "workspace \<times> (nat \<Rightarrow> workspace)"

definition good_call :: "nat \<Rightarrow> call \<Rightarrow> bool" where
  "good_call n x \<longleftrightarrow> agree n (fst x) (snd x) \<and> 0 < w_count (fst x)"

definition after_call :: "float_ops \<Rightarrow> nat \<Rightarrow> call \<Rightarrow> (nat \<Rightarrow> mem) \<Rightarrow> nat \<Rightarrow> mem" where
  "after_call fo n x M = stores n (snd x) (\<lambda>_. result_of fo n (fst x) (snd x) M) M"

lemma all_reduce_progs_Cons:
  "all_reduce_prog topo me w = Inr p \<Longrightarrow> all_reduce_progs topo me ws = Inr q \<Longrightarrow> all_reduce_progs topo me (w # ws) = Inr (p @ q)"
  by (auto simp: all_reduce_progs_def res_map_eq_Inr)

definition after_calls :: "nat \<Rightarrow> (call \<Rightarrow> (nat \<Rightarrow> mem) \<Rightarrow> nat \<Rightarrow> byte list) \<Rightarrow> call list \<Rightarrow> (nat \<Rightarrow> mem) \<Rightarrow> nat \<Rightarrow> mem" where
  "after_calls n v calls M = fold (\<lambda>x M. stores n (snd x) (v x M) M) calls M"

text \<open>A call that the processes cut into chunks which leave the values \<open>v\<close> in the receive buffers.\<close>

definition runs_call :: "float_ops \<Rightarrow> nat \<Rightarrow> graph_pair_list \<Rightarrow> (call \<Rightarrow> (nat \<Rightarrow> mem) \<Rightarrow> nat \<Rightarrow> byte list) \<Rightarrow> call \<Rightarrow> bool" where
  "runs_call fo n topo v x \<longleftrightarrow> (\<exists>cs. chunks_ok fo n cs \<and>
     (\<forall>i<n. all_reduce_prog topo i (snd x i) = Inr (chunks_prog cs i)) \<and> (\<forall>M. chunks_mem n cs M = stores n (snd x) (v x M) M))"

lemma calls_chunks:
  assumes "list_all (runs_call fo n topo v) calls"
  shows "\<exists>cs. chunks_ok fo n cs \<and>
    (\<forall>i<n. all_reduce_progs topo i (map (\<lambda>x. snd x i) calls) = Inr (chunks_prog cs i)) \<and>
    (\<forall>M. chunks_mem n cs M = after_calls n v calls M)"
  using assms
proof (induction calls)
  case Nil
  show ?case by (rule exI [of _ "[]"]) (simp add: chunks_ok_def all_reduce_progs_def chunks_prog_def chunks_mem_def after_calls_def)
next
  case (Cons x calls)
  then obtain cs where cs: "chunks_ok fo n cs"
      "\<forall>i<n. all_reduce_progs topo i (map (\<lambda>x. snd x i) calls) = Inr (chunks_prog cs i)"
      "\<forall>M. chunks_mem n cs M = after_calls n v calls M" by auto
  from Cons.prems obtain ds where ds: "chunks_ok fo n ds" "\<forall>i<n. all_reduce_prog topo i (snd x i) = Inr (chunks_prog ds i)"
      "\<forall>M. chunks_mem n ds M = stores n (snd x) (v x M) M" by (auto simp: runs_call_def)
  have "all_reduce_progs topo i (map (\<lambda>x. snd x i) (x # calls)) = Inr (chunks_prog (ds @ cs) i)" if "i < n" for i
    using all_reduce_progs_Cons [of topo i "snd x i"] ds(2) cs(2) that by (simp add: chunks_prog_def)
  moreover have "chunks_ok fo n (ds @ cs)" using cs(1) ds(1) by (auto simp: chunks_ok_def)
  moreover have "chunks_mem n (ds @ cs) M = after_calls n v (x # calls) M" for M
    using cs(3) ds(3) by (simp add: chunks_mem_def after_calls_def)
  ultimately show ?case by blast
qed

lemma calls_every_schedule:
  assumes "list_all (runs_call fo n topo v) calls"
  shows "\<exists>prog. (\<forall>i<n. all_reduce_progs topo i (map (\<lambda>x. snd x i) calls) = Inr (prog i)) \<and>
    every_schedule fo (start_cluster n M prog) (after_calls n v calls M)"
proof -
  obtain cs where cs: "chunks_ok fo n cs"
      "\<forall>i<n. all_reduce_progs topo i (map (\<lambda>x. snd x i) calls) = Inr (chunks_prog cs i)"
      "\<forall>M. chunks_mem n cs M = after_calls n v calls M"
    using calls_chunks [OF assms] by blast
  then show ?thesis using chunks_ok_every_schedule [OF cs(1), of "chunks_prog cs" M] by auto
qed

lemma star_call:
  assumes "agree n (fst x) (snd x)" and "0 < n" and "0 < w_count (fst x)"
  shows "runs_call fo n (make_graph_pair_list star n) (\<lambda>x M _. result_of fo n (fst x) (snd x) M) x"
  using star_chunks [OF assms] unfolding runs_call_def by metis

lemma all_reduces_every_schedule:
  assumes "0 < n" and "list_all (good_call n) calls"
  shows "\<exists>prog. (\<forall>i<n. all_reduce_progs (make_graph_pair_list star n) i (map (\<lambda>x. snd x i) calls) = Inr (prog i)) \<and>
    every_schedule fo (start_cluster n M prog) (fold (after_call fo n) calls M)"
proof -
  let ?v = "\<lambda>x M (_ :: nat). result_of fo n (fst x) (snd x) M"
  have l: "list_all (runs_call fo n (make_graph_pair_list star n) ?v) calls"
    using assms(2) star_call [OF _ assms(1)] by (simp add: list_all_iff good_call_def)
  have "after_calls n ?v calls M = fold (after_call fo n) calls M"
    unfolding after_calls_def after_call_def [abs_def] ..
  with calls_every_schedule [OF l, of M] show ?thesis by simp
qed

section \<open>The frame of a call\<close>

definition apart :: "nat \<times> nat \<Rightarrow> nat \<times> nat \<Rightarrow> bool" where
  "apart x y \<longleftrightarrow> fst x + snd x \<le> fst y \<or> fst y + snd y \<le> fst x"

definition frame_ok :: "frame \<Rightarrow> nat \<Rightarrow> bool" where
  "frame_ok fr sz \<longleftrightarrow> sorted_wrt apart [(f_size fr, 8), (f_size_1 fr, 8), (f_size_2 fr, 8), (f_ptr fr, sz), (f_y fr, sz), (f_z fr, sz)]"

text \<open>Process \<open>i\<close> calls \<open>consistent\<close> on \<open>sz i\<close> bytes.\<close>

definition frames_ok :: "nat \<Rightarrow> (nat \<Rightarrow> frame) \<Rightarrow> (nat \<Rightarrow> nat) \<Rightarrow> (nat \<Rightarrow> mem) \<Rightarrow> bool" where
  "frames_ok n fr sz M \<longleftrightarrow> (\<forall>i<n. frame_ok (fr i) (sz i) \<and> sz i < 2 ^ 64 \<and> read_mem (M i) (f_size (fr i)) 8 = le_enc 8 (sz i))"

definition payload :: "frame \<Rightarrow> nat \<Rightarrow> mem \<Rightarrow> byte list" where
  "payload fr sz m = read_mem m (f_ptr fr) sz"

definition size_call :: "(nat \<Rightarrow> frame) \<Rightarrow> (frame \<Rightarrow> nat) \<Rightarrow> reduce_op \<Rightarrow> call" where
  "size_call fr out oper = (scalar_ws 0 0 oper, \<lambda>i. scalar_ws (f_size (fr i)) (out (fr i)) oper)"

definition data_call :: "(nat \<Rightarrow> frame) \<Rightarrow> nat \<Rightarrow> (frame \<Rightarrow> nat) \<Rightarrow> reduce_op \<Rightarrow> call" where
  "data_call fr k out oper = (range_ws 0 0 k oper, \<lambda>i. range_ws (f_ptr (fr i)) (out (fr i)) k oper)"

lemmas call_defs = size_call_def data_call_def scalar_ws_def range_ws_def

lemma result_of_eq:
  assumes "\<And>i. i < n \<Longrightarrow> contrib (ws i) (M i) = b i"
  shows "result_of fo n w0 ws M = total (op_of fo w0) (map b [0..<n])"
proof -
  have "map (\<lambda>i. contrib (ws i) (M i)) [0..<n] = map b [0..<n]" using assms by simp
  then show ?thesis by (simp only: result_of_def)
qed

lemma after_size_call:
  assumes "\<And>i. i < n \<Longrightarrow> read_mem (M i) (f_size (fr i)) 8 = b i" and "i < n"
  shows "after_call fo n (size_call fr out oper) M i = write_mem (M i) (out (fr i)) (total (combine fo 1 u64 oper) (map b [0..<n]))"
  using assms result_of_eq [of n "snd (size_call fr out oper)" M b]
  by (simp add: after_call_def stores_def call_defs contrib_def bytes_def elem_size_def)

lemma after_data_call:
  assumes "\<And>i. i < n \<Longrightarrow> read_mem (M i) (f_ptr (fr i)) k = b i" and "i < n"
  shows "after_call fo n (data_call fr k out oper) M i = write_mem (M i) (out (fr i)) (total (combine fo k u8 oper) (map b [0..<n]))"
  using assms result_of_eq [of n "snd (data_call fr k out oper)" M b]
  by (simp add: after_call_def stores_def call_defs contrib_def bytes_def elem_size_def)

lemma length_total_combine:
  assumes "is_integer dt" and "0 < n" and "\<And>i. i < n \<Longrightarrow> length (b i) = k * elem_size dt"
  shows "length (total (combine fo k dt oper) (map b [0..<n])) = k * elem_size dt"
proof -
  have "ok_buf k dt (fold (combine fo k dt oper) (map b [1..<n]) (b 0))"
    using assms by (intro red.fold_closed) (auto simp: ok_buf_def)
  then show ?thesis using assms(2) by (simp add: ok_buf_def total_def upt_conv_Cons)
qed

section \<open>Sizes, then data\<close>

abbreviation size_calls :: "(nat \<Rightarrow> frame) \<Rightarrow> call list" where
  "size_calls fr \<equiv> [size_call fr f_size_1 min_op, size_call fr f_size_2 max_op]"

abbreviation data_calls :: "(nat \<Rightarrow> frame) \<Rightarrow> nat \<Rightarrow> call list" where
  "data_calls fr k \<equiv> [data_call fr k f_y min_op, data_call fr k f_z max_op]"

lemma frame_apart:
  assumes "frame_ok fr k"
  shows "f_size_1 fr + 8 \<le> f_size fr \<or> f_size fr + 8 \<le> f_size_1 fr"
    "f_size_2 fr + 8 \<le> f_size fr \<or> f_size fr + 8 \<le> f_size_2 fr"
    "f_size_2 fr + 8 \<le> f_size_1 fr \<or> f_size_1 fr + 8 \<le> f_size_2 fr"
    "f_size_1 fr + 8 \<le> f_ptr fr \<or> f_ptr fr + k \<le> f_size_1 fr"
    "f_size_2 fr + 8 \<le> f_ptr fr \<or> f_ptr fr + k \<le> f_size_2 fr"
    "f_y fr + k \<le> f_ptr fr \<or> f_ptr fr + k \<le> f_y fr"
    "f_z fr + k \<le> f_ptr fr \<or> f_ptr fr + k \<le> f_z fr"
    "f_z fr + k \<le> f_y fr \<or> f_y fr + k \<le> f_z fr"
    "f_y fr + k \<le> f_size_1 fr \<or> f_size_1 fr + 8 \<le> f_y fr" "f_z fr + k \<le> f_size_1 fr \<or> f_size_1 fr + 8 \<le> f_z fr"
    "f_y fr + k \<le> f_size_2 fr \<or> f_size_2 fr + 8 \<le> f_y fr" "f_z fr + k \<le> f_size_2 fr \<or> f_size_2 fr + 8 \<le> f_z fr"
  using assms by (auto simp: frame_ok_def apart_def)

lemma read_apart: "q + length b \<le> p \<or> p + k \<le> q \<Longrightarrow> read_mem (write_mem m q b) p k = read_mem m p k"
  by (rule read_write_disjoint) auto

lemma size_phase:
  assumes "0 < n" and "frames_ok n fr sz M" and i: "i < n" and M2: "M2 = fold (after_call fo n) (size_calls fr) M"
  shows "same_sizes (fr i) (M2 i) \<longleftrightarrow> (\<forall>j<n. \<forall>k<n. sz j = sz k)"
    "read_mem (M2 i) (f_ptr (fr i)) (sz i) = payload (fr i) (sz i) (M i)"
proof -
  let ?S = "\<lambda>i. le_enc 8 (sz i)"
  let ?V = "\<lambda>oper. total (combine fo 1 u64 oper) (map ?S [0..<n])"
  have len: "length (?V oper) = 8" for oper
    using length_total_combine [of u64 n ?S 1] assms(1) by (simp add: elem_size_def)
  have ok: "frame_ok (fr j) (sz j)" "sz j < 2 ^ 64" "read_mem (M j) (f_size (fr j)) 8 = ?S j" if "j < n" for j
    using assms(2) that by (simp_all add: frames_ok_def)
  let ?M1 = "after_call fo n (size_call fr f_size_1 min_op) M"
  have 1: "?M1 j = write_mem (M j) (f_size_1 (fr j)) (?V min_op)" if "j < n" for j
    using after_size_call [of n M fr ?S] ok(3) that by simp
  then have r1: "read_mem (?M1 j) (f_size (fr j)) 8 = ?S j" if "j < n" for j
    using ok [OF that] frame_apart(1) [OF ok(1) [OF that]] that len by (simp add: read_apart)
  have 2: "M2 i = write_mem (?M1 i) (f_size_2 (fr i)) (?V max_op)"
    unfolding M2 using after_size_call [of n ?M1 fr ?S i] r1 i by simp
  note ap = frame_apart [OF ok(1) [OF i]]
  have "read_mem (M2 i) (f_size_1 (fr i)) 8 = ?V min_op" "read_mem (M2 i) (f_size_2 (fr i)) 8 = ?V max_op"
    using len ap(3) i
    by (simp_all add: 1 2 read_apart)
  then have "same_sizes (fr i) (M2 i) \<longleftrightarrow> (\<forall>j<n. \<forall>k<n. ?S j = ?S k)"
    unfolding same_sizes_def using min_max_equal_upt [of u64 n ?S 1 fo] assms(1) by (simp only: length_le_enc) (simp add: elem_size_def)
  moreover have "?S j = ?S k \<longleftrightarrow> sz j = sz k" if "j < n" "k < n" for j k
  proof
    assume "?S j = ?S k"
    then have "le_dec (?S j) = le_dec (?S k)" by simp
    then show "sz j = sz k" using ok(2) [OF that(1)] ok(2) [OF that(2)] by (simp add: le_dec_enc)
  qed simp
  ultimately show "same_sizes (fr i) (M2 i) \<longleftrightarrow> (\<forall>j<n. \<forall>k<n. sz j = sz k)" by metis
  show "read_mem (M2 i) (f_ptr (fr i)) (sz i) = payload (fr i) (sz i) (M i)"
    using ap(4,5) len i by (simp add: 1 2 read_apart payload_def)
qed

lemma data_phase:
  assumes "0 < n" and "\<And>i. i < n \<Longrightarrow> frame_ok (fr i) k" and i: "i < n" and M2: "M2 = fold (after_call fo n) (data_calls fr k) M"
  shows "read_mem (M2 i) (f_y (fr i)) k = read_mem (M2 i) (f_z (fr i)) k \<longleftrightarrow>
      (\<forall>j<n. \<forall>l<n. payload (fr j) k (M j) = payload (fr l) k (M l))"
    "same_sizes (fr i) (M2 i) = same_sizes (fr i) (M i)"
proof -
  let ?S = "\<lambda>i. payload (fr i) k (M i)"
  let ?V = "\<lambda>oper. total (combine fo k u8 oper) (map ?S [0..<n])"
  have len: "length (?V oper) = k" for oper
    using length_total_combine [of u8 n ?S k] assms(1) by (simp add: elem_size_def payload_def)
  let ?M1 = "after_call fo n (data_call fr k f_y min_op) M"
  have 1: "?M1 j = write_mem (M j) (f_y (fr j)) (?V min_op)" if "j < n" for j
    using after_data_call [of n M fr k ?S] that by (simp add: payload_def)
  then have r1: "read_mem (?M1 j) (f_ptr (fr j)) k = ?S j" if "j < n" for j
    using frame_apart(6) [OF assms(2) [OF that]] that len by (simp add: read_apart payload_def)
  have 2: "M2 i = write_mem (?M1 i) (f_z (fr i)) (?V max_op)"
    unfolding M2 using after_data_call [of n ?M1 fr k ?S i] r1 i by simp
  note ap = frame_apart [OF assms(2) [OF i]]
  have "read_mem (M2 i) (f_y (fr i)) k = ?V min_op" "read_mem (M2 i) (f_z (fr i)) k = ?V max_op"
    using len ap(8) i
    by (simp_all add: 1 2 read_apart)
  moreover have "?V min_op = ?V max_op \<longleftrightarrow> (\<forall>j<n. \<forall>l<n. ?S j = ?S l)"
    by (rule min_max_equal_upt) (use assms(1) in \<open>auto simp: elem_size_def payload_def\<close>)
  ultimately show "read_mem (M2 i) (f_y (fr i)) k = read_mem (M2 i) (f_z (fr i)) k \<longleftrightarrow>
      (\<forall>j<n. \<forall>l<n. payload (fr j) k (M j) = payload (fr l) k (M l))" by (simp only:)
  show "same_sizes (fr i) (M2 i) = same_sizes (fr i) (M i)"
    using ap(9-12) len i by (simp add: 1 2 read_apart same_sizes_def)
qed

lemma good_size_calls:
  "frames_ok n fr sz M \<Longrightarrow> list_all (good_call n) (size_calls fr)"
  using frame_apart(1,2) by (fastforce simp: good_call_def agree_def call_defs wf_ws_def disjoint_or_same_def elem_size_def frames_ok_def)

lemma good_data_calls:
  "(\<And>i. i < n \<Longrightarrow> frame_ok (fr i) k) \<Longrightarrow> 0 < k \<Longrightarrow> list_all (good_call n) (data_calls fr k)"
  using frame_apart(6,7) by (fastforce simp: good_call_def agree_def call_defs wf_ws_def disjoint_or_same_def elem_size_def)

lemma consistent_answers:
  assumes "0 < n" and "frames_ok n fr sz M"
  shows "\<exists>prog M'. (\<forall>i<n. consistent_prog (make_graph_pair_list star n) i (fr i) (sz i) (same_sizes (fr i) (M' i)) = Inr (prog i)) \<and>
    every_schedule fo (start_cluster n M prog) M' \<and>
    (\<forall>i<n. consistent (fr i) (sz i) (M' i) \<longleftrightarrow> (\<forall>j<n. \<forall>k<n. payload (fr j) (sz j) (M j) = payload (fr k) (sz k) (M k)))"
proof -
  define same where "same \<longleftrightarrow> (\<forall>j<n. \<forall>k<n. sz j = sz k)"
  define more where "more \<longleftrightarrow> same \<and> sz 0 \<noteq> 0"
  define calls where "calls = size_calls fr @ (if more then data_calls fr (sz 0) else [])"
  define M' where "M' = fold (after_call fo n) calls M"
  let ?M2 = "fold (after_call fo n) (size_calls fr) M"
  note sizes = size_phase [OF assms _ refl, of _ fo, folded same_def]
  have sz: "sz i = sz 0" if "same" "i < n" for i using that assms(1) unfolding same_def by blast
  have ok: "frame_ok (fr i) (sz 0)" if "same" "i < n" for i using assms(2) sz [OF that] that unfolding frames_ok_def by metis
  have d: "list_all (good_call n) (data_calls fr (sz 0))" if "more"
    using that by (intro good_data_calls ok) (simp_all add: more_def)
  have "list_all (good_call n) calls"
    using good_size_calls [OF assms(2)] d by (cases more) (simp_all only: calls_def if_True if_False list_all_append append_Nil2)
  from all_reduces_every_schedule [OF assms(1) this] obtain prog where
    prog: "\<forall>i<n. all_reduce_progs (make_graph_pair_list star n) i (map (\<lambda>x. snd x i) calls) = Inr (prog i)"
      "every_schedule fo (start_cluster n M prog) M'" unfolding M'_def by blast
  have M': "M' = (if more then fold (after_call fo n) (data_calls fr (sz 0)) ?M2 else ?M2)"
    by (simp add: M'_def calls_def)
  have data: "read_mem (M' i) (f_y (fr i)) (sz 0) = read_mem (M' i) (f_z (fr i)) (sz 0) \<longleftrightarrow>
      (\<forall>j<n. \<forall>l<n. payload (fr j) (sz 0) (?M2 j) = payload (fr l) (sz 0) (?M2 l))"
    "same_sizes (fr i) (M' i) = same_sizes (fr i) (?M2 i)" if "more" "i < n" for i
    using data_phase [OF assms(1) ok that(2) refl, where M = ?M2 and fo = fo] that by (simp_all add: M' more_def)
  have ss: "same_sizes (fr i) (M' i) = same" if "i < n" for i
    using sizes(1) [OF that] data(2) [OF _ that] by (cases more) (simp_all add: M')
  have "map (\<lambda>x. snd x i) calls = consistent_calls (fr i) (sz i) same" if "i < n" for i
    using sz [OF _ that] by (auto simp: calls_def consistent_calls_def more_def size_call_def data_call_def)
  moreover have "consistent (fr i) (sz i) (M' i) \<longleftrightarrow> (\<forall>j<n. \<forall>k<n. payload (fr j) (sz j) (M j) = payload (fr k) (sz k) (M k))"
    if i: "i < n" for i
  proof (cases same)
    case False
    then obtain j k where "j < n" "k < n" "sz j \<noteq> sz k" by (auto simp: same_def)
    then have "payload (fr j) (sz j) (M j) \<noteq> payload (fr k) (sz k) (M k)"
      by (metis payload_def length_read_mem)
    with False \<open>j < n\<close> \<open>k < n\<close> show ?thesis by (auto simp: consistent_def ss [OF i])
  next
    case True
    have p: "payload (fr j) (sz 0) (?M2 j) = payload (fr j) (sz j) (M j)" if "j < n" for j
      using sizes(2) [OF that] sz [OF True that] by (simp add: payload_def)
    show ?thesis
    proof (cases "sz 0 = 0")
      case True
      with \<open>same\<close> sz i show ?thesis by (auto simp: consistent_def ss payload_def)
    next
      case False
      then have "more" using True by (simp add: more_def)
      with data(1) [OF this i] p sz [OF True i] False show ?thesis by (simp add: consistent_def ss [OF i] True)
    qed
  qed
  ultimately show ?thesis using prog ss unfolding consistent_prog_def by (intro exI [of _ prog] exI [of _ M']) simp
qed

text \<open>C7: \<open>session::consistent\<close> on the star: every schedule ends, and every process returns whether all
  processes passed the same bytes, sizes included. The decision to compare the data is the one each process
  takes from the sizes it has received.\<close>

theorem consistent_star:
  assumes "0 < n" and "frames_ok n fr sz M"
  shows "\<exists>prog M'. (\<forall>i<n. consistent_prog (make_graph_pair_list star n) i (fr i) (sz i) (same_sizes (fr i) (M' i)) = Inr (prog i)) \<and>
    every_schedule fo (start_cluster n M prog) M' \<and>
    (\<forall>i<n. consistent (fr i) (sz i) (M' i) \<longleftrightarrow> (\<forall>j<n. \<forall>k<n. payload (fr j) (sz j) (M j) = payload (fr k) (sz k) (M k)))"
  using assms by (rule consistent_answers)

theorem consistent_star_witness:
  "(let fr = \<lparr>f_size = 0, f_size_1 = 8, f_size_2 = 16, f_ptr = 24, f_y = 26, f_z = 28\<rparr>;
        M = (\<lambda>i. write_mem (write_mem (\<lambda>_. 0) 0 (le_enc 8 2)) 24 [7, word_of_nat i]) in
    \<exists>prog M'. (\<forall>i<2. consistent_prog (make_graph_pair_list star 2) i fr 2 (same_sizes fr (M' i)) = Inr (prog i)) \<and>
    every_schedule first_operand (start_cluster 2 M prog) M' \<and> \<not> consistent fr 2 (M' 0) \<and> \<not> consistent fr 2 (M' 1))"
proof -
  let ?fr = "\<lparr>f_size = 0, f_size_1 = 8, f_size_2 = 16, f_ptr = 24, f_y = 26, f_z = 28\<rparr>"
  let ?M = "\<lambda>i. write_mem (write_mem (\<lambda>_. 0) 0 (le_enc 8 2)) 24 [7, word_of_nat i] :: mem"
  have r: "read_mem (?M i) 0 8 = le_enc 8 2" for i
    by (simp add: read_apart)
  have f: "frames_ok 2 (\<lambda>_. ?fr) (\<lambda>_. 2) ?M"
    using r by (simp add: frames_ok_def frame_ok_def apart_def)
  have p: "payload ?fr 2 (?M i) = [7, word_of_nat i]" for i
    by (simp add: payload_def)
  have ne: "payload ?fr 2 (?M 0) \<noteq> payload ?fr 2 (?M 1)" unfolding p by simp
  have l: "0 < (2::nat)" "1 < (2::nat)" by simp_all
  from consistent_star [OF l(1) f, of first_operand] obtain prog M' where
    r: "\<forall>i<2. consistent_prog (make_graph_pair_list star 2) i ?fr 2 (same_sizes ?fr (M' i)) = Inr (prog i)"
      "every_schedule first_operand (start_cluster 2 ?M prog) M'"
      "\<forall>i<2. consistent ?fr 2 (M' i) \<longleftrightarrow> (\<forall>j<2. \<forall>k<2. payload ?fr 2 (?M j) = payload ?fr 2 (?M k))" by blast
  have "\<not> consistent ?fr 2 (M' 0)" "\<not> consistent ?fr 2 (M' 1)" using r(3) ne l by metis+
  with r(1,2) show ?thesis unfolding Let_def by blast
qed

end
