(* ===== verification/Consistent_Ring.thy ===== *)
theory Consistent_Ring
  imports Consistent
begin

text \<open>
  \<open>session::consistent\<close> on the ring. The reductions of \<open>consistent\<close> have different send and receive
  buffers, so a process past the second position of the ring receives the contribution of the process in
  the second position in place of the minimum and of the maximum, and finds them equal. Processes of one
  call then return different answers.
\<close>

section \<open>One call on the ring\<close>

definition whole :: "workspace \<Rightarrow> interval" where
  "whole w = \<lparr>i_begin = 0, i_end = w_count w\<rparr>"

text \<open>The rotation of the ring that the hash of the name of a workspace in one chunk selects.\<close>

definition ring_rot :: "nat \<Rightarrow> workspace \<Rightarrow> nat" where
  "ring_rot n w = unat (name_based_hash 0 (w_name (slice_of w (whole w)))) mod n"

definition ring_values :: "float_ops \<Rightarrow> nat \<Rightarrow> call \<Rightarrow> (nat \<Rightarrow> mem) \<Rightarrow> nat \<Rightarrow> byte list" where
  "ring_values fo n x M = ring_value fo n (ring_rot n (fst x)) (fst x) (snd x) M"

lemma ring_pair_of:
  "0 < n \<Longrightarrow> pair_of (make_graph_pair_list ring n) nm = make_circular_graph_pair n (unat (name_based_hash 0 nm) mod n)"
  by (simp add: pair_of_def make_graph_pair_list_def make_graph_pair_list_ring_def)

lemma one_chunk: "0 < x \<Longrightarrow> x \<le> c \<Longrightarrow> ceil_div x c = 1"
  by (cases "x = c") (simp_all add: ceil_div_def)

lemma even_partition_one: "even_partition i 1 = Inr [\<lparr>i_begin = i_begin i, i_end = i_begin i + interval_len i\<rparr>]"
  by (simp add: even_partition_def divide_def)

lemma slice_whole:
  assumes "w_count w = w_count w0"
  shows "w_send (slice_of w (whole w0)) = w_send w" "w_recv (slice_of w (whole w0)) = w_recv w" "w_count (slice_of w (whole w0)) = w_count w"
    "w_dt (slice_of w (whole w0)) = w_dt w" "w_op (slice_of w (whole w0)) = w_op w"
  using assms by (simp_all add: slice_of_def whole_def interval_len_def)

lemma ring_value_whole:
  assumes "agree n w0 ws" and "0 < n"
  shows "ring_value fo n r (slice_of w0 (whole w0)) (\<lambda>i. slice_of (ws i) (whole w0)) M i = ring_value fo n r w0 ws M i"
proof -
  have w: "w_count (ws j) = w_count w0" if "j < n" for j using assms(1) that by (simp add: agree_def)
  have c: "contrib (slice_of (ws j) (whole w0)) (M j) = contrib (ws j) (M j)" if "j < n" for j
    using slice_whole [OF w [OF that]] by (simp add: contrib_def bytes_def)
  then have m: "map (\<lambda>i. contrib (slice_of (ws i) (whole w0)) (M i)) [0..<n] = map (\<lambda>i. contrib (ws i) (M i)) [0..<n]" by simp
  have "result_of fo n (slice_of w0 (whole w0)) (\<lambda>i. slice_of (ws i) (whole w0)) M = result_of fo n w0 ws M"
    unfolding result_of_def m by (simp add: slice_whole)
  moreover have "(r + 1) mod n < n" using assms(2) by simp
  ultimately show ?thesis using c slice_whole [OF w] by (simp add: ring_value_def relayed_def Let_def)
qed

lemma ring_call:
  assumes a: "agree n (fst x) (snd x)" and n: "0 < n" and "0 < w_count (fst x)"
    and small: "w_count (fst x) * elem_size (w_dt (fst x)) \<le> all_reduce_chunk_size"
  shows "runs_call fo n (make_graph_pair_list ring n) (ring_values fo n) x"
proof -
  obtain w0 ws where x: "x = (w0, ws)" by (cases x)
  let ?r = "ring_rot n w0" and ?g = "make_graph_pair_list ring n" and ?s = "elem_size (w_dt w0)"
  let ?c = "\<lparr>ch_ws = \<lambda>i. slice_of (ws i) (whole w0), ch_graphs = graphs (make_circular_graph_pair n ?r),
    ch_value = ring_value fo n ?r (slice_of w0 (whole w0)) (\<lambda>i. slice_of (ws i) (whole w0))\<rparr>"
  have a: "agree n w0 ws" and pos: "0 < w_count w0" and small: "w_count w0 * ?s \<le> all_reduce_chunk_size" using a assms(3) small x by simp_all
  have int: "is_integer (w_dt w0)" by (rule agree_integer [OF a n])
  note ds = dtype_size_integer [OF int] and s = elem_size_pos [OF int]
  have ag: "agree n (slice_of w0 (whole w0)) (\<lambda>i. slice_of (ws i) (whole w0))"
    using agree_slice [OF a, of "whole w0"] by (simp add: whole_def)
  have "chunks_ok fo n [?c]"
    using ring_chunk [OF ag] agreeD(1) [OF ag] wf_ring_pair [of n ?r] n by (auto simp: chunks_ok_def)
  moreover have "all_reduce_prog ?g i (ws i) = Inr (chunks_prog [?c] i)" if i: "i < n" for i
  proof -
    have eq: "w_count (ws i) = w_count w0" "w_dt (ws i) = w_dt w0" "w_name (ws i) = w_name w0" using a i by (auto simp: agree_def)
    have c: "ceil_div (w_count (ws i) * ?s) all_reduce_chunk_size = 1" using pos s small eq by (intro one_chunk) simp_all
    have "split_work (ws i) ?g all_reduce_chunk_size =
        Inr (map (\<lambda>p. (slice_of (ws i) p, graphs (pair_of ?g (w_name (slice_of (ws i) p))))) [whole w0])"
      by (rule split_work_eq [where s = ?s])
        (use eq pos ds s n c make_graph_pair_list_nonempty [OF n] in
          \<open>simp_all add: even_partition_one [unfolded One_nat_def] whole_def interval_len_def all_reduce_chunk_size_def\<close>)
    moreover have "w_name (slice_of (ws i) (whole w0)) = w_name (slice_of w0 (whole w0))" using eq by (simp add: slice_of_def)
    ultimately show ?thesis
      by (simp add: all_reduce_prog_def run_graph_pair_list_def chunks_prog_def ring_pair_of [OF n] ring_rot_def)
  qed
  moreover have "chunks_mem n [?c] M = stores n ws (ring_value fo n ?r w0 ws M) M" for M
    using ring_value_whole [OF a n] a slice_whole(2) by (auto simp: chunks_mem_def stores_def fun_eq_iff agree_def)
  ultimately show ?thesis unfolding x runs_call_def ring_values_def by (intro exI [of _ "[?c]"]) simp
qed

section \<open>What the processes see\<close>

definition ring_out :: "float_ops \<Rightarrow> nat \<Rightarrow> nat \<Rightarrow> nat \<Rightarrow> dtype \<Rightarrow> reduce_op \<Rightarrow> (nat \<Rightarrow> byte list) \<Rightarrow> nat \<Rightarrow> byte list" where
  "ring_out fo n r k dt oper b i =
     (if ring_pos n r i \<le> 1 then total (combine fo k dt oper) (map b [0..<n]) else b ((r + 1) mod n))"

lemma length_ring_out:
  assumes "is_integer dt" and "0 < n" and "\<And>i. i < n \<Longrightarrow> length (b i) = k * elem_size dt"
  shows "length (ring_out fo n r k dt oper b i) = k * elem_size dt"
  using length_total_combine [OF assms] assms(2,3) by (simp add: ring_out_def)

lemma ring_out_min_max:
  assumes "dt = u8 \<or> dt = u64" and "0 < n" and "\<And>i. i < n \<Longrightarrow> length (b i) = k * elem_size dt"
  shows "ring_out fo n r k dt min_op b i = ring_out fo n r k dt max_op b i \<longleftrightarrow> 1 < ring_pos n r i \<or> (\<forall>j<n. \<forall>l<n. b j = b l)"
  using min_max_equal_upt [OF assms] by (auto simp: ring_out_def)

text \<open>A minimum and a maximum of the same buffers, one after the other.\<close>

definition both :: "(nat \<Rightarrow> nat) \<Rightarrow> (nat \<Rightarrow> nat) \<Rightarrow> nat \<Rightarrow> dtype \<Rightarrow> reduce_op \<Rightarrow> call" where
  "both inp out k dt oper = (\<lparr>w_send = 0, w_recv = 0, w_count = k, w_dt = dt, w_op = oper, w_name = []\<rparr>,
     \<lambda>i. \<lparr>w_send = inp i, w_recv = out i, w_count = k, w_dt = dt, w_op = oper, w_name = []\<rparr>)"

definition both_rot :: "nat \<Rightarrow> nat \<Rightarrow> dtype \<Rightarrow> nat" where
  "both_rot n k dt = ring_rot n (fst (both (\<lambda>_. 0) (\<lambda>_. 0) k dt min_op))"

lemma both_values:
  assumes "0 < n" and "\<And>j. j < n \<Longrightarrow> inp j \<noteq> out j" and "\<And>j. j < n \<Longrightarrow> read_mem (M j) (inp j) (k * elem_size dt) = b j"
  shows "ring_values fo n (both inp out k dt oper) M i = ring_out fo n (both_rot n k dt) k dt oper b i"
proof -
  let ?x = "both inp out k dt oper"
  have c: "contrib (snd ?x j) (M j) = b j" if "j < n" for j using assms(3) [OF that] by (simp add: both_def contrib_def bytes_def)
  have r: "ring_rot n (fst ?x) = both_rot n k dt"
    by (simp add: both_rot_def ring_rot_def both_def whole_def slice_of_def)
  have t: "result_of fo n (fst ?x) (snd ?x) M = total (combine fo k dt oper) (map b [0..<n])"
    using result_of_eq [of n "snd ?x" M b fo "fst ?x"] c by (simp add: both_def)
  have "(both_rot n k dt + 1) mod n < n" using assms(1) by simp
  with c t assms(2) show ?thesis by (simp add: ring_values_def ring_value_def ring_out_def relayed_def r Let_def) (simp add: both_def)
qed

lemma both_phase:
  assumes n: "0 < n" and l: "l = k * elem_size dt" and dt: "dt = u8 \<or> dt = u64"
    and ap: "\<And>j. j < n \<Longrightarrow> apart (inp j, l) (o1 j, l) \<and> apart (inp j, l) (o2 j, l) \<and> apart (o1 j, l) (o2 j, l)" and "0 < l"
    and b: "\<And>j. j < n \<Longrightarrow> b j = read_mem (M j) (inp j) l" and i: "i < n"
    and M2: "M2 = after_calls n (ring_values fo n) [both inp o1 k dt min_op, both inp o2 k dt max_op] M"
  shows "M2 i = write_mem (write_mem (M i) (o1 i) (ring_out fo n (both_rot n k dt) k dt min_op b i))
      (o2 i) (ring_out fo n (both_rot n k dt) k dt max_op b i)"
    and "read_mem (M2 i) (o1 i) l = read_mem (M2 i) (o2 i) l \<longleftrightarrow> 1 < ring_pos n (both_rot n k dt) i \<or> (\<forall>j<n. \<forall>m<n. b j = b m)"
proof -
  let ?r = "both_rot n k dt"
  have int: "is_integer dt" using dt by auto
  have lb: "length (b j) = k * elem_size dt" if "j < n" for j using b [OF that] l by simp
  have len: "length (ring_out fo n ?r k dt oper b j) = l" for oper j using length_ring_out [OF int n lb] l by simp
  have ne: "inp j \<noteq> o1 j" "inp j \<noteq> o2 j" if "j < n" for j using ap [OF that] \<open>0 < l\<close> by (auto simp: apart_def)
  have apd: "o1 j + l \<le> inp j \<or> inp j + l \<le> o1 j" "o2 j + l \<le> o1 j \<or> o1 j + l \<le> o2 j" if "j < n" for j
    using ap [OF that] by (auto simp: apart_def)
  let ?M1 = "stores n (snd (both inp o1 k dt min_op)) (ring_values fo n (both inp o1 k dt min_op) M) M"
  have m1: "?M1 j = write_mem (M j) (o1 j) (ring_out fo n ?r k dt min_op b j)" if "j < n" for j
    using both_values [of n inp o1 M k dt b] n ne b l that by (simp add: stores_def both_def)
  have b1: "read_mem (?M1 j) (inp j) (k * elem_size dt) = b j" if "j < n" for j
    using m1 [OF that] apd [OF that] len b [OF that] l by (simp add: read_apart)
  have "M2 = stores n (snd (both inp o2 k dt max_op)) (ring_values fo n (both inp o2 k dt max_op) ?M1) ?M1"
    by (simp add: M2 after_calls_def)
  then show w: "M2 i = write_mem (write_mem (M i) (o1 i) (ring_out fo n ?r k dt min_op b i)) (o2 i) (ring_out fo n ?r k dt max_op b i)"
    using both_values [of n inp o2 ?M1 k dt b] n ne b1 m1 [OF i] i by (simp add: stores_def both_def)
  have e: "read_mem (M2 i) (o1 i) l = ring_out fo n ?r k dt min_op b i" "read_mem (M2 i) (o2 i) l = ring_out fo n ?r k dt max_op b i"
    using apd [OF i] len by (simp_all add: w read_apart)
  show "read_mem (M2 i) (o1 i) l = read_mem (M2 i) (o2 i) l \<longleftrightarrow> 1 < ring_pos n ?r i \<or> (\<forall>j<n. \<forall>m<n. b j = b m)"
    unfolding e by (rule ring_out_min_max [OF dt n lb])
qed

section \<open>The answers\<close>

definition ring_calls :: "(nat \<Rightarrow> frame) \<Rightarrow> nat \<Rightarrow> call list" where
  "ring_calls fr k = [both (f_size \<circ> fr) (f_size_1 \<circ> fr) 1 u64 min_op, both (f_size \<circ> fr) (f_size_2 \<circ> fr) 1 u64 max_op,
     both (f_ptr \<circ> fr) (f_y \<circ> fr) k u8 min_op, both (f_ptr \<circ> fr) (f_z \<circ> fr) k u8 max_op]"

lemma ring_calls_eq: "0 < k \<Longrightarrow> map (\<lambda>x. snd x i) (ring_calls fr k) = consistent_calls (fr i) k True"
  by (simp add: ring_calls_def consistent_calls_def both_def scalar_ws_def range_ws_def)

lemma ring_calls_run:
  assumes "0 < n" and "frames_ok n fr (\<lambda>_. k) M" and "0 < k" and "k \<le> 2 ^ 20"
  shows "list_all (runs_call fo n (make_graph_pair_list ring n) (ring_values fo n)) (ring_calls fr k)"
proof -
  have f: "frame_ok (fr i) k" if "i < n" for i using assms(2) that by (simp add: frames_ok_def)
  have "runs_call fo n (make_graph_pair_list ring n) (ring_values fo n) (both inp out c dt oper)"
    if "\<And>i. i < n \<Longrightarrow> apart (inp i, c * elem_size dt) (out i, c * elem_size dt)" "0 < c" "dt = u8 \<or> dt = u64"
      "c * elem_size dt \<le> 2 ^ 20" for inp out c dt oper
    using that assms(1)
    by (intro ring_call) (auto simp: both_def agree_def wf_ws_def disjoint_or_same_def apart_def all_reduce_chunk_size_def)
  then show ?thesis
    using f assms(1,3,4) unfolding ring_calls_def
    by (auto simp: frame_ok_def elem_size_def)
qed

lemma ring_answers:
  assumes n: "0 < n" and fr: "frames_ok n fr (\<lambda>_. k) M" and k: "0 < k" and i: "i < n"
    and M': "M' = after_calls n (ring_values fo n) (ring_calls fr k) M"
  shows "same_sizes (fr i) (M' i)"
    and "consistent (fr i) k (M' i) \<longleftrightarrow> 1 < ring_pos n (both_rot n k u8) i \<or> (\<forall>j<n. \<forall>l<n. payload (fr j) k (M j) = payload (fr l) k (M l))"
proof -
  have f: "frame_ok (fr j) k" "read_mem (M j) (f_size (fr j)) 8 = le_enc 8 k" if "j < n" for j
    using fr that by (simp_all add: frames_ok_def)
  note ap = frame_apart [OF f(1)]
  define M2 where "M2 = after_calls n (ring_values fo n) [both (f_size \<circ> fr) (f_size_1 \<circ> fr) 1 u64 min_op, both (f_size \<circ> fr) (f_size_2 \<circ> fr) 1 u64 max_op] M"
  have M'2: "M' = after_calls n (ring_values fo n) [both (f_ptr \<circ> fr) (f_y \<circ> fr) k u8 min_op, both (f_ptr \<circ> fr) (f_z \<circ> fr) k u8 max_op] M2"
    by (simp add: M' M2_def ring_calls_def after_calls_def)
  have es: "(8 :: nat) = 1 * elem_size u64" "k = k * elem_size u8" by (simp_all add: elem_size_def)
  have fa: "apart ((f_size \<circ> fr) j, 8) ((f_size_1 \<circ> fr) j, 8) \<and> apart ((f_size \<circ> fr) j, 8) ((f_size_2 \<circ> fr) j, 8) \<and>
      apart ((f_size_1 \<circ> fr) j, 8) ((f_size_2 \<circ> fr) j, 8)"
    "apart ((f_ptr \<circ> fr) j, k) ((f_y \<circ> fr) j, k) \<and> apart ((f_ptr \<circ> fr) j, k) ((f_z \<circ> fr) j, k) \<and>
      apart ((f_y \<circ> fr) j, k) ((f_z \<circ> fr) j, k)" if "j < n" for j
    using f(1) [OF that] by (simp_all add: frame_ok_def)
  have fs: "le_enc 8 k = read_mem (M j) ((f_size \<circ> fr) j) 8" if "j < n" for j using f(2) [OF that] by simp
  note ps = both_phase [OF n es(1) disjI2 [OF refl] fa(1) _ fs _ M2_def, simplified]
  have sz: "M2 j = write_mem (write_mem (M j) (f_size_1 (fr j)) (ring_out fo n (both_rot n 1 u64) 1 u64 min_op (\<lambda>_. le_enc 8 k) j))
      (f_size_2 (fr j)) (ring_out fo n (both_rot n 1 u64) 1 u64 max_op (\<lambda>_. le_enc 8 k) j)"
    "read_mem (M2 j) (f_size_1 (fr j)) 8 = read_mem (M2 j) (f_size_2 (fr j)) 8" if "j < n" for j
    using ps [OF that] by simp_all
  have ls: "length (ring_out fo n r 1 u64 oper (\<lambda>_. le_enc 8 k) j) = 8" for r oper j
    using length_ring_out [of u64 n "\<lambda>_. le_enc 8 k" 1 fo] n by (simp add: elem_size_def)
  have pl: "payload (fr j) k (M2 j) = payload (fr j) k (M j)" if "j < n" for j
    using sz(1) [OF that] ap(4,5) [OF that] ls by (simp add: payload_def read_apart)
  let ?b = "\<lambda>j. payload (fr j) k (M2 j)"
  have fd: "?b j = read_mem (M2 j) ((f_ptr \<circ> fr) j) k" if "j < n" for j by (simp add: payload_def)
  note pd = both_phase [OF n es(2) disjI1 [OF refl] fa(2) k fd i M'2]
  have d: "M' i = write_mem (write_mem (M2 i) (f_y (fr i)) (ring_out fo n (both_rot n k u8) k u8 min_op ?b i))
      (f_z (fr i)) (ring_out fo n (both_rot n k u8) k u8 max_op ?b i)"
    "read_mem (M' i) (f_y (fr i)) k = read_mem (M' i) (f_z (fr i)) k \<longleftrightarrow> 1 < ring_pos n (both_rot n k u8) i \<or> (\<forall>j<n. \<forall>m<n. ?b j = ?b m)"
    using pd by (simp_all only: comp_def)
  have ld: "length (ring_out fo n r k u8 oper ?b j) = k" for r oper j
    using length_ring_out [of u8 n ?b k fo] n by (simp add: elem_size_def payload_def)
  show s: "same_sizes (fr i) (M' i)"
    using sz(2) [OF i] ap(9-12) [OF i] ld by (simp add: same_sizes_def d(1) read_apart)
  show "consistent (fr i) k (M' i) \<longleftrightarrow> 1 < ring_pos n (both_rot n k u8) i \<or> (\<forall>j<n. \<forall>l<n. payload (fr j) k (M j) = payload (fr l) k (M l))"
  proof -
    have "(\<forall>j<n. \<forall>m<n. ?b j = ?b m) \<longleftrightarrow> (\<forall>j<n. \<forall>l<n. payload (fr j) k (M j) = payload (fr l) k (M l))" using pl by metis
    with s k show ?thesis unfolding consistent_def d(2) by blast
  qed
qed

section \<open>Properties\<close>

lemma ring_disagreement:
  assumes "3 \<le> n" and "frames_ok n fr (\<lambda>_. k) M" and "0 < k" and "k \<le> 2 ^ 20"
    and "j < n" and "l < n" and "payload (fr j) k (M j) \<noteq> payload (fr l) k (M l)"
  shows "\<exists>prog M'. (\<forall>i<n. consistent_prog (make_graph_pair_list ring n) i (fr i) k (same_sizes (fr i) (M' i)) = Inr (prog i)) \<and>
    every_schedule fo (start_cluster n M prog) M' \<and> (\<exists>i<n. consistent (fr i) k (M' i)) \<and> (\<exists>i<n. \<not> consistent (fr i) k (M' i))"
proof -
  have n: "0 < n" using assms(1) by simp
  let ?M' = "after_calls n (ring_values fo n) (ring_calls fr k) M" and ?r = "both_rot n k u8"
  from calls_every_schedule [OF ring_calls_run [OF n assms(2-4)], where M = M] obtain prog where
    prog: "\<forall>i<n. all_reduce_progs (make_graph_pair_list ring n) i (map (\<lambda>x. snd x i) (ring_calls fr k)) = Inr (prog i)"
      "every_schedule fo (start_cluster n M prog) ?M'" by blast
  note ans = ring_answers [OF n assms(2,3) _ refl, of _ fo]
  have "ring_pos n ?r (ring_vertex n ?r 2) = 2" "ring_pos n ?r (ring_vertex n ?r 0) = 0" "ring_vertex n ?r 2 < n" "ring_vertex n ?r 0 < n"
    using assms(1) ring_pos_vertex [of 2 n ?r] ring_pos_vertex [of 0 n ?r] by (simp_all add: ring_vertex_def)
  then have "consistent (fr (ring_vertex n ?r 2)) k (?M' (ring_vertex n ?r 2))" "\<not> consistent (fr (ring_vertex n ?r 0)) k (?M' (ring_vertex n ?r 0))"
    using ans(2) assms(5-7) by auto
  moreover have "consistent_prog (make_graph_pair_list ring n) i (fr i) k (same_sizes (fr i) (?M' i)) = Inr (prog i)" if "i < n" for i
    using prog(1) ans(1) [OF that] that by (simp add: consistent_prog_def ring_calls_eq [OF assms(3)])
  ultimately show ?thesis using prog(2) \<open>ring_vertex n ?r 2 < n\<close> \<open>ring_vertex n ?r 0 < n\<close> by blast
qed

text \<open>C8: \<open>session::consistent\<close> on the ring with three or more processes that pass different bytes of the same
  length, up to one chunk: every schedule ends, but some processes return true and others false.\<close>

theorem consistent_ring_disagrees:
  assumes "3 \<le> n" and "frames_ok n fr (\<lambda>_. k) M" and "0 < k" and "k \<le> 2 ^ 20"
    and "j < n" and "l < n" and "payload (fr j) k (M j) \<noteq> payload (fr l) k (M l)"
  shows "\<exists>prog M'. (\<forall>i<n. consistent_prog (make_graph_pair_list ring n) i (fr i) k (same_sizes (fr i) (M' i)) = Inr (prog i)) \<and>
    every_schedule fo (start_cluster n M prog) M' \<and> (\<exists>i<n. consistent (fr i) k (M' i)) \<and> (\<exists>i<n. \<not> consistent (fr i) k (M' i))"
  using assms by (rule ring_disagreement)

theorem consistent_ring_disagrees_witness:
  "(let fr = \<lparr>f_size = 0, f_size_1 = 8, f_size_2 = 16, f_ptr = 24, f_y = 26, f_z = 28\<rparr>;
        M = (\<lambda>i. write_mem (write_mem (\<lambda>_. 0) 0 (le_enc 8 2)) 24 [7, word_of_nat i]) in
    \<exists>prog M'. every_schedule first_operand (start_cluster 3 M prog) M' \<and>
      (\<exists>i<3. consistent fr 2 (M' i)) \<and> (\<exists>i<3. \<not> consistent fr 2 (M' i)))"
proof -
  let ?fr = "\<lparr>f_size = 0, f_size_1 = 8, f_size_2 = 16, f_ptr = 24, f_y = 26, f_z = 28\<rparr>"
  let ?M = "\<lambda>i :: nat. write_mem (write_mem (\<lambda>_. 0) 0 (le_enc 8 2)) 24 [7, word_of_nat i] :: mem"
  have r: "read_mem (?M i) 0 8 = le_enc 8 2" for i by (simp add: read_apart)
  have f: "frames_ok 3 (\<lambda>_. ?fr) (\<lambda>_. 2) ?M" using r by (simp add: frames_ok_def frame_ok_def apart_def)
  have p: "payload ?fr 2 (?M i) = [7, word_of_nat i]" for i by (simp add: payload_def)
  have ne: "payload ?fr 2 (?M 0) \<noteq> payload ?fr 2 (?M 1)" unfolding p by simp
  have c: "3 \<le> (3 :: nat)" "0 < (2 :: nat)" "2 \<le> (2 ^ 20 :: nat)" "0 < (3 :: nat)" "1 < (3 :: nat)" by simp_all
  from consistent_ring_disagrees [OF c(1) f c(2-5) ne, of first_operand] show ?thesis unfolding Let_def by blast
qed

end
