(* ===== verification/Address.thy ===== *)
theory Address
  imports Cxx_Std "HOL-Library.Monad_Syntax"
begin

text \<open>
  Peer identities and peer lists: \<open>include/stdml/bits/collective/address.hpp\<close> and the first half
  of \<open>src/stdml/collective/address.cpp\<close>. A peer is an IPv4 address and a port; peers are printed
  as \<open>a.b.c.d:port\<close>, parsed with \<open>sscanf\<close>, compared lexicographically and hashed into 64 bits.
  The lemmas give the round trips (\<open>pack\<close>/\<open>unpack\<close>, printing/parsing of one peer and of a list),
  the order, the injectivity and monotonicity of \<open>hash\<close>, and what \<open>rank\<close> and \<open>operator-\<close> return.
\<close>

unbundle bit_operations_syntax

section \<open>Packed IPv4 addresses\<close>

text \<open>\<open>pack\<close> stores the four octets through a byte pointer into a little-endian \<open>uint32_t\<close>.\<close>

definition pack :: "byte \<Rightarrow> byte \<Rightarrow> byte \<Rightarrow> byte \<Rightarrow> u32" where
  "pack a b c d = word_of_nat (le_dec [d, c, b, a])"

definition unpack :: "u32 \<Rightarrow> byte \<times> byte \<times> byte \<times> byte" where
  "unpack x = (let p = le_enc 4 (unat x) in (p ! 3, p ! 2, p ! 1, p ! 0))"

section \<open>Peers\<close>

record peer_id =
  ipv4 :: u32
  port :: u16

text \<open>\<open>peer_id::operator<\<close>; the record's extension slot is compared last and is \<open>()\<close> for a peer.\<close>

instantiation peer_id_ext :: (linorder) linorder
begin

definition less_peer_id_ext :: "'a peer_id_ext \<Rightarrow> 'a peer_id_ext \<Rightarrow> bool" where
  "less_peer_id_ext p q \<longleftrightarrow> ipv4 p < ipv4 q \<or> (ipv4 p = ipv4 q \<and>
     (port p < port q \<or> (port p = port q \<and> peer_id.more p < peer_id.more q)))"

definition less_eq_peer_id_ext :: "'a peer_id_ext \<Rightarrow> 'a peer_id_ext \<Rightarrow> bool" where
  "less_eq_peer_id_ext p q \<longleftrightarrow> p = q \<or> p < q"

instance
proof
  fix x y z :: "'a peer_id_ext"
  show "(x < y) = (x \<le> y \<and> \<not> y \<le> x)"
    by (auto simp: less_eq_peer_id_ext_def less_peer_id_ext_def)
  show "x \<le> x" by (simp add: less_eq_peer_id_ext_def)
  show "x \<le> y \<Longrightarrow> y \<le> z \<Longrightarrow> x \<le> z"
    by (auto simp: less_eq_peer_id_ext_def less_peer_id_ext_def)
  show "x \<le> y \<Longrightarrow> y \<le> x \<Longrightarrow> x = y"
    by (auto simp: less_eq_peer_id_ext_def less_peer_id_ext_def)
  show "x \<le> y \<or> y \<le> x"
    by (cases x; cases y) (auto simp: less_eq_peer_id_ext_def less_peer_id_ext_def)
qed

end

definition peer_less :: "peer_id \<Rightarrow> peer_id \<Rightarrow> bool" where
  "peer_less p q \<longleftrightarrow> ipv4 p < ipv4 q \<or> (ipv4 p = ipv4 q \<and> port p < port q)"

definition peer_eq :: "peer_id \<Rightarrow> peer_id \<Rightarrow> bool" where
  "peer_eq p q \<longleftrightarrow> ipv4 p = ipv4 q \<and> port p = port q"

definition peer_hash :: "peer_id \<Rightarrow> u64" where
  "peer_hash p = push_bit 32 (ucast (ipv4 p)) OR ucast (port p)"

definition hostname :: "peer_id \<Rightarrow> string" where
  "hostname p = (let (a, b, c, d) = unpack (ipv4 p) in
     to_string (unat a) @ ''.'' @ to_string (unat b) @ ''.'' @
     to_string (unat c) @ ''.'' @ to_string (unat d))"

definition peer_string :: "peer_id \<Rightarrow> string" where
  "peer_string p = hostname p @ '':'' @ to_string (unat (port p))"

text \<open>\<open>sscanf(s, "%hhu.%hhu.%hhu.%hhu:%hu", ...) == 5\<close>.\<close>

definition parse_peer_id :: "string \<Rightarrow> peer_id option" where
  "parse_peer_id s = do {
     (a, s) \<leftarrow> scan_unsigned 8 s;  s \<leftarrow> scan_lit CHR ''.'' s;
     (b, s) \<leftarrow> scan_unsigned 8 s;  s \<leftarrow> scan_lit CHR ''.'' s;
     (c, s) \<leftarrow> scan_unsigned 8 s;  s \<leftarrow> scan_lit CHR ''.'' s;
     (d, s) \<leftarrow> scan_unsigned 8 s;  s \<leftarrow> scan_lit CHR '':'' s;
     (p, s) \<leftarrow> scan_unsigned 16 s;
     Some \<lparr>ipv4 = pack (word_of_nat a) (word_of_nat b) (word_of_nat c) (word_of_nat d),
           port = word_of_nat p\<rparr>
   }"

section \<open>Peer lists\<close>

type_synonym peer_list = "peer_id list"

definition split_text :: "string \<Rightarrow> char \<Rightarrow> string list" where
  "split_text text sep = filter (\<lambda>line. line \<noteq> []) (getlines sep text)"

fun parse_pieces :: "string list \<Rightarrow> peer_list \<Rightarrow> peer_list option" where
  "parse_pieces [] ps = Some ps"
| "parse_pieces (x # xs) ps =
     (case parse_peer_id x of Some pid \<Rightarrow> parse_pieces xs (ps @ [pid]) | None \<Rightarrow> None)"

definition parse_peer_list :: "string \<Rightarrow> peer_list option" where
  "parse_peer_list s = parse_pieces (split_text s CHR '','') []"

definition show_peer :: "peer_id \<Rightarrow> string" where
  "show_peer p = ''#<peer:'' @ hostname p @ '':'' @ to_string (unat (port p)) @ ''>''"

definition show_peer_list :: "peer_list \<Rightarrow> string" where
  "show_peer_list ps = ''['' @ join '', '' (map show_peer ps) @ '']''"

text \<open>\<open>peer_list::gen\<close>; \<open>value()\<close> of an empty optional throws.\<close>

definition gen_one :: "nat \<Rightarrow> peer_id res" where
  "gen_one i = (case parse_peer_id (''127.0.0.1:'' @ to_string (i + 10000)) of
     Some pid \<Rightarrow> Inr pid | None \<Rightarrow> Inl (Exception ''std::bad_optional_access''))"

fun gen_from :: "nat \<Rightarrow> nat \<Rightarrow> peer_list res" where
  "gen_from i 0 = Inr []"
| "gen_from i (Suc n) = res_bind (gen_one i) (\<lambda>pid. res_map ((#) pid) (gen_from (Suc i) n))"

definition gen :: "nat \<Rightarrow> peer_list res" where
  "gen n = gen_from 0 n"

text \<open>\<open>operator[]\<close> with a vector of ranks; a rank out of range is undefined.\<close>

definition peers_at :: "peer_list \<Rightarrow> nat list \<Rightarrow> peer_list res" where
  "peers_at ps ranks = (if list_all (\<lambda>i. i < length ps) ranks then Inr (map (\<lambda>i. ps ! i) ranks)
     else Inl (Undefined_behaviour ''operator[] out of range''))"

definition peers_minus :: "peer_list \<Rightarrow> peer_list \<Rightarrow> peer_list" where
  "peers_minus ps qs = filter (\<lambda>pid. pid \<notin> set qs) ps"

text \<open>\<open>std::find\<close> followed by \<open>pos - begin()\<close>: the first position, or the size.\<close>

fun rank :: "peer_list \<Rightarrow> peer_id \<Rightarrow> nat" where
  "rank [] pid = 0"
| "rank (p # ps) pid = (if peer_eq p pid then 0 else Suc (rank ps pid))"

section \<open>Lemmas\<close>

subsection \<open>Packing\<close>

lemma le_dec_4: "le_dec [d, c, b, a] = unat d + 256 * unat c + 65536 * unat b + 16777216 * unat a"
  by simp

lemma list_of_4: "length xs = 4 \<Longrightarrow> xs = [xs ! 0, xs ! 1, xs ! 2, xs ! 3]"
proof -
  assume "length xs = 4"
  then obtain a b c d where "xs = [a, b, c, d]"
    by (auto simp: length_Suc_conv eval_nat_numeral)
  then show ?thesis by (simp add: eval_nat_numeral)
qed

lemma unat_pack: "unat (pack a b c d) = le_dec [d, c, b, a]"
proof -
  have "le_dec [d, c, b, a] < 2 ^ 32" using le_dec_bound [of "[d, c, b, a]"] by simp
  then show ?thesis unfolding pack_def by (simp only: unat_of_nat) simp
qed

lemma le_enc_pack: "le_enc 4 (unat (pack a b c d)) = [d, c, b, a]"
proof -
  have "length [d, c, b, a] = 4" by simp
  then have "le_enc 4 (le_dec [d, c, b, a]) = [d, c, b, a]" by (metis le_enc_dec)
  then show ?thesis by (simp only: unat_pack)
qed

lemma unpack_pack_eq: "unpack (pack a b c d) = (a, b, c, d)"
  unfolding unpack_def le_enc_pack by (simp add: nth_Cons_numeral)

lemma pack_unpack_eq: "unpack x = (a, b, c, d) \<Longrightarrow> pack a b c d = x"
proof -
  assume u: "unpack x = (a, b, c, d)"
  let ?p = "le_enc 4 (unat x)"
  have "?p = [?p ! 0, ?p ! 1, ?p ! 2, ?p ! 3]"
    by (rule list_of_4) simp
  with u have "[d, c, b, a] = ?p" by (auto simp: unpack_def Let_def)
  moreover have "le_dec ?p = unat x"
    using unsigned_less [of x, where ?'a = nat] by (simp add: le_dec_enc)
  ultimately show ?thesis by (simp add: pack_def)
qed

subsection \<open>Printing and parsing\<close>

lemma scan_lit_Cons [simp]: "scan_lit c (c # s) = Some s"
  by (simp add: scan_lit_def)

lemma not_digit_dot [simp]: "\<not> is_digit CHR ''.''" "\<not> is_digit CHR '':''" "\<not> is_digit CHR '',''"
  by (simp_all add: is_digit_def)

lemma scan_byte: "no_digit rest \<Longrightarrow>
    scan_unsigned 8 (to_string (unat (b :: byte)) @ rest) = Some (unat b, rest)"
  using unat_byte_less [of b] by (subst scan_unsigned_to_string) simp_all

lemma scan_port: "no_digit rest \<Longrightarrow>
    scan_unsigned 16 (to_string (unat (p :: u16)) @ rest) = Some (unat p, rest)"
  using unsigned_less [of p, where ?'a = nat] by (subst scan_unsigned_to_string) simp_all

lemma parse_peer_string:
  assumes "no_digit rest"
  shows "parse_peer_id (peer_string p @ rest) = Some p"
proof -
  obtain a b c d where u: "unpack (ipv4 p) = (a, b, c, d)" by (cases "unpack (ipv4 p)")
  then have "peer_string p @ rest = to_string (unat a) @ CHR ''.'' # to_string (unat b) @ CHR ''.'' #
      to_string (unat c) @ CHR ''.'' # to_string (unat d) @ CHR '':'' # to_string (unat (port p)) @ rest"
    by (simp add: peer_string_def hostname_def)
  moreover have "pack a b c d = ipv4 p" using u by (rule pack_unpack_eq)
  ultimately show ?thesis
    using assms by (simp add: parse_peer_id_def scan_byte scan_port)
qed

lemma peer_string_chars: "c \<in> set (peer_string p) \<Longrightarrow> is_digit c \<or> c = CHR ''.'' \<or> c = CHR '':''"
  by (auto simp: peer_string_def hostname_def Let_def split: prod.splits dest: to_string_digits)

lemma peer_string_nonempty [simp]: "peer_string p \<noteq> []"
  by (simp add: peer_string_def)

lemma parse_pieces_acc: "parse_pieces xs ps = map_option ((@) ps) (parse_pieces xs [])"
proof (induction xs arbitrary: ps)
  case Nil
  show ?case by simp
next
  case (Cons x xs)
  show ?case
  proof (cases "parse_peer_id x")
    case None
    then show ?thesis by simp
  next
    case (Some pid)
    then show ?thesis using Cons [of "ps @ [pid]"] Cons [of "[pid]"] by (simp add: option.map_comp comp_def)
  qed
qed

lemma parse_pieces_strings: "parse_pieces (map peer_string ps) [] = Some ps"
proof (induction ps)
  case Nil
  show ?case by simp
next
  case (Cons p ps)
  then show ?case using parse_peer_string [of "[]" p]
    by (simp add: parse_pieces_acc [of "map peer_string ps" "[p]"])
qed

lemma split_text_join:
  "(\<And>x. x \<in> set xs \<Longrightarrow> x \<noteq> [] \<and> sep \<notin> set x) \<Longrightarrow> split_text (join [sep] xs) sep = xs"
  by (simp add: split_text_def getlines_join)

lemma parse_pieces_None:
  "parse_pieces xs ps = None \<longleftrightarrow> (\<exists>x\<in>set xs. parse_peer_id x = None)"
  by (induction xs arbitrary: ps) (auto split: option.splits)

subsection \<open>Order and hash\<close>

lemma peer_eq_iff [simp]: "peer_eq p q \<longleftrightarrow> p = q"
  by (cases p; cases q) (auto simp: peer_eq_def)

lemma peer_less_iff: "peer_less p q \<longleftrightarrow> p < q"
  by (simp add: peer_less_def less_peer_id_ext_def)

lemma unat_peer_hash: "unat (peer_hash p) = unat (ipv4 p) * 2 ^ 32 + unat (port p)"
proof -
  have i: "unat (ipv4 p) < 2 ^ 32" using unsigned_less [of "ipv4 p", where ?'a = nat] by simp
  have q: "unat (port p) < 2 ^ 16" using unsigned_less [of "port p", where ?'a = nat] by simp
  have dis: "push_bit 32 (ucast (ipv4 p) :: u64) AND ucast (port p) = 0"
    by (rule bit_eqI) (auto simp: bit_simps dest: bit_imp_le_length)
  have "peer_hash p = push_bit 32 (ucast (ipv4 p)) + ucast (port p)"
    unfolding peer_hash_def by (rule disjunctive_add_eq_or [OF dis, symmetric])
  also have "\<dots> = word_of_nat (unat (ipv4 p) * 2 ^ 32 + unat (port p))"
    by (simp add: push_bit_eq_mult)
  finally have "unat (peer_hash p) = (unat (ipv4 p) * 2 ^ 32 + unat (port p)) mod 2 ^ 64"
    by (simp only: unat_of_nat) simp
  also have "\<dots> = unat (ipv4 p) * 2 ^ 32 + unat (port p)" using i q by simp
  finally show ?thesis .
qed

subsection \<open>Peer lists\<close>

lemma rank_less: "rank ps pid < length ps \<longleftrightarrow> pid \<in> set ps"
  by (induction ps) auto

lemma rank_le: "rank ps pid \<le> length ps"
  by (induction ps) auto

lemma rank_nth: "pid \<in> set ps \<Longrightarrow> ps ! rank ps pid = pid"
  by (induction ps) auto

lemma rank_first: "i < rank ps pid \<Longrightarrow> ps ! i \<noteq> pid"
proof (induction ps arbitrary: i)
  case Nil
  then show ?case by simp
next
  case (Cons p ps)
  then show ?case by (cases i) (auto split: if_splits)
qed

lemma rank_distinct: "distinct ps \<Longrightarrow> i < length ps \<Longrightarrow> rank ps (ps ! i) = i"
proof (induction ps arbitrary: i)
  case Nil
  then show ?case by simp
next
  case (Cons p ps)
  then show ?case by (cases i) auto
qed

lemma peers_at_eq: "(\<And>i. i \<in> set ranks \<Longrightarrow> i < length ps) \<Longrightarrow> peers_at ps ranks = Inr (map ((!) ps) ranks)"
  by (simp add: peers_at_def list_all_iff)

lemma parse_peer_list_join: "parse_peer_list (join '','' (map peer_string ps)) = Some ps"
proof -
  have "CHR '','' \<notin> set (peer_string p)" for p
    using peer_string_chars [of "CHR '',''" p] by (auto simp: is_digit_def)
  then have "split_text (join '','' (map peer_string ps)) CHR '','' = map peer_string ps"
    by (intro split_text_join) auto
  then show ?thesis by (simp add: parse_peer_list_def parse_pieces_strings)
qed

section \<open>Properties\<close>

text \<open>The comma-separated printing of any list of peers parses back to the same list.\<close>

theorem parse_peer_list_roundtrip: "parse_peer_list (join '','' (map peer_string ps)) = Some ps"
  by (rule parse_peer_list_join)

text \<open>A list fails to parse exactly when one of its non-empty pieces is not a peer.\<close>

theorem parse_peer_list_fails_iff:
  "parse_peer_list s = None \<longleftrightarrow> (\<exists>x\<in>set (split_text s CHR '',''). parse_peer_id x = None)"
  by (simp add: parse_peer_list_def parse_pieces_None)

text \<open>The 64-bit hash of a peer determines it, and hashes are ordered as \<open>operator<\<close> orders the peers.\<close>

theorem peer_hash_order: "peer_less p q \<longleftrightarrow> peer_hash p < peer_hash q"
proof -
  have q: "unat (port r) < 2 ^ 32" for r :: peer_id
    using unsigned_less [of "port r", where ?'a = nat] by simp
  have "unat (ipv4 p) * 2 ^ 32 + unat (port p) < unat (ipv4 q) * 2 ^ 32 + unat (port q) \<longleftrightarrow>
      unat (ipv4 p) < unat (ipv4 q) \<or> unat (ipv4 p) = unat (ipv4 q) \<and> unat (port p) < unat (port q)"
    using q [of p] q [of q] by (cases "unat (ipv4 p)" "unat (ipv4 q)" rule: linorder_cases) auto
  then show ?thesis
    by (simp add: peer_less_def word_less_nat_alt unat_peer_hash word_unat_eq_iff)
qed

lemma to_string_loopback: "to_string 127 = ''127''" "to_string 0 = ''0''" "to_string 1 = ''1''"
  by code_simp+

lemma gen_one_eq: "i + 10000 < 2 ^ 16 \<Longrightarrow> gen_one i = Inr \<lparr>ipv4 = pack 127 0 0 1, port = word_of_nat (i + 10000)\<rparr>"
proof -
  assume i: "i + 10000 < 2 ^ 16"
  let ?p = "\<lparr>ipv4 = pack 127 0 0 1, port = word_of_nat (i + 10000)\<rparr> :: peer_id"
  have "unat (port ?p) = i + 10000" using i by (simp only: peer_id.simps unat_of_nat) simp
  then have "''127.0.0.1:'' @ to_string (i + 10000) = peer_string ?p"
    by (simp add: peer_string_def hostname_def unpack_pack_eq to_string_loopback [simplified])
  then show ?thesis using parse_peer_string [of "[]" ?p] by (simp add: gen_one_def)
qed

lemma gen_from_eq: "i + n + 10000 \<le> 2 ^ 16 \<Longrightarrow>
    gen_from i n = Inr (map (\<lambda>k. \<lparr>ipv4 = pack 127 0 0 1, port = word_of_nat (k + 10000)\<rparr>) [i..<i + n])"
proof (induction n arbitrary: i)
  case (Suc n)
  have "[i..<i + Suc n] = i # [Suc i..<Suc i + n]" by (simp add: upt_conv_Cons)
  with Suc.IH [of "Suc i"] Suc.prems show ?case by (simp add: gen_one_eq)
qed simp

text \<open>\<open>gen\<close> returns \<open>n\<close> different peers on the loopback address, with consecutive ports from 10000
  on, as long as the ports fit in 16 bits.\<close>

theorem gen_loopback:
  assumes "n + 10000 \<le> 2 ^ 16"
  shows "\<exists>ps. gen n = Inr ps \<and> length ps = n \<and> distinct ps \<and>
    (\<forall>i<n. hostname (ps ! i) = ''127.0.0.1'' \<and> unat (port (ps ! i)) = i + 10000)"
proof -
  let ?p = "\<lambda>k. \<lparr>ipv4 = pack 127 0 0 1, port = word_of_nat (k + 10000)\<rparr> :: peer_id"
  have u: "unat (port (?p i)) = i + 10000" if "i < n" for i
    using that assms by (simp only: peer_id.simps unat_of_nat) simp
  then have "inj_on ?p {0..<n}" by (intro inj_onI) (metis add_right_cancel atLeastLessThan_iff)
  moreover have "gen n = Inr (map ?p [0..<n])" using gen_from_eq [of 0 n] assms by (simp add: gen_def)
  moreover have "hostname (?p i) = ''127.0.0.1''" for i
    by (simp add: hostname_def unpack_pack_eq to_string_loopback [simplified])
  ultimately show ?thesis using u by (intro exI [of _ "map ?p [0..<n]"]) (simp add: distinct_map del: of_nat_add)
qed

theorem gen_loopback_witness:
  "\<exists>ps. gen 4 = Inr ps \<and> length ps = 4 \<and> distinct ps \<and>
    (\<forall>i<4. hostname (ps ! i) = ''127.0.0.1'' \<and> unat (port (ps ! i)) = i + 10000)"
  by (rule gen_loopback) simp

text \<open>\<open>rank\<close> of a peer in a list without duplicates is its position, and the size of the list if the
  peer is not in it.\<close>

theorem rank_position:
  assumes "distinct ps"
  shows "(i < length ps \<longrightarrow> rank ps (ps ! i) = i) \<and> (pid \<notin> set ps \<longrightarrow> rank ps pid = length ps)"
  using rank_distinct [OF assms] rank_less [of ps pid] rank_le [of ps pid] by auto

theorem rank_position_witness:
  "(let ps = [\<lparr>ipv4 = 1, port = 2\<rparr>, \<lparr>ipv4 = 1, port = 3\<rparr>] in
    (1 < length ps \<longrightarrow> rank ps (ps ! 1) = 1) \<and> (\<lparr>ipv4 = 7, port = 3\<rparr> \<notin> set ps \<longrightarrow> rank ps \<lparr>ipv4 = 7, port = 3\<rparr> = length ps))"
  unfolding Let_def by (rule rank_position) simp

end
