(* ===== verification/Cluster.thy ===== *)
theory Cluster
  imports Address
begin

text \<open>
  Cluster configurations: \<open>cluster_config\<close> of \<open>address.hpp\<close>, the second half of \<open>address.cpp\<close>
  (\<open>next_unused\<close>, \<open>resize\<close>, \<open>bytes\<close>, \<open>from\<close>, \<open>json\<close>) and the printers of \<open>json.hpp\<close> it uses.
  \<open>resize\<close> grows the worker list on the least loaded runner host; its port search is a loop that
  need not end, so it is a \<open>partial_function\<close> in the option monad, and dereferencing
  \<open>std::min_element\<close> of an empty vector is an \<open>Undefined_behaviour\<close> result. The lemmas show when
  the search ends, what \<open>resize\<close> returns on every branch, and that \<open>bytes\<close> and \<open>from\<close> are inverse
  to each other.
\<close>

record cluster_config =
  runners :: peer_list
  workers :: peer_list

text \<open>A call that may not return (\<open>None\<close>), or fail, or return a value.\<close>

type_synonym 'a outcome = "'a res option"

section \<open>Resizing\<close>

text \<open>\<open>std::min_element\<close>: the first smallest element; \<open>None\<close> is the iterator \<open>end()\<close>.\<close>

fun min_element :: "('a \<Rightarrow> 'a \<Rightarrow> bool) \<Rightarrow> 'a list \<Rightarrow> 'a option" where
  "min_element lt [] = None"
| "min_element lt (x # xs) = Some (foldl (\<lambda>m y. if lt y m then y else m) x xs)"

partial_function (option) skip_used :: "u16 list \<Rightarrow> u16 \<Rightarrow> u16 option" where
  "skip_used used x = (if x \<in> set used then skip_used used (x + 1) else Some x)"

definition next_unused :: "u16 list \<Rightarrow> u16 outcome" where
  "next_unused used = (case min_element (<) used of
     None \<Rightarrow> Some (Inl (Undefined_behaviour ''min_element of an empty vector''))
   | Some m \<Rightarrow> map_option Inr (skip_used used (m + 1)))"

fun count_ports :: "peer_list \<Rightarrow> (u32 \<Rightarrow> u16 list) \<Rightarrow> u32 \<Rightarrow> u16 list" where
  "count_ports [] m = m"
| "count_ports (w # ws) m = count_ports ws (m(ipv4 w := m (ipv4 w) @ [port w]))"

fun grow :: "nat \<Rightarrow> peer_list \<Rightarrow> (u32 \<Rightarrow> u16 list) \<Rightarrow> peer_list \<Rightarrow> peer_list outcome" where
  "grow 0 rs used ws = Some (Inr ws)"
| "grow (Suc k) rs used ws =
     (case min_element (\<lambda>p q. length (used (ipv4 p)) < length (used (ipv4 q))) rs of
        None \<Rightarrow> Some (Inl (Undefined_behaviour ''min_element of an empty vector''))
      | Some r \<Rightarrow>
          (case next_unused (used (ipv4 r)) of
             None \<Rightarrow> None
           | Some (Inl e) \<Rightarrow> Some (Inl e)
           | Some (Inr p) \<Rightarrow>
               grow k rs (used(ipv4 r := used (ipv4 r) @ [p])) (ws @ [\<lparr>ipv4 = ipv4 r, port = p\<rparr>])))"

definition resize :: "cluster_config \<Rightarrow> nat \<Rightarrow> cluster_config outcome" where
  "resize c new_size =
     (if new_size \<le> length (workers c) then Some (Inr (c\<lparr>workers := take new_size (workers c)\<rparr>))
      else if runners c = [] then Some (Inr c)
      else map_option (res_map (\<lambda>ws. \<lparr>runners = runners c, workers = ws\<rparr>))
        (grow (new_size - length (workers c)) (runners c)
           (count_ports (workers c) (\<lambda>_. [])) (workers c)))"

section \<open>Binary form\<close>

definition enc_peer :: "peer_id \<Rightarrow> byte list" where
  "enc_peer p = le_enc 4 (unat (ipv4 p)) @ le_enc 2 (unat (port p))"

definition dec_peer :: "byte list \<Rightarrow> peer_id" where
  "dec_peer bs = \<lparr>ipv4 = word_of_nat (le_dec (take 4 bs)),
     port = word_of_nat (le_dec (take 2 (drop 4 bs)))\<rparr>"

definition cluster_bytes :: "cluster_config \<Rightarrow> byte list" where
  "cluster_bytes c = le_enc 4 (length (runners c)) @ le_enc 4 (length (workers c)) @
     concat (map enc_peer (runners c)) @ concat (map enc_peer (workers c))"

text \<open>\<open>from\<close> reads both counters before it checks the size of its input.\<close>

definition cluster_from :: "byte list \<Rightarrow> cluster_config option res" where
  "cluster_from bs =
     (if length bs < 8 then Inl (Undefined_behaviour ''read past the end of the vector'')
      else (let nw = le_dec (take 4 bs); nr = le_dec (take 4 (drop 4 bs)) in
        if 6 * nw + 6 * nr + 8 \<noteq> length bs then Inr None
        else Inr (Some \<lparr>runners = map dec_peer (chunks 6 nw (drop 8 bs)),
                        workers = map dec_peer (chunks 6 nr (drop (8 + 6 * nw) bs))\<rparr>)))"

section \<open>JSON\<close>

definition quote_char :: char where
  "quote_char = CHR 0x22"

definition to_json_string :: "string \<Rightarrow> string" where
  "to_json_string s = [quote_char] @ s @ [quote_char]"

definition to_json_int :: "int \<Rightarrow> string" where
  "to_json_int x = to_string_int x"

definition to_json_pair :: "string \<times> int \<Rightarrow> string" where
  "to_json_pair p = to_json_string (fst p) @ '':'' @ to_json_int (snd p)"

text \<open>The fields are collected as \<open>std::pair<std::string, int>\<close>: the address becomes a signed int.\<close>

definition peer_to_json :: "peer_id \<Rightarrow> string" where
  "peer_to_json p = ''{'' @ join '','' (map to_json_pair
     [(''IPv4'', sint (ipv4 p)), (''Port'', uint (port p))]) @ ''}''"

definition cluster_json :: "cluster_config \<Rightarrow> string" where
  "cluster_json c = ''{'' @ to_json_string ''Runners'' @ '':'' @
     ''['' @ join '','' (map peer_to_json (runners c)) @ '']'' @ '','' @
     to_json_string ''Workers'' @ '':'' @
     ''['' @ join '','' (map peer_to_json (workers c)) @ '']'' @ ''}''"

definition show_cluster :: "cluster_config \<Rightarrow> string" where
  "show_cluster c = ''runners: '' @ show_peer_list (runners c) @
     '', workers: '' @ show_peer_list (workers c)"

section \<open>Lemmas on resizing\<close>

lemma foldl_min_in: "foldl (\<lambda>m y. if lt y m then y else m) x xs \<in> insert x (set xs)"
proof (induction xs arbitrary: x)
  case Nil
  show ?case by simp
next
  case (Cons a xs)
  show ?case using Cons [of a] Cons [of x] by auto
qed

lemma min_element_in: "min_element lt xs = Some x \<Longrightarrow> x \<in> set xs"
proof (cases xs)
  case (Cons a as)
  moreover assume "min_element lt xs = Some x"
  ultimately show ?thesis using foldl_min_in [of lt a as] by auto
qed simp

lemma min_element_None [simp]: "min_element lt xs = None \<longleftrightarrow> xs = []"
  by (cases xs) auto

lemma foldl_min_le:
  fixes f :: "'a \<Rightarrow> nat"
  shows "y \<in> insert x (set xs) \<Longrightarrow> f (foldl (\<lambda>m y. if f y < f m then y else m) x xs) \<le> f y"
proof (induction xs arbitrary: x y)
  case Nil
  then show ?case by simp
next
  case (Cons a xs)
  let ?b = "if f a < f x then a else x"
  have "f (foldl (\<lambda>m y. if f y < f m then y else m) ?b xs) \<le> f ?b" by (rule Cons.IH) simp
  moreover have "y \<in> set xs \<Longrightarrow> f (foldl (\<lambda>m y. if f y < f m then y else m) ?b xs) \<le> f y"
    by (rule Cons.IH) simp
  ultimately show ?case using Cons.prems by (auto split: if_splits)
qed

lemma min_element_le:
  fixes f :: "'a \<Rightarrow> nat"
  shows "min_element (\<lambda>p q. f p < f q) xs = Some x \<Longrightarrow> y \<in> set xs \<Longrightarrow> f x \<le> f y"
  by (cases xs) (auto intro: foldl_min_le)

text \<open>The port search ends as soon as one port is free, and returns a free port.\<close>

lemma skip_used_ends:
  "y \<notin> set used \<Longrightarrow> \<exists>z. skip_used used x = Some z \<and> z \<notin> set used"
proof (induction "unat (y - x)" arbitrary: x rule: less_induct)
  case less
  show ?case
  proof (cases "x \<in> set used")
    case False
    then show ?thesis by (subst skip_used.simps) simp
  next
    case True
    with less.prems have "y - x \<noteq> 0" by auto
    then have "unat (y - x - 1) < unat (y - x)"
      by (simp add: unat_minus_one unat_gt_0 [THEN iffD2])
    then have "unat (y - (x + 1)) < unat (y - x)" by (simp add: algebra_simps)
    from less.hyps [OF this less.prems] True show ?thesis by (subst skip_used.simps) simp
  qed
qed

lemma next_unused_free:
  assumes "used \<noteq> []" and "length used < 2 ^ 16"
  shows "\<exists>p. next_unused used = Some (Inr p) \<and> p \<notin> set used"
proof -
  have "card (set used) < card (UNIV :: u16 set)"
    using assms(2) card_length [of used] by (simp add: card_word)
  then obtain y :: u16 where "y \<notin> set used"
    by (metis UNIV_I card_mono finite_set linorder_not_less subsetI)
  moreover obtain m where "min_element (<) used = Some m"
    using assms(1) by (cases "min_element (<) used") auto
  ultimately show ?thesis using skip_used_ends [of y used "m + 1"] by (auto simp: next_unused_def)
qed

lemma next_unused_Nil: "next_unused [] = Some (Inl (Undefined_behaviour ''min_element of an empty vector''))"
  by (simp add: next_unused_def)

lemma count_ports_eq: "count_ports ws m a = m a @ map port (filter (\<lambda>w. ipv4 w = a) ws)"
  by (induction ws arbitrary: m) auto

definition host_ports :: "peer_list \<Rightarrow> u32 \<Rightarrow> u16 list" where
  "host_ports ws a = map port (filter (\<lambda>w. ipv4 w = a) ws)"

lemma host_ports_append: "host_ports (ws @ vs) a = host_ports ws a @ host_ports vs a"
  by (simp add: host_ports_def)

lemma length_host_ports: "length (host_ports ws a) \<le> length ws"
  by (simp add: host_ports_def)

lemma host_ports_upd:
  "(host_ports ws)(a := host_ports ws a @ [p]) = host_ports (ws @ [\<lparr>ipv4 = a, port = p\<rparr>])"
  by (rule ext) (simp add: host_ports_append host_ports_def)

lemma host_ports_fresh: "p \<notin> set (host_ports ws a) \<Longrightarrow> \<lparr>ipv4 = a, port = p\<rparr> \<notin> set ws"
  by (force simp: host_ports_def)

lemma host_ports_Nil: "host_ports ws a = [] \<longleftrightarrow> a \<notin> ipv4 ` set ws"
  by (auto simp: host_ports_def filter_empty_conv)

lemma count_ports_host: "count_ports ws (\<lambda>_. []) = host_ports ws"
  by (rule ext) (simp add: count_ports_eq host_ports_def)

text \<open>
  The growing loop, from a list in which every runner host already carries a worker: it appends
  exactly \<open>k\<close> workers, all on runner hosts, and keeps the list free of duplicates.
\<close>

definition grown :: "peer_list \<Rightarrow> peer_list \<Rightarrow> nat \<Rightarrow> peer_list \<Rightarrow> bool" where
  "grown rs ws k vs \<longleftrightarrow> (\<exists>new. vs = ws @ new \<and> length new = k \<and>
     ipv4 ` set new \<subseteq> ipv4 ` set rs \<and> (distinct ws \<longrightarrow> distinct vs))"

lemma grown_step:
  assumes "grown rs (ws @ [\<lparr>ipv4 = a, port = p\<rparr>]) k vs" and "a \<in> ipv4 ` set rs"
    and "p \<notin> set (host_ports ws a)"
  shows "grown rs ws (Suc k) vs"
proof -
  let ?w = "\<lparr>ipv4 = a, port = p\<rparr> :: peer_id"
  from assms(1) obtain new where new: "vs = ws @ ?w # new" "length new = k"
    "ipv4 ` set new \<subseteq> ipv4 ` set rs" "distinct (ws @ [?w]) \<longrightarrow> distinct vs"
    by (auto simp: grown_def)
  have "?w \<notin> set ws" using assms(3) by (rule host_ports_fresh)
  with new assms(2) have "vs = ws @ (?w # new)" "length (?w # new) = Suc k"
    "ipv4 ` set (?w # new) \<subseteq> ipv4 ` set rs" "distinct ws \<longrightarrow> distinct vs" by auto
  then show ?thesis unfolding grown_def by blast
qed

lemma grow_host_ports:
  assumes "rs \<noteq> []" and "ipv4 ` set rs \<subseteq> ipv4 ` set ws" and "length ws + k \<le> 2 ^ 16"
  shows "\<exists>vs. grow k rs (host_ports ws) ws = Some (Inr vs) \<and> grown rs ws k vs"
  using assms
proof (induction k arbitrary: ws)
  case 0
  then show ?case by (simp add: grown_def)
next
  case (Suc k)
  let ?lt = "\<lambda>p q. length (host_ports ws (ipv4 p)) < length (host_ports ws (ipv4 q))"
  obtain r where r: "min_element ?lt rs = Some r" using Suc.prems(1) by (cases "min_element ?lt rs") auto
  then have r_in: "ipv4 r \<in> ipv4 ` set rs" by (auto dest: min_element_in)
  with Suc.prems(2) have "host_ports ws (ipv4 r) \<noteq> []" by (auto simp: host_ports_Nil)
  moreover have "length (host_ports ws (ipv4 r)) < 2 ^ 16"
    using length_host_ports [of ws "ipv4 r"] Suc.prems(3) by linarith
  ultimately obtain p where p: "next_unused (host_ports ws (ipv4 r)) = Some (Inr p)"
    "p \<notin> set (host_ports ws (ipv4 r))" using next_unused_free by blast
  let ?ws = "ws @ [\<lparr>ipv4 = ipv4 r, port = p\<rparr>]"
  from Suc.IH [of ?ws] Suc.prems obtain vs
    where vs: "grow k rs (host_ports ?ws) ?ws = Some (Inr vs)" "grown rs ?ws k vs" by auto
  have "grow (Suc k) rs (host_ports ws) ws = Some (Inr vs)"
    using vs(1) by (simp add: r p(1) host_ports_upd)
  moreover have "grown rs ws (Suc k) vs" using vs(2) r_in p(2) by (rule grown_step)
  ultimately show ?case by blast
qed

section \<open>Lemmas on the binary form\<close>

lemma length_enc_peer [simp, enc_simps]: "length (enc_peer p) = 6"
  by (simp add: enc_peer_def)

lemma dec_enc_peer [simp]: "dec_peer (enc_peer p) = p"
  using unsigned_less [of "ipv4 p", where ?'a = nat] unsigned_less [of "port p", where ?'a = nat]
  by (simp add: enc_peer_def dec_peer_def le_dec_enc)

lemma enc_dec_peer:
  assumes "length bs = 6"
  shows "enc_peer (dec_peer bs) = bs"
proof -
  have a: "le_dec (take 4 bs) < 2 ^ 32" using le_dec_bound [of "take 4 bs"] assms by simp
  have b: "le_dec (take 2 (drop 4 bs)) < 2 ^ 16" using le_dec_bound [of "take 2 (drop 4 bs)"] assms by simp
  have "enc_peer (dec_peer bs) = le_enc 4 (le_dec (take 4 bs)) @ le_enc 2 (le_dec (take 2 (drop 4 bs)))"
    using a b by (simp add: enc_peer_def dec_peer_def unat_of_nat)
  also have "\<dots> = take 4 bs @ take 2 (drop 4 bs)"
    using le_enc_dec [of "take 4 bs"] le_enc_dec [of "take 2 (drop 4 bs)"] assms by simp
  also have "\<dots> = bs" using assms by (simp flip: take_add)
  finally show ?thesis .
qed

lemma length_concat_enc [simp]: "length (concat (map enc_peer ps)) = 6 * length ps"
  by (induction ps) simp_all

lemma dec_concat_enc: "map dec_peer (chunks 6 (length ps) (concat (map enc_peer ps) @ rest)) = ps"
  by (induction ps) simp_all

lemma enc_concat_dec:
  "length bs = 6 * n \<Longrightarrow> concat (map enc_peer (map dec_peer (chunks 6 n bs))) = bs"
proof (induction n arbitrary: bs)
  case 0
  then show ?case by simp
next
  case (Suc n)
  then show ?case by (simp add: enc_dec_peer)
qed

lemma length_cluster_bytes:
  "length (cluster_bytes c) = 8 + 6 * length (runners c) + 6 * length (workers c)"
  by (simp add: cluster_bytes_def)

lemma chunks_take: "chunks s n xs = chunks s n (take (s * n) xs)"
proof (induction s n xs rule: chunks.induct)
  case (2 s n xs)
  then show ?case by (simp add: min_def drop_take)
qed simp

text \<open>The signed reading of a 32-bit word.\<close>

lemma sint_unat_32:
  "sint (x :: u32) = (if unat x < 2 ^ 31 then int (unat x) else int (unat x) - 2 ^ 32)"
proof -
  have u: "0 \<le> uint x" "uint x < 2 ^ 32" using uint_lt2p [of x] by simp_all
  have b: "bit (uint x) 31 \<longleftrightarrow> 2 ^ 31 \<le> uint x"
  proof (cases "2 ^ 31 \<le> uint x")
    case True
    then have "uint x div 2 ^ 31 = 1" using u by (intro int_div_pos_eq [where r = "uint x - 2 ^ 31"]) auto
    with True show ?thesis by (simp add: bit_iff_odd)
  next
    case False
    with u show ?thesis by (simp add: bit_iff_odd div_pos_pos_trivial)
  qed
  have "sint x = signed_take_bit 31 (uint x)" by (simp add: sint_uint)
  also have "\<dots> = uint x - 2 ^ 32 * of_bool (bit (uint x) 31)"
    using u by (simp add: signed_take_bit_eq_take_bit_minus take_bit_int_eq_self)
  finally have "sint x = (if 2 ^ 31 \<le> uint x then uint x - 2 ^ 32 else uint x)" using b by simp
  moreover have "unat x < 2 ^ 31 \<longleftrightarrow> \<not> 2 ^ 31 \<le> uint x"
    by (simp add: unat_eq_nat_uint nat_less_iff del: nat_uint_eq) linarith
  ultimately show ?thesis by simp
qed

lemma from_bytes_eq:
  assumes "length (runners c) < 2 ^ 32" and "length (workers c) < 2 ^ 32"
  shows "cluster_from (cluster_bytes c) = Inr (Some c)"
proof -
  let ?r = "concat (map enc_peer (runners c))" and ?w = "concat (map enc_peer (workers c))"
  have bs: "cluster_bytes c = le_enc 4 (length (runners c)) @ le_enc 4 (length (workers c)) @ ?r @ ?w"
    by (simp add: cluster_bytes_def)
  have n: "le_dec (take 4 (cluster_bytes c)) = length (runners c)"
    "le_dec (take 4 (drop 4 (cluster_bytes c))) = length (workers c)"
    using assms by (simp_all add: bs le_dec_enc)
  have d: "drop 8 (cluster_bytes c) = ?r @ ?w" "drop (8 + 6 * length (runners c)) (cluster_bytes c) = ?w"
    by (simp_all add: bs)
  have "map dec_peer (chunks 6 (length (workers c)) ?w) = workers c"
    using dec_concat_enc [of "workers c" "[]"] by simp
  then show ?thesis
    by (simp add: cluster_from_def Let_def n d length_cluster_bytes dec_concat_enc del: drop_drop)
qed

lemma cluster_bytes_inj:
  assumes "length (runners c) < 2 ^ 32" and "length (workers c) < 2 ^ 32"
    and "length (runners d) < 2 ^ 32" and "length (workers d) < 2 ^ 32" and "cluster_bytes c = cluster_bytes d"
  shows "c = d"
  using from_bytes_eq [OF assms(1,2)] from_bytes_eq [OF assms(3,4)] assms(5) by (metis Inr_inject option.inject)

section \<open>Properties\<close>

text \<open>C20: The binary form of a cluster configuration decodes to the configuration it was made from.\<close>

theorem cluster_from_bytes:
  assumes "length (runners c) < 2 ^ 32" and "length (workers c) < 2 ^ 32"
  shows "cluster_from (cluster_bytes c) = Inr (Some c)"
  using assms by (rule from_bytes_eq)

theorem cluster_from_bytes_witness:
  "(let c = \<lparr>runners = [\<lparr>ipv4 = 1, port = 2\<rparr>], workers = []\<rparr> in cluster_from (cluster_bytes c) = Inr (Some c))"
  unfolding Let_def by (rule cluster_from_bytes) simp_all

text \<open>Conversely, whatever \<open>from\<close> accepts is the binary form of the configuration it returns.\<close>

theorem cluster_bytes_from:
  assumes "cluster_from bs = Inr (Some c)"
  shows "cluster_bytes c = bs"
proof -
  let ?nw = "le_dec (take 4 bs)" and ?nr = "le_dec (take 4 (drop 4 bs))"
  have len: "8 \<le> length bs" "6 * ?nw + 6 * ?nr + 8 = length bs"
    and c: "c = \<lparr>runners = map dec_peer (chunks 6 ?nw (drop 8 bs)), workers = map dec_peer (chunks 6 ?nr (drop (8 + 6 * ?nw) bs))\<rparr>"
    using assms by (auto simp: cluster_from_def Let_def split: if_splits)
  have "chunks 6 ?nw (drop 8 bs) = chunks 6 ?nw (take (6 * ?nw) (drop 8 bs))"
    by (rule chunks_take)
  then have r: "concat (map enc_peer (runners c)) = take (6 * ?nw) (drop 8 bs)"
    using enc_concat_dec [of "take (6 * ?nw) (drop 8 bs)" ?nw] len(2) by (simp add: c)
  have w: "concat (map enc_peer (workers c)) = drop (6 * ?nw) (drop 8 bs)"
    using enc_concat_dec [of "drop (8 + 6 * ?nw) bs" ?nr] len(2) by (simp add: c add.commute)
  have "le_enc 4 ?nw = take 4 bs" "le_enc 4 ?nr = take 4 (drop 4 bs)"
    using le_enc_dec [of "take 4 bs"] le_enc_dec [of "take 4 (drop 4 bs)"] len(1) by simp_all
  then have "cluster_bytes c = take 4 bs @ take 4 (drop 4 bs) @ drop 8 bs"
    unfolding cluster_bytes_def r w append_take_drop_id by (simp add: c)
  also have "\<dots> = bs" using append_take_drop_id [of 4 "drop 4 bs"] by simp
  finally show ?thesis .
qed

theorem cluster_bytes_from_witness:
  "cluster_bytes \<lparr>runners = [], workers = []\<rparr> = replicate 8 0"
  by (rule cluster_bytes_from) (simp add: cluster_from_def Let_def eval_nat_numeral)

lemma resize_workers:
  assumes "runners c \<noteq> []" and "ipv4 ` set (runners c) \<subseteq> ipv4 ` set (workers c)" and "n \<le> 2 ^ 16"
  shows "\<exists>vs. resize c n = Some (Inr \<lparr>runners = runners c, workers = vs\<rparr>) \<and> length vs = n \<and>
    (n \<le> length (workers c) \<longrightarrow> vs = take n (workers c)) \<and>
    (length (workers c) \<le> n \<longrightarrow> take (length (workers c)) vs = workers c \<and>
      ipv4 ` set (drop (length (workers c)) vs) \<subseteq> ipv4 ` set (runners c)) \<and>
    (distinct (workers c) \<longrightarrow> distinct vs)"
proof (cases "n \<le> length (workers c)")
  case True
  then show ?thesis by (intro exI [of _ "take n (workers c)"]) (auto simp: resize_def)
next
  case False
  let ?k = "n - length (workers c)"
  obtain vs where vs: "grow ?k (runners c) (host_ports (workers c)) (workers c) = Some (Inr vs)"
      "grown (runners c) (workers c) ?k vs"
    using grow_host_ports [OF assms(1,2), of ?k] False assms(3) by auto
  then have "resize c n = Some (Inr \<lparr>runners = runners c, workers = vs\<rparr>)"
    using False assms(1) by (simp add: resize_def count_ports_host)
  with vs(2) False show ?thesis unfolding grown_def by (intro exI [of _ vs]) auto
qed

text \<open>C21: Shrinking keeps the first workers; growing appends exactly the missing workers, on runner
  hosts only and without making two workers equal, provided every runner host already carries a worker
  and there are at most \<open>2 ^ 16\<close> of them. In particular the port search ends.\<close>

theorem resize_correct:
  assumes "runners c \<noteq> []" and "ipv4 ` set (runners c) \<subseteq> ipv4 ` set (workers c)" and "n \<le> 2 ^ 16"
  shows "\<exists>vs. resize c n = Some (Inr \<lparr>runners = runners c, workers = vs\<rparr>) \<and> length vs = n \<and>
    (n \<le> length (workers c) \<longrightarrow> vs = take n (workers c)) \<and>
    (length (workers c) \<le> n \<longrightarrow> take (length (workers c)) vs = workers c \<and>
      ipv4 ` set (drop (length (workers c)) vs) \<subseteq> ipv4 ` set (runners c)) \<and>
    (distinct (workers c) \<longrightarrow> distinct vs)"
  using assms by (rule resize_workers)

theorem resize_correct_witness:
  "(let p = \<lparr>ipv4 = 1, port = 80\<rparr>; c = \<lparr>runners = [p], workers = [p]\<rparr> in
    \<exists>vs. resize c 3 = Some (Inr \<lparr>runners = runners c, workers = vs\<rparr>) \<and> length vs = 3 \<and>
    (3 \<le> length (workers c) \<longrightarrow> vs = take 3 (workers c)) \<and>
    (length (workers c) \<le> 3 \<longrightarrow> take (length (workers c)) vs = workers c \<and>
      ipv4 ` set (drop (length (workers c)) vs) \<subseteq> ipv4 ` set (runners c)) \<and>
    (distinct (workers c) \<longrightarrow> distinct vs))"
  unfolding Let_def by (rule resize_correct) simp_all

text \<open>C22: Growing a cluster when some runner host carries no worker dereferences the end of an empty
  vector of ports, whatever the other hosts are.\<close>

theorem resize_idle_host:
  assumes "length (workers c) < n" and "r \<in> set (runners c)" and "ipv4 r \<notin> ipv4 ` set (workers c)"
  shows "resize c n = Some (Inl (Undefined_behaviour ''min_element of an empty vector''))"
proof -
  let ?f = "\<lambda>p. length (host_ports (workers c) (ipv4 p))"
  obtain k where k: "n - length (workers c) = Suc k" using assms(1) by (cases "n - length (workers c)") auto
  obtain x where x: "min_element (\<lambda>p q. ?f p < ?f q) (runners c) = Some x"
    using assms(2) by (cases "min_element (\<lambda>p q. ?f p < ?f q) (runners c)") auto
  have "?f x \<le> ?f r" using x assms(2) by (rule min_element_le)
  then have "host_ports (workers c) (ipv4 x) = []" using assms(3) by (simp add: host_ports_Nil [THEN iffD2])
  then have "grow (Suc k) (runners c) (host_ports (workers c)) (workers c) =
      Some (Inl (Undefined_behaviour ''min_element of an empty vector''))"
    by (simp add: x next_unused_Nil)
  then show ?thesis using assms(1,2) k by (auto simp: resize_def count_ports_host)
qed

theorem resize_idle_host_witness:
  "resize \<lparr>runners = [\<lparr>ipv4 = 5, port = 9\<rparr>], workers = [\<lparr>ipv4 = 1, port = 80\<rparr>]\<rparr> 2 =
    Some (Inl (Undefined_behaviour ''min_element of an empty vector''))"
  by (rule resize_idle_host [where r = "\<lparr>ipv4 = 5, port = 9\<rparr>"]) simp_all

text \<open>The JSON form of a peer carries its address exactly when the address is below 128.0.0.0; above
  it the printed number is negative.\<close>

theorem peer_json_address:
  "peer_to_json p = ''{'' @ to_json_string ''IPv4'' @ '':'' @
     (if unat (ipv4 p) < 2 ^ 31 then to_string (unat (ipv4 p)) else CHR ''-'' # to_string (2 ^ 32 - unat (ipv4 p))) @
     '','' @ to_json_string ''Port'' @ '':'' @ to_string (unat (port p)) @ ''}''"
proof -
  have u: "unat (ipv4 p) < 2 ^ 32" using unsigned_less [of "ipv4 p", where ?'a = nat] by simp
  have s: "sint (ipv4 p) = (if unat (ipv4 p) < 2 ^ 31 then int (unat (ipv4 p)) else int (unat (ipv4 p)) - 2 ^ 32)"
    by (rule sint_unat_32)
  have "nat (- (int v - 2 ^ 32)) = 2 ^ 32 - v" if "v < 2 ^ 32" for v :: nat using that by (simp add: nat_diff_distrib)
  from this [OF u] s u show ?thesis
    by (auto simp: peer_to_json_def to_json_pair_def to_json_int_def to_string_int_def nat_uint_eq)
qed

end
