(* ===== verification/Registry.thy ===== *)
theory Registry
  imports Prelude
begin

text \<open>
  The contract of the lookup-or-create operations \<open>require\<close> of the program: the mailboxes of
  \<open>mailbox.hpp\<close>, the connections of a client and the clients of a pool (\<open>client.cpp\<close>). Each keeps a
  map from keys to objects it owns and hands out a pointer to the object of a key, creating it at
  the first request. Pointers are positions in the list of objects created so far.

  Inside the locale it is shown that a sequence of requests returns the same pointer twice exactly
  for the same key.
\<close>

fun require_all :: "('k \<Rightarrow> 's \<Rightarrow> nat \<times> 's) \<Rightarrow> 'k list \<Rightarrow> 's \<Rightarrow> nat list \<times> 's" where
  "require_all f [] s = ([], s)"
| "require_all f (k # ks) s = (let (p, s1) = f k s; (ps, s2) = require_all f ks s1 in (p # ps, s2))"

text \<open>A map whose values are positions below \<open>n\<close>, different for different keys.\<close>

definition table_inv :: "('k \<rightharpoonup> nat) \<Rightarrow> nat \<Rightarrow> bool" where
  "table_inv m n \<longleftrightarrow> (\<forall>k p. m k = Some p \<longrightarrow> p < n) \<and> (\<forall>k k' p. m k = Some p \<longrightarrow> m k' = Some p \<longrightarrow> k = k')"

lemma table_inv_empty [simp]: "table_inv (\<lambda>_. None) n"
  by (simp add: table_inv_def)

lemma table_inv_insert [intro]: "table_inv m n \<Longrightarrow> table_inv (m(k \<mapsto> n)) (Suc n)"
  unfolding table_inv_def by (auto split: if_splits) (use less_Suc_eq less_irrefl in blast)+

lemma table_inv_inj: "table_inv m n \<Longrightarrow> m k = Some p \<Longrightarrow> m k' = Some p \<Longrightarrow> k = k'"
  unfolding table_inv_def by blast

lemma table_inv_less: "table_inv m n \<Longrightarrow> m k = Some p \<Longrightarrow> p < n"
  unfolding table_inv_def by blast

lemma table_inv_delete [intro]: "table_inv m n \<Longrightarrow> table_inv (m(k := None)) n"
  unfolding table_inv_def by (auto split: if_splits)

locale registry =
  fixes find :: "'s \<Rightarrow> 'k \<Rightarrow> nat option"
    and require :: "'k \<Rightarrow> 's \<Rightarrow> nat \<times> 's"
    and inv :: "'s \<Rightarrow> bool"
  assumes inv_require: "inv s \<Longrightarrow> require k s = (p, s') \<Longrightarrow> inv s'"
    and find_require: "inv s \<Longrightarrow> require k s = (p, s') \<Longrightarrow> find s' k' = (if k' = k then Some p else find s k')"
    and require_find: "find s k = Some p \<Longrightarrow> require k s = (p, s)"
    and find_inj: "inv s \<Longrightarrow> find s k = Some p \<Longrightarrow> find s k' = Some p \<Longrightarrow> k = k'"
begin

lemma require_keeps: "inv s \<Longrightarrow> require k s = (p, s') \<Longrightarrow> find s k' = Some q \<Longrightarrow> find s' k' = Some q"
  using find_require [of s k p s' k'] require_find [of s k' q] by auto

lemma require_again: "inv s \<Longrightarrow> require k s = (p, s') \<Longrightarrow> require k s' = (p, s')"
  using find_require [of s k p s' k] by (intro require_find) simp

lemma require_all_find:
  "inv s \<Longrightarrow> require_all require ks s = (ps, s') \<Longrightarrow>
     inv s' \<and> length ps = length ks \<and> (\<forall>i<length ks. find s' (ks ! i) = Some (ps ! i)) \<and>
     (\<forall>k q. find s k = Some q \<longrightarrow> find s' k = Some q)"
proof (induction ks arbitrary: s ps)
  case Nil
  then show ?case by simp
next
  case (Cons k ks)
  obtain p s1 where r: "require k s = (p, s1)" by fastforce
  obtain ps' where rest: "require_all require ks s1 = (ps', s')" and ps: "ps = p # ps'"
    using Cons.prems(2) r by (auto split: prod.splits)
  have i: "inv s1" using Cons.prems(1) r by (rule inv_require)
  note ih = Cons.IH [OF i rest]
  have "find s1 k = Some p" using find_require [OF Cons.prems(1) r] by simp
  with ih have "find s' k = Some p" by blast
  then have "find s' ((k # ks) ! j) = Some ((p # ps') ! j)" if "j < length (k # ks)" for j
    using ih that by (cases j) simp_all
  with ih ps require_keeps [OF Cons.prems(1) r] show ?case by simp
qed

lemma require_same_iff:
  assumes "inv s" and "require_all require ks s = (ps, s')" and "i < length ks" and "j < length ks"
  shows "ps ! i = ps ! j \<longleftrightarrow> ks ! i = ks ! j"
  using require_all_find [OF assms(1,2)] assms(3,4) by (metis find_inj option.inject)

end

end
