(* ===== verification/Wire.thy ===== *)
theory Wire
  imports Address
begin

text \<open>
  Messages on connections: \<open>include/stdml/bits/collective/connection.hpp\<close>, \<open>rchan.hpp\<close>,
  \<open>net/ioutil.hpp\<close> and the readers and writers of \<open>src/stdml/collective/net/c++20/rchan.cpp\<close> (those
  of \<open>net/old/rchan.cpp\<close> are in \<open>Plain_Channel\<close>).

  What a socket will deliver is a \<open>stream\<close>: the list of the pieces that successive calls of
  \<open>read_some\<close> find, ended by the end of the connection. A non-blocking socket delivers a list of
  events instead, some of which say that nothing is there yet. The lemmas show that exact reads do
  not depend on how the bytes are cut into pieces, that a sequence of messages written with \<open>send\<close>
  is handled one by one, in order and complete, however the bytes arrive, and that the opening
  handshake transmits the type and the source of a connection.
\<close>

section \<open>Exact reads\<close>

type_synonym stream = "byte list list"

text \<open>\<open>read_some\<close> returns what the next piece holds, at most \<open>n\<close> bytes; no bytes at the end.\<close>

fun read_some :: "nat \<Rightarrow> stream \<Rightarrow> byte list \<times> stream" where
  "read_some n [] = ([], [])"
| "read_some n (p # ps) = (take n p, if length p \<le> n then ps else drop n p # ps)"

definition unexpected_eof :: cxx_error where
  "unexpected_eof = Exception ''unexpected EOF''"

function io_exact :: "nat \<Rightarrow> stream \<Rightarrow> (byte list \<times> stream) res" where
  "io_exact n s =
     (if n = 0 then Inr ([], s)
      else (let (b, s') = read_some n s in
        if b = [] then Inl unexpected_eof
        else res_map (\<lambda>(bs, s''). (b @ bs, s'')) (io_exact (n - length b) s')))"
  by pat_completeness auto
termination by (relation "measure fst") auto

declare io_exact.simps [simp del]

text \<open>The overload with an error code returns it instead of throwing; \<open>None\<close> is a set error code.\<close>

function read_ec :: "nat \<Rightarrow> stream \<Rightarrow> (byte list \<times> stream) option" where
  "read_ec n s =
     (if n = 0 then Some ([], s)
      else (let (b, s') = read_some n s in
        if b = [] then None
        else map_option (\<lambda>(bs, s''). (b @ bs, s'')) (read_ec (n - length b) s')))"
  by pat_completeness auto
termination by (relation "measure fst") auto

declare read_ec.simps [simp del]

text \<open>
  Non-blocking sockets: \<open>Again\<close> is \<open>EAGAIN\<close>, \<open>Failed e\<close> any other error code. The loop retries
  after \<open>Again\<close>; \<open>None\<close> says that it is still retrying when the events run out.
\<close>

datatype io_event = Got "byte list" | Again | Failed nat

fun nb_io_exact :: "nat \<Rightarrow> io_event list \<Rightarrow> (byte list \<times> io_event list) res option" where
  "nb_io_exact 0 es = Some (Inr ([], es))"
| "nb_io_exact (Suc n) [] = None"
| "nb_io_exact (Suc n) (Again # es) = nb_io_exact (Suc n) es"
| "nb_io_exact (Suc n) (Failed e # es) = Some (Inl (Exception ''std::error_code''))"
| "nb_io_exact (Suc n) (Got p # es) =
     (if p = [] then Some (Inl unexpected_eof)
      else if length p \<le> Suc n then
        map_option (res_map (\<lambda>(bs, es'). (p @ bs, es'))) (nb_io_exact (Suc n - length p) es)
      else Some (Inr (take (Suc n) p, Got (drop (Suc n) p) # es)))"

text \<open>The same loop as a pollable task: bytes still missing and bytes read so far.\<close>

record io_task =
  t_missing :: nat
  t_got :: "byte list"

definition io_task_finished :: "io_task \<Rightarrow> bool" where
  "io_task_finished t \<longleftrightarrow> t_missing t = 0"

fun io_task_poll :: "io_task \<Rightarrow> io_event list \<Rightarrow> (io_task \<times> io_event list) res" where
  "io_task_poll t [] = Inr (t, [])"
| "io_task_poll t (e # es) =
     (if t_missing t = 0 then Inr (t, e # es)
      else (case e of
          Again \<Rightarrow> Inr (t, es)
        | Failed c \<Rightarrow> Inl (Exception ''std::error_code'')
        | Got p \<Rightarrow>
            if p = [] then Inl unexpected_eof
            else (let b = take (t_missing t) p in
              Inr (\<lparr>t_missing = t_missing t - length b, t_got = t_got t @ b\<rparr>,
                   if length p \<le> t_missing t then es else Got (drop (t_missing t) p) # es))))"

text \<open>
  Exact writes, with the numbers of bytes that successive calls of \<open>write_some\<close> take: the bytes written,
  and whether the operation returns. \<open>None\<close> says that it still waits when the numbers are used up.
\<close>

fun write_exact :: "byte list \<Rightarrow> nat list \<Rightarrow> (byte list \<times> unit res) option" where
  "write_exact [] ks = Some ([], Inr ())"
| "write_exact (b # bs) [] = None"
| "write_exact (b # bs) (k # ks) =
     (if k = 0 then Some ([], Inl unexpected_eof)
      else map_option (\<lambda>(out, r). (take k (b # bs) @ out, r)) (write_exact (drop k (b # bs)) ks))"

section \<open>Connections\<close>

text \<open>\<open>wait_bind\<close> and \<open>wait_connect\<close>: the number of failed attempts before the first success.\<close>

fun retry :: "nat \<Rightarrow> bool list \<Rightarrow> nat option" where
  "retry i [] = None"
| "retry i (ec # ecs) = (if \<not> ec then Some i else retry (i + 1) ecs)"

datatype conn_type = conn_ping | conn_control | conn_collective | conn_peer_to_peer | conn_mpi | conn_send | conn_recv

fun conn_type_value :: "conn_type \<Rightarrow> nat" where
  "conn_type_value conn_ping = 0"
| "conn_type_value conn_control = 1"
| "conn_type_value conn_collective = 2"
| "conn_type_value conn_peer_to_peer = 3"
| "conn_type_value conn_mpi = 4"
| "conn_type_value conn_send = 5"
| "conn_type_value conn_recv = 6"

record conn_header =
  ch_type :: u16
  ch_src_port :: u16
  ch_src_ipv4 :: u32

definition enc_conn_header :: "conn_header \<Rightarrow> byte list" where
  "enc_conn_header h = le_enc 2 (unat (ch_type h)) @ le_enc 2 (unat (ch_src_port h)) @ le_enc 4 (unat (ch_src_ipv4 h))"

definition dec_conn_header :: "byte list \<Rightarrow> conn_header" where
  "dec_conn_header bs = \<lparr>ch_type = word_of_nat (le_dec (take 2 bs)),
     ch_src_port = word_of_nat (le_dec (take 2 (drop 2 bs))), ch_src_ipv4 = word_of_nat (le_dec (take 4 (drop 4 bs)))\<rparr>"

text \<open>\<open>upgrade_to\<close>: what the client writes, then it reads four bytes of acknowledgement.\<close>

definition upgrade_to_header :: "conn_type \<Rightarrow> peer_id \<Rightarrow> conn_header" where
  "upgrade_to_header t self = \<lparr>ch_type = word_of_nat (conn_type_value t), ch_src_port = port self, ch_src_ipv4 = ipv4 self\<rparr>"

definition upgrade_to :: "conn_type \<Rightarrow> peer_id \<Rightarrow> stream \<Rightarrow> (byte list \<times> stream) res" where
  "upgrade_to t self s = res_map (\<lambda>(ack, s'). (enc_conn_header (upgrade_to_header t self), s')) (io_exact 4 s)"

text \<open>The constructor for a remote peer, with the error codes of \<open>connect\<close> and what the remote end sends.\<close>

definition open_conn :: "conn_type \<Rightarrow> peer_id \<Rightarrow> bool list \<Rightarrow> stream \<Rightarrow> (byte list \<times> stream) res option" where
  "open_conn t self ecs s = map_option (\<lambda>_. upgrade_to t self s) (retry 0 ecs)"

record conn =
  c_type :: u16
  c_src :: peer_id

text \<open>\<open>upgrade_from\<close>: the connection, the bytes the server answers and the rest of the stream.\<close>

definition upgrade_from :: "stream \<Rightarrow> (conn \<times> byte list \<times> stream) res" where
  "upgrade_from s = res_map (\<lambda>(bs, s').
     (let h = dec_conn_header bs in
      (\<lparr>c_type = ch_type h, c_src = \<lparr>ipv4 = ch_src_ipv4 h, port = ch_src_port h\<rparr>\<rparr>, le_enc 4 0, s'))) (io_exact 8 s)"

section \<open>Messages\<close>

definition wait_recv_buf :: u32 where
  "wait_recv_buf = 1"

record received_header =
  h_name_len :: nat
  h_name :: string
  h_flags :: u32
  h_len :: nat

definition strlen :: "string \<Rightarrow> nat" where
  "strlen s = length (takeWhile (\<lambda>c. c \<noteq> CHR 0x00) s)"

definition bytes_of_string :: "string \<Rightarrow> byte list" where
  "bytes_of_string s = map (\<lambda>c. word_of_nat (of_char c)) s"

definition string_of_bytes :: "byte list \<Rightarrow> string" where
  "string_of_bytes bs = map (\<lambda>b. char_of (unat b)) bs"

text \<open>\<open>connection::send\<close>: both lengths are cut to 32 bits.\<close>

definition header_bytes :: "string \<Rightarrow> nat \<Rightarrow> u32 \<Rightarrow> byte list" where
  "header_bytes name n flags =
     (let name_len = strlen name mod 2 ^ 32; len = n mod 2 ^ 32 in
      le_enc 4 name_len @ bytes_of_string (take name_len name) @ le_enc 4 (unat flags) @ le_enc 4 len)"

definition send_bytes :: "string \<Rightarrow> byte list \<Rightarrow> u32 \<Rightarrow> byte list" where
  "send_bytes name data flags = header_bytes name (length data) flags @ take (length data mod 2 ^ 32) data"

text \<open>
  \<open>read_header\<close>: no header at the end of the stream; an end inside a header throws. The size of
  the buffer is computed in 32 bits, the accesses to it are not.
\<close>

definition parse_header :: "nat \<Rightarrow> byte list \<Rightarrow> received_header res" where
  "parse_header name_len buf =
     (if 2 ^ 32 \<le> name_len + 8 then Inl (Undefined_behaviour ''read past the end of the string'')
      else Inr \<lparr>h_name_len = name_len, h_name = string_of_bytes (take name_len buf),
        h_flags = word_of_nat (le_dec (take 4 (drop name_len buf))),
        h_len = le_dec (take 4 (drop (name_len + 4) buf))\<rparr>)"

definition read_header :: "stream \<Rightarrow> (received_header \<times> stream) option res" where
  "read_header s =
     (case read_ec 4 s of
        None \<Rightarrow> Inr None
      | Some (bs, s1) \<Rightarrow>
          res_bind (io_exact ((le_dec bs + 8) mod 2 ^ 32) s1) (\<lambda>(buf, s2).
            res_map (\<lambda>h. Some (h, s2)) (parse_header (le_dec bs) buf)))"

definition read_body :: "received_header \<Rightarrow> stream \<Rightarrow> (byte list \<times> stream) res" where
  "read_body h s = io_exact (h_len h) s"

section \<open>Readers and handlers\<close>

text \<open>
  The class \<open>message_reader\<close>: its two operations on what is still to be read from a connection. \<open>None\<close>
  says that the reader waits.
\<close>

record 'i message_reader =
  rd_header :: "'i \<Rightarrow> (received_header \<times> 'i) option res option"
  rd_body :: "received_header \<Rightarrow> 'i \<Rightarrow> (byte list \<times> 'i) res option"

definition stream_reader :: "stream message_reader" where
  "stream_reader = \<lparr>rd_header = Some \<circ> read_header, rd_body = (\<lambda>h. Some \<circ> read_body h)\<rparr>"

type_synonym ('i, 's) handler = "received_header \<Rightarrow> 'i \<Rightarrow> 's \<Rightarrow> (bool \<times> 'i \<times> 's) res option"

definition handle_next :: "'i message_reader \<Rightarrow> ('i, 's) handler \<Rightarrow> 'i \<Rightarrow> 's \<Rightarrow> (bool \<times> 'i \<times> 's) res option" where
  "handle_next rd h s st = (case rd_header rd s of
       None \<Rightarrow> None
     | Some (Inl e) \<Rightarrow> Some (Inl e)
     | Some (Inr None) \<Rightarrow> Some (Inr (False, s, st))
     | Some (Inr (Some (mh, s'))) \<Rightarrow> h mh s' st)"

partial_function (option) handle_loop :: "'i message_reader \<Rightarrow> ('i, 's) handler \<Rightarrow> nat \<Rightarrow> 'i \<Rightarrow> 's \<Rightarrow> (nat \<times> 's) res option" where
  "handle_loop rd h i s st =
     (case handle_next rd h s st of
        None \<Rightarrow> None
      | Some (Inl e) \<Rightarrow> Some (Inl e)
      | Some (Inr (ok, s', st')) \<Rightarrow> if ok then handle_loop rd h (i + 1) s' st' else Some (Inr (i, st')))"

definition handle_to_end :: "'i message_reader \<Rightarrow> ('i, 's) handler \<Rightarrow> 'i \<Rightarrow> 's \<Rightarrow> (nat \<times> 's) res option" where
  "handle_to_end rd h s st = handle_loop rd h 0 s st"

text \<open>
  The handler of collective messages reads the body and puts it where \<open>deliver\<close> says: into a slot
  when \<open>wait_recv_buf\<close> is set, into the mailbox otherwise.
\<close>

record delivery =
  dl_name :: string
  dl_slot :: bool
  dl_data :: "byte list"

definition collective_handler :: "'i message_reader \<Rightarrow> (delivery \<Rightarrow> 's \<Rightarrow> 's) \<Rightarrow> ('i, 's) handler" where
  "collective_handler rd deliver mh s st =
     map_option (res_map (\<lambda>(b, s'). (True, s', deliver
        \<lparr>dl_name = h_name mh, dl_slot = (and (h_flags mh) wait_recv_buf \<noteq> 0), dl_data = b\<rparr> st))) (rd_body rd mh s)"

text \<open>\<open>conn_handler_impl\<close>: a connection of a type without handler is dropped at once.\<close>

definition handle_conn :: "'i message_reader \<Rightarrow> (u16 \<Rightarrow> ('i, 's) handler option) \<Rightarrow> conn \<Rightarrow> 'i \<Rightarrow> 's \<Rightarrow> (nat \<times> 's) res option" where
  "handle_conn rd handlers c s st =
     (case handlers (c_type c) of
        Some h \<Rightarrow> handle_to_end rd h s st
      | None \<Rightarrow> Some (Inr (0, st)))"

definition new_collective_handlers :: "'i message_reader \<Rightarrow> (delivery \<Rightarrow> 's \<Rightarrow> 's) \<Rightarrow> u16 \<Rightarrow> ('i, 's) handler option" where
  "new_collective_handlers rd deliver = (\<lambda>_. None)(word_of_nat (conn_type_value conn_collective) := Some (collective_handler rd deliver))"

text \<open>\<open>server_impl::handle\<close>: the thread of an accepted connection.\<close>

definition serve_conn :: "(u16 \<Rightarrow> (stream, 's) handler option) \<Rightarrow> stream \<Rightarrow> 's \<Rightarrow> (nat \<times> 's) res option" where
  "serve_conn handlers s st =
     (case upgrade_from s of
        Inl e \<Rightarrow> Some (Inl e)
      | Inr (c, ack, s') \<Rightarrow> handle_conn stream_reader handlers c s' st)"

section \<open>Lemmas\<close>

definition pieces :: "stream \<Rightarrow> bool" where
  "pieces s \<longleftrightarrow> [] \<notin> set s"

lemma le_enc_Nil [simp]: "le_enc n x = [] \<longleftrightarrow> n = 0"
  by (cases n) simp_all

lemma read_some_concat: "read_some n s = (b, s') \<Longrightarrow> concat s = b @ concat s'"
  by (cases s) auto

lemma read_some_pieces: "read_some n s = (b, s') \<Longrightarrow> pieces s \<Longrightarrow> 0 < n \<Longrightarrow>
    pieces s' \<and> length b \<le> n \<and> (b = [] \<longleftrightarrow> concat s = [])"
  by (cases s) (auto simp: pieces_def split: if_splits)

lemma io_exact_Inr:
  "pieces s \<Longrightarrow> n \<le> length (concat s) \<Longrightarrow>
     \<exists>s'. io_exact n s = Inr (take n (concat s), s') \<and> concat s' = drop n (concat s) \<and> pieces s'"
proof (induction n arbitrary: s rule: less_induct)
  case (less n)
  show ?case
  proof (cases "n = 0")
    case True
    with less show ?thesis by (simp add: io_exact.simps)
  next
    case False
    obtain b s1 where rs: "read_some n s = (b, s1)" by fastforce
    have c: "concat s = b @ concat s1" using rs by (rule read_some_concat)
    have p: "pieces s1" "length b \<le> n" "b = [] \<longleftrightarrow> concat s = []"
      using read_some_pieces [OF rs less.prems(1)] False by auto
    have "concat s \<noteq> []" using less.prems(2) False by (metis le_zero_eq list.size(3))
    then have b: "b \<noteq> []" using p(3) by simp
    then have l: "n - length b < n" "n - length b \<le> length (concat s1)" using False less.prems(2) c by simp_all
    from less.IH [OF l(1) p(1) l(2)] obtain s2 where
      s2: "io_exact (n - length b) s1 = Inr (take (n - length b) (concat s1), s2)"
      "concat s2 = drop (n - length b) (concat s1)" "pieces s2" by blast
    then have "io_exact n s = Inr (b @ take (n - length b) (concat s1), s2)"
      using False b rs by (subst io_exact.simps) simp
    with s2 c p(2) show ?thesis by simp
  qed
qed

lemma io_exact_Inl: "pieces s \<Longrightarrow> length (concat s) < n \<Longrightarrow> io_exact n s = Inl unexpected_eof"
proof (induction n arbitrary: s rule: less_induct)
  case (less n)
  then have n: "n \<noteq> 0" by auto
  obtain b s1 where rs: "read_some n s = (b, s1)" by fastforce
  have c: "concat s = b @ concat s1" using rs by (rule read_some_concat)
  have p: "pieces s1" using read_some_pieces [OF rs less.prems(1)] n by auto
  show ?case
  proof (cases "b = []")
    case True
    with n rs show ?thesis by (subst io_exact.simps) simp
  next
    case False
    then have l: "n - length b < n" "length (concat s1) < n - length b" using n less.prems(2) c by simp_all
    from less.IH [OF l(1) p l(2)] False n rs show ?thesis by (subst io_exact.simps) simp
  qed
qed

lemma write_exact_prefix:
  "write_exact bs ks = Some (out, r) \<Longrightarrow> (\<exists>rest. bs = out @ rest \<and> (r = Inr () \<longleftrightarrow> rest = [])) \<and> (r = Inr () \<or> r = Inl unexpected_eof)"
proof (induction bs ks arbitrary: out rule: write_exact.induct)
  case (3 b bs k ks)
  show ?case
  proof (cases "k = 0")
    case True
    with 3 show ?thesis by auto
  next
    case False
    with 3(2) obtain out' where o: "write_exact (drop k (b # bs)) ks = Some (out', r)" "out = take k (b # bs) @ out'"
      by (auto split: if_splits)
    from 3(1) [OF False o(1)] obtain rest where "drop k (b # bs) = out' @ rest" "r = Inr () \<longleftrightarrow> rest = []" "r = Inr () \<or> r = Inl unexpected_eof"
      by blast
    then show ?thesis using o(2) append_take_drop_id [of k "b # bs"] by (intro conjI exI [of _ rest]) auto
  qed
qed auto

lemma write_exact_all: "0 \<notin> set ks \<Longrightarrow> length bs \<le> sum_list ks \<Longrightarrow> write_exact bs ks = Some (bs, Inr ())"
proof (induction bs ks rule: write_exact.induct)
  case (3 b bs k ks)
  then have "length (drop k (b # bs)) \<le> sum_list ks" by simp
  with 3 show ?case by simp
qed auto

lemma retry_eq: "retry i ecs = (if False \<in> set ecs then Some (i + length (takeWhile (\<lambda>ec. ec) ecs)) else None)"
  by (induction i ecs rule: retry.induct) auto

lemma read_ec_io_exact: "read_ec n s = (case io_exact n s of Inl _ \<Rightarrow> None | Inr r \<Rightarrow> Some r)"
proof (induction n s rule: read_ec.induct)
  case (1 n s)
  show ?case
  proof (cases "n = 0")
    case True
    then show ?thesis by (simp add: io_exact.simps read_ec.simps)
  next
    case False
    obtain b s' where rs: "read_some n s = (b, s')" by fastforce
    with False 1 [OF False rs [symmetric]] show ?thesis
      by (subst io_exact.simps, subst read_ec.simps) (auto split: sum.splits)
  qed
qed

lemma read_ec_end: "read_ec 4 [] = None"
  by (subst read_ec.simps) simp

lemma pieces_concat_Nil: "pieces s \<Longrightarrow> concat s = [] \<Longrightarrow> s = []"
  by (cases s) (auto simp: pieces_def)

lemma bytes_string_bytes [simp]: "string_of_bytes (bytes_of_string s) = s"
proof -
  have "char_of (unat (word_of_nat (of_char c) :: byte)) = c" for c :: char
  proof -
    have "(of_char c :: nat) < 256" by (metis nat_of_char_less_256)
    then show ?thesis by (simp add: unat_byte_of_nat)
  qed
  then show ?thesis by (simp add: string_of_bytes_def bytes_of_string_def comp_def)
qed

lemma length_bytes_of_string [simp]: "length (bytes_of_string s) = length s"
  by (simp add: bytes_of_string_def)

lemma strlen_no_nul: "CHR 0x00 \<notin> set name \<Longrightarrow> strlen name = length name"
proof -
  assume "CHR 0x00 \<notin> set name"
  then have "takeWhile (\<lambda>c. c \<noteq> CHR 0x00) name = name" by (subst takeWhile_eq_all_conv) auto
  then show ?thesis unfolding strlen_def by (rule arg_cong)
qed

text \<open>A message as \<open>send\<close> writes it, and its header as the receiver reads it.\<close>

definition sendable :: "string \<times> byte list \<times> u32 \<Rightarrow> bool" where
  "sendable m \<longleftrightarrow> (case m of (name, data, flags) \<Rightarrow>
     CHR 0x00 \<notin> set name \<and> length name + 8 < 2 ^ 32 \<and> length data < 2 ^ 32)"

definition msg_bytes :: "string \<times> byte list \<times> u32 \<Rightarrow> byte list" where
  "msg_bytes m = (case m of (name, data, flags) \<Rightarrow> send_bytes name data flags)"

lemma read_header_send:
  assumes "sendable (name, data, flags)" and "pieces s" and "concat s = send_bytes name data flags @ rest"
  shows "\<exists>s'. read_header s = Inr (Some (\<lparr>h_name_len = length name, h_name = name, h_flags = flags, h_len = length data\<rparr>, s')) \<and>
    concat s' = data @ rest \<and> pieces s'"
proof -
  let ?n = "length name" and ?nb = "bytes_of_string name"
  have lim: "?n + 8 < 2 ^ 32" "length data < 2 ^ 32" "strlen name = ?n"
    using assms(1) strlen_no_nul by (auto simp: sendable_def)
  have c: "concat s = le_enc 4 ?n @ ?nb @ le_enc 4 (unat flags) @ le_enc 4 (length data) @ data @ rest"
    using lim assms(3) by (simp add: send_bytes_def header_bytes_def Let_def)
  obtain s1 where s1: "io_exact 4 s = Inr (le_enc 4 ?n, s1)" "pieces s1"
      "concat s1 = ?nb @ le_enc 4 (unat flags) @ le_enc 4 (length data) @ data @ rest"
    using io_exact_Inr [OF assms(2), of 4] c by auto
  obtain s2 where s2: "io_exact (?n + 8) s1 = Inr (?nb @ le_enc 4 (unat flags) @ le_enc 4 (length data), s2)"
      "pieces s2" "concat s2 = data @ rest"
    using io_exact_Inr [OF s1(2), of "?n + 8"] s1(3) by auto
  have n: "le_dec (le_enc 4 ?n) = ?n" "le_dec (le_enc 4 (length data)) = length data"
    using lim by (simp_all add: le_dec_enc)
  have f: "word_of_nat (le_dec (le_enc 4 (unat flags))) = flags"
    using unsigned_less [of flags, where ?'a = nat] by (simp add: le_dec_enc)
  have "read_header s = Inr (Some (\<lparr>h_name_len = ?n, h_name = name, h_flags = flags, h_len = length data\<rparr>, s2))"
    using s1(1) s2(1) lim(1) n f by (simp add: read_header_def read_ec_io_exact parse_header_def)
  with s2 show ?thesis by blast
qed

definition delivery_of :: "string \<times> byte list \<times> u32 \<Rightarrow> delivery" where
  "delivery_of m = (case m of (name, data, flags) \<Rightarrow>
     \<lparr>dl_name = name, dl_slot = (and flags wait_recv_buf \<noteq> 0), dl_data = data\<rparr>)"

text \<open>Handlers that read the body of each message, and do something with it.\<close>

definition reading_handler :: "'i message_reader \<Rightarrow> (received_header \<Rightarrow> byte list \<Rightarrow> 's \<Rightarrow> 's) \<Rightarrow> ('i, 's) handler" where
  "reading_handler rd upd mh s st = map_option (res_map (\<lambda>(b, s'). (True, s', upd mh b st))) (rd_body rd mh s)"

definition header_of :: "string \<times> byte list \<times> u32 \<Rightarrow> received_header" where
  "header_of m = (case m of (name, data, flags) \<Rightarrow>
     \<lparr>h_name_len = length name, h_name = name, h_flags = flags, h_len = length data\<rparr>)"

lemma collective_reading: "collective_handler rd deliver =
    reading_handler rd (\<lambda>mh b. deliver \<lparr>dl_name = h_name mh, dl_slot = (and (h_flags mh) wait_recv_buf \<noteq> 0), dl_data = b\<rparr>)"
  by (intro ext) (simp add: collective_handler_def reading_handler_def)

text \<open>
  The contract of a reader: \<open>coming\<close> are the bytes that are still to arrive on a connection that will
  then be closed, \<open>fits\<close> the messages that the reader can read.
\<close>

locale message_channel =
  fixes rd :: "'i message_reader"
    and coming :: "'i \<Rightarrow> byte list"
    and good :: "'i \<Rightarrow> bool"
    and fits :: "string \<times> byte list \<times> u32 \<Rightarrow> bool"
  assumes header_next: "fits (name, data, flags) \<Longrightarrow> good i \<Longrightarrow> coming i = send_bytes name data flags @ rest \<Longrightarrow>
      \<exists>i'. rd_header rd i = Some (Inr (Some (\<lparr>h_name_len = length name, h_name = name, h_flags = flags, h_len = length data\<rparr>, i'))) \<and>
        coming i' = data @ rest \<and> good i'"
    and body_next: "fits (name, data, flags) \<Longrightarrow> good i \<Longrightarrow> coming i = data @ rest \<Longrightarrow> h_len h = length data \<Longrightarrow>
      \<exists>i'. rd_body rd h i = Some (Inr (data, i')) \<and> coming i' = rest \<and> good i'"
    and header_end: "good i \<Longrightarrow> coming i = [] \<Longrightarrow> rd_header rd i = Some (Inr None)"
begin

lemma handle_next_reading:
  assumes "fits m" and "good i" and "coming i = msg_bytes m @ rest"
  shows "\<exists>i'. handle_next rd (reading_handler rd upd) i st = Some (Inr (True, i', upd (header_of m) (fst (snd m)) st)) \<and>
    coming i' = rest \<and> good i'"
proof -
  obtain name data flags where m: "m = (name, data, flags)" by (cases m)
  from header_next [of name data flags i rest] assms m obtain i1 where
    i1: "rd_header rd i = Some (Inr (Some (header_of m, i1)))" "coming i1 = data @ rest" "good i1" by (auto simp: msg_bytes_def header_of_def)
  from body_next [of name data flags i1 rest "header_of m"] assms(1) m i1 obtain i2 where
    "rd_body rd (header_of m) i1 = Some (Inr (data, i2))" "coming i2 = rest" "good i2" by (auto simp: header_of_def)
  with i1(1) m show ?thesis by (simp add: handle_next_def reading_handler_def)
qed

lemma handle_loop_reading:
  assumes "list_all fits ms" and "good i" and "coming i = concat (map msg_bytes ms)"
  shows "handle_loop rd (reading_handler rd upd) k i st = Some (Inr (k + length ms, fold (\<lambda>m. upd (header_of m) (fst (snd m))) ms st))"
  using assms
proof (induction ms arbitrary: k i st)
  case Nil
  then show ?case by (subst handle_loop.simps) (simp add: handle_next_def header_end)
next
  case (Cons m ms)
  from handle_next_reading [of m i "concat (map msg_bytes ms)" upd st] Cons.prems obtain i' where
    "handle_next rd (reading_handler rd upd) i st = Some (Inr (True, i', upd (header_of m) (fst (snd m)) st))"
    "coming i' = concat (map msg_bytes ms)" "good i'" by auto
  with Cons.IH [of i' "k + 1" "upd (header_of m) (fst (snd m)) st"] Cons.prems show ?case
    by (subst handle_loop.simps) simp
qed

lemma handle_loop_messages:
  assumes "list_all fits ms" and "good i" and "coming i = concat (map msg_bytes ms)"
  shows "handle_loop rd (collective_handler rd deliver) k i st = Some (Inr (k + length ms, fold (\<lambda>m. deliver (delivery_of m)) ms st))"
  unfolding collective_reading handle_loop_reading [OF assms] by (simp add: header_of_def delivery_of_def case_prod_beta)

lemma handle_to_end_messages:
  assumes "list_all fits ms" and "good i" and "coming i = concat (map msg_bytes ms)"
  shows "handle_to_end rd (collective_handler rd (\<lambda>d ds. ds @ [d])) i [] = Some (Inr (length ms, map delivery_of ms))"
proof -
  have "fold (\<lambda>m ds. ds @ [delivery_of m]) ms ds = ds @ map delivery_of ms" for ds
    by (induction ms arbitrary: ds) simp_all
  then show ?thesis
    using handle_loop_messages [OF assms, of "\<lambda>d ds. ds @ [d]" 0 "[]"] by (simp add: handle_to_end_def)
qed

end

interpretation sr: message_channel stream_reader concat pieces sendable
proof
  fix name data flags s rest and h :: received_header
  show "sendable (name, data, flags) \<Longrightarrow> pieces s \<Longrightarrow> concat s = send_bytes name data flags @ rest \<Longrightarrow>
      \<exists>s'. rd_header stream_reader s = Some (Inr (Some (\<lparr>h_name_len = length name, h_name = name, h_flags = flags, h_len = length data\<rparr>, s'))) \<and>
        concat s' = data @ rest \<and> pieces s'"
    using read_header_send by (auto simp: stream_reader_def)
  show "pieces s \<Longrightarrow> concat s = data @ rest \<Longrightarrow> h_len h = length data \<Longrightarrow>
      \<exists>s'. rd_body stream_reader h s = Some (Inr (data, s')) \<and> concat s' = rest \<and> pieces s'"
    using io_exact_Inr [of s "length data"] by (auto simp: stream_reader_def read_body_def)
next
  fix s :: stream
  assume "pieces s" "concat s = []"
  then have "s = []" by (rule pieces_concat_Nil)
  then show "rd_header stream_reader s = Some (Inr None)" by (simp add: stream_reader_def read_header_def read_ec_end)
qed

lemma upgrade_from_enc:
  assumes "pieces s" and "concat s = enc_conn_header (upgrade_to_header t self) @ rest"
  shows "\<exists>s'. upgrade_from s = Inr (\<lparr>c_type = word_of_nat (conn_type_value t), c_src = self\<rparr>, le_enc 4 0, s') \<and> concat s' = rest \<and> pieces s'"
proof -
  let ?h = "upgrade_to_header t self"
  have len: "length (enc_conn_header ?h) = 8" by (simp add: enc_conn_header_def)
  then obtain s' where s': "io_exact 8 s = Inr (enc_conn_header ?h, s')" "concat s' = rest" "pieces s'"
    using io_exact_Inr [OF assms(1), of 8] assms(2) by auto
  have "dec_conn_header (enc_conn_header ?h) = ?h"
    using unsigned_less [of "ch_type ?h", where ?'a = nat] unsigned_less [of "ch_src_port ?h", where ?'a = nat]
      unsigned_less [of "ch_src_ipv4 ?h", where ?'a = nat]
    by (simp add: dec_conn_header_def enc_conn_header_def le_dec_enc)
  with s' show ?thesis by (simp add: upgrade_from_def Let_def upgrade_to_header_def)
qed

section \<open>Properties\<close>

text \<open>Whatever messages a peer sends on a connection and however the network cuts their bytes into
  pieces, the receiving loop handles exactly these messages, in the order of sending, with names, flags
  and bodies intact, and then ends.\<close>

theorem messages_delivered_in_order:
  assumes "list_all sendable ms" and "pieces s" and "concat s = concat (map msg_bytes ms)"
  shows "handle_to_end stream_reader (collective_handler stream_reader (\<lambda>d ds. ds @ [d])) s [] = Some (Inr (length ms, map delivery_of ms))"
  using assms by (rule sr.handle_to_end_messages)

theorem messages_delivered_in_order_witness:
  "(let ms = [(''a'', [1, 2], 0), (''bc'', [], 1)]; bs = concat (map msg_bytes ms) in
    handle_to_end stream_reader (collective_handler stream_reader (\<lambda>d ds. ds @ [d])) [take 3 bs, drop 3 bs] [] = Some (Inr (length ms, map delivery_of ms)))"
  unfolding Let_def by (rule messages_delivered_in_order)
    (simp_all add: sendable_def pieces_def msg_bytes_def send_bytes_def header_bytes_def strlen_def Let_def)

text \<open>An exact read succeeds if and only if enough bytes are still to come, and returns the first
  ones, for every way in which they are cut into pieces; otherwise it throws.\<close>

theorem io_exact_correct:
  assumes "pieces s"
  shows "(n \<le> length (concat s) \<longrightarrow> (\<exists>s'. io_exact n s = Inr (take n (concat s), s') \<and> concat s' = drop n (concat s))) \<and>
    (length (concat s) < n \<longrightarrow> io_exact n s = Inl unexpected_eof)"
  using io_exact_Inr [OF assms] io_exact_Inl [OF assms] by blast

theorem io_exact_correct_witness:
  "(\<exists>s'. io_exact 3 [[1, 2], [3, 4]] = Inr ([1, 2, 3], s') \<and> concat s' = [4]) \<and> io_exact 5 [[1, 2], [3, 4]] = Inl unexpected_eof"
  using io_exact_correct [of "[[1, 2], [3, 4]]" 3] io_exact_correct [of "[[1, 2], [3, 4]]" 5] by (simp add: pieces_def)

text \<open>The handshake gives the server the type and the peer the client announced, whatever pieces it
  arrives in, and leaves the stream at the first message.\<close>

theorem handshake_roundtrip:
  assumes "pieces s" and "concat s = enc_conn_header (upgrade_to_header t self) @ rest"
  shows "\<exists>s'. upgrade_from s = Inr (\<lparr>c_type = word_of_nat (conn_type_value t), c_src = self\<rparr>, le_enc 4 0, s') \<and> concat s' = rest"
  using upgrade_from_enc [OF assms] by blast

theorem handshake_roundtrip_witness:
  "(let self = \<lparr>ipv4 = 0x7f000001, port = 10000\<rparr>; bs = enc_conn_header (upgrade_to_header conn_collective self) in
    \<exists>s'. upgrade_from [bs @ [9]] = Inr (\<lparr>c_type = word_of_nat (conn_type_value conn_collective), c_src = self\<rparr>, le_enc 4 0, s') \<and> concat s' = [9])"
  unfolding Let_def by (rule handshake_roundtrip) (simp_all add: pieces_def)

text \<open>Non-blocking reads.\<close>

fun event_data :: "io_event list \<Rightarrow> byte list" where
  "event_data [] = []"
| "event_data (Got p # es) = p @ event_data es"
| "event_data (Again # es) = event_data es"
| "event_data (Failed e # es) = event_data es"

definition good_events :: "io_event list \<Rightarrow> bool" where
  "good_events es \<longleftrightarrow> list_all (\<lambda>e. case e of Got p \<Rightarrow> p \<noteq> [] | Again \<Rightarrow> True | Failed _ \<Rightarrow> False) es"

lemma nb_io_exact_Inr:
  "good_events es \<Longrightarrow> n \<le> length (event_data es) \<Longrightarrow>
     \<exists>es'. nb_io_exact n es = Some (Inr (take n (event_data es), es')) \<and> event_data es' = drop n (event_data es)"
proof (induction n es rule: nb_io_exact.induct)
  case (5 n p es)
  then have p: "p \<noteq> []" "good_events es" by (auto simp: good_events_def)
  show ?case
  proof (cases "length p \<le> Suc n")
    case True
    from 5(3) have "Suc n - length p \<le> length (event_data es)" by (simp add: le_diff_conv2 add.commute)
    with 5(1) p True obtain es' where "nb_io_exact (Suc n - length p) es = Some (Inr (take (Suc n - length p) (event_data es), es'))"
      "event_data es' = drop (Suc n - length p) (event_data es)" by blast
    with True p show ?thesis by (simp del: diff_Suc_Suc)
  next
    case False
    with p show ?thesis by simp
  qed
qed (auto simp: good_events_def)

text \<open>A non-blocking exact read returns the same bytes as a blocking one, however often the socket says
  that it would block.\<close>

theorem nb_io_exact_correct:
  assumes "good_events es" and "n \<le> length (event_data es)" and "pieces s" and "concat s = event_data es"
  shows "\<exists>bs es' s'. nb_io_exact n es = Some (Inr (bs, es')) \<and> io_exact n s = Inr (bs, s') \<and> event_data es' = concat s'"
  using nb_io_exact_Inr [OF assms(1,2)] io_exact_Inr [OF assms(3), of n] assms(2,4) by auto

theorem nb_io_exact_correct_witness:
  "\<exists>bs es' s'. nb_io_exact 3 [Got [1, 2], Again, Got [3, 4]] = Some (Inr (bs, es')) \<and>
    io_exact 3 [[1], [2, 3, 4]] = Inr (bs, s') \<and> event_data es' = concat s'"
  by (rule nb_io_exact_correct) (simp_all add: good_events_def pieces_def)

text \<open>Polling a read task neither loses, repeats nor reorders bytes and keeps count of the missing ones.\<close>

theorem io_task_poll_conserves:
  assumes "io_task_poll t es = Inr (t', es')"
  shows "t_got t' @ event_data es' = t_got t @ event_data es \<and>
    length (t_got t') + t_missing t' = length (t_got t) + t_missing t \<and>
    (io_task_finished t \<longrightarrow> t' = t \<and> es' = es)"
proof (cases es)
  case Nil
  with assms show ?thesis by simp
next
  case (Cons e es2)
  with assms show ?thesis
    by (cases e) (auto simp: io_task_finished_def Let_def split: if_splits)
qed

theorem io_task_poll_conserves_witness:
  "(let t = \<lparr>t_missing = 3, t_got = [7]\<rparr>; t' = \<lparr>t_missing = 1, t_got = [7, 1, 2]\<rparr> in
    t_got t' @ event_data [Again] = t_got t @ event_data [Got [1, 2], Again] \<and>
    length (t_got t') + t_missing t' = length (t_got t) + t_missing t \<and>
    (io_task_finished t \<longrightarrow> t' = t \<and> [Again] = [Got [1, 2], Again]))"
  unfolding Let_def by (rule io_task_poll_conserves) simp

end
