(* ===== verification/Client.thy ===== *)
theory Client
  imports Registry Wire
begin

text \<open>
  Clients and client pools: \<open>src/stdml/collective/client.cpp\<close> with the connections of
  \<open>net/c++20/rchan.cpp\<close>. A client keeps one connection per peer, found by the hash of the peer, and a
  pool one client per type of connection. A connection is what has been written to it since it was
  dialled, its header first; dialling retries until the remote answers, and the model starts there.

  Both are registries in the sense of \<open>Registry\<close>; for clients this rests on the injectivity of the
  hash. The lemmas give the bytes on every connection after any sequence of sends and, with the
  lemmas of \<open>Wire\<close>, what the receiving peer does with them.
\<close>

section \<open>Connections\<close>

record connection =
  cn_remote :: peer_id
  cn_type :: conn_type
  cn_src :: peer_id
  cn_open :: bool
  cn_bytes :: "byte list"

definition dial :: "peer_id \<Rightarrow> conn_type \<Rightarrow> peer_id \<Rightarrow> connection" where
  "dial remote t local = \<lparr>cn_remote = remote, cn_type = t, cn_src = local, cn_open = True,
     cn_bytes = enc_conn_header (upgrade_to_header t local)\<rparr>"

definition conn_send_msg :: "string \<Rightarrow> byte list \<Rightarrow> u32 \<Rightarrow> connection \<Rightarrow> connection" where
  "conn_send_msg name data flags cn = cn\<lparr>cn_bytes := cn_bytes cn @ send_bytes name data flags\<rparr>"

section \<open>Clients\<close>

record client =
  cl_self :: peer_id
  cl_type :: conn_type
  cl_conns :: "u64 \<rightharpoonup> nat"
  cl_heap :: "connection list"

definition new_client :: "peer_id \<Rightarrow> conn_type \<Rightarrow> client" where
  "new_client self t = \<lparr>cl_self = self, cl_type = t, cl_conns = Map.empty, cl_heap = []\<rparr>"

definition client_require :: "peer_id \<Rightarrow> client \<Rightarrow> nat \<times> client" where
  "client_require target c = (case cl_conns c (peer_hash target) of
       Some p \<Rightarrow> (p, c)
     | None \<Rightarrow> (let p = length (cl_heap c) in
         (p, c\<lparr>cl_conns := (cl_conns c)(peer_hash target \<mapsto> p),
               cl_heap := cl_heap c @ [dial target (cl_type c) (cl_self c)]\<rparr>)))"

text \<open>Erasing a connection destroys it, which closes its socket.\<close>

definition close_conn :: "nat \<Rightarrow> client \<Rightarrow> client" where
  "close_conn p c = c\<lparr>cl_heap := (cl_heap c)[p := (cl_heap c ! p)\<lparr>cn_open := False\<rparr>]\<rparr>"

definition reset_peer :: "peer_id \<Rightarrow> client \<Rightarrow> client" where
  "reset_peer i c = (case cl_conns c (peer_hash i) of
       Some p \<Rightarrow> close_conn p (c\<lparr>cl_conns := (cl_conns c)(peer_hash i := None)\<rparr>)
     | None \<Rightarrow> c)"

fun client_reset_peers :: "peer_id list \<Rightarrow> client \<Rightarrow> client" where
  "client_reset_peers [] c = c"
| "client_reset_peers (i # ids) c = client_reset_peers ids (reset_peer i c)"

definition client_send :: "peer_id \<Rightarrow> string \<Rightarrow> byte list \<Rightarrow> u32 \<Rightarrow> client \<Rightarrow> client" where
  "client_send target name data flags c =
     (let (p, c1) = client_require target c in
      c1\<lparr>cl_heap := (cl_heap c1)[p := conn_send_msg name data flags (cl_heap c1 ! p)]\<rparr>)"

section \<open>Pools\<close>

record client_pool =
  pl_self :: peer_id
  pl_clients :: "conn_type \<rightharpoonup> nat"
  pl_heap :: "client list"

definition new_client_pool :: "peer_id \<Rightarrow> client_pool" where
  "new_client_pool self = \<lparr>pl_self = self, pl_clients = Map.empty, pl_heap = []\<rparr>"

definition pool_require :: "conn_type \<Rightarrow> client_pool \<Rightarrow> nat \<times> client_pool" where
  "pool_require t pl = (case pl_clients pl t of
       Some p \<Rightarrow> (p, pl)
     | None \<Rightarrow> (let p = length (pl_heap pl) in
         (p, pl\<lparr>pl_clients := (pl_clients pl)(t \<mapsto> p), pl_heap := pl_heap pl @ [new_client (pl_self pl) t]\<rparr>)))"

definition pool_reset_peers :: "peer_id list \<Rightarrow> client_pool \<Rightarrow> client_pool" where
  "pool_reset_peers ids pl = pl\<lparr>pl_heap := map (client_reset_peers ids) (pl_heap pl)\<rparr>"

section \<open>Invariants\<close>

definition conn_of :: "client \<Rightarrow> peer_id \<Rightarrow> nat option" where
  "conn_of c target = cl_conns c (peer_hash target)"

definition client_inv :: "client \<Rightarrow> bool" where
  "client_inv c \<longleftrightarrow> table_inv (cl_conns c) (length (cl_heap c)) \<and>
     (\<forall>target p. conn_of c target = Some p \<longrightarrow>
       cn_remote (cl_heap c ! p) = target \<and> cn_type (cl_heap c ! p) = cl_type c \<and>
       cn_src (cl_heap c ! p) = cl_self c \<and> cn_open (cl_heap c ! p))"

definition pool_inv :: "client_pool \<Rightarrow> bool" where
  "pool_inv pl \<longleftrightarrow> table_inv (pl_clients pl) (length (pl_heap pl))"

lemma peer_hash_inj: "peer_hash p = peer_hash q \<longleftrightarrow> p = q"
proof
  assume "peer_hash p = peer_hash q"
  then have e: "unat (ipv4 p) * 2 ^ 32 + unat (port p) = unat (ipv4 q) * 2 ^ 32 + unat (port q)"
    by (metis unat_peer_hash)
  have l: "unat (port p) < 2 ^ 32" "unat (port q) < 2 ^ 32"
    using unsigned_less [of "port p", where ?'a = nat] unsigned_less [of "port q", where ?'a = nat] by simp_all
  have "unat (ipv4 p) = unat (ipv4 q)"
    using arg_cong [OF e, of "\<lambda>x. x div 2 ^ 32"] l by simp
  moreover from this e have "unat (port p) = unat (port q)" by simp
  ultimately show "p = q" by (simp add: word_unat_eq_iff)
qed simp

lemma new_client_inv [simp]: "client_inv (new_client self t)"
  by (simp add: client_inv_def new_client_def conn_of_def)

lemma new_client_pool_inv [simp]: "pool_inv (new_client_pool self)"
  by (simp add: pool_inv_def new_client_pool_def)

interpretation cn: registry conn_of client_require client_inv
proof
  fix s :: client and k p s'
  assume i: "client_inv s" and r: "client_require k s = (p, s')"
  show "conn_of s' k' = (if k' = k then Some p else conn_of s k')" for k'
    using r by (auto simp: client_require_def conn_of_def Let_def peer_hash_inj split: option.splits)
  show "client_inv s'"
  proof (cases "conn_of s k")
    case None
    with i r show ?thesis
      by (auto simp: client_inv_def client_require_def conn_of_def Let_def dial_def peer_hash_inj nth_append split: if_splits dest: table_inv_less)
  next
    case (Some x)
    with i r show ?thesis by (simp add: client_require_def conn_of_def)
  qed
qed (auto simp: client_require_def conn_of_def client_inv_def peer_hash_inj dest: table_inv_inj)

interpretation pl: registry pl_clients pool_require pool_inv
proof
  fix s :: client_pool and k p s'
  assume i: "pool_inv s" and r: "pool_require k s = (p, s')"
  show "pool_inv s'"
    using i r by (auto simp: pool_inv_def pool_require_def Let_def split: option.splits)
  show "pl_clients s' k' = (if k' = k then Some p else pl_clients s k')" for k'
    using r by (auto simp: pool_require_def Let_def split: option.splits)
qed (auto simp: pool_require_def pool_inv_def dest: table_inv_inj)

section \<open>Sending\<close>

type_synonym client_op = "peer_id \<times> string \<times> byte list \<times> u32"

definition send_op :: "client_op \<Rightarrow> client \<Rightarrow> client" where
  "send_op x = (case x of (target, name, data, flags) \<Rightarrow> client_send target name data flags)"

definition written_to :: "client \<Rightarrow> peer_id \<Rightarrow> byte list" where
  "written_to c target = (case conn_of c target of None \<Rightarrow> [] | Some p \<Rightarrow> cn_bytes (cl_heap c ! p))"

definition hello :: "client \<Rightarrow> byte list" where
  "hello c = enc_conn_header (upgrade_to_header (cl_type c) (cl_self c))"

lemma require_written:
  assumes "client_inv c" and "client_require t c = (p, c1)"
  shows "written_to c1 target = (if target = t \<and> conn_of c t = None then hello c else written_to c target)"
  using assms table_inv_less [of "cl_conns c" "length (cl_heap c)" "peer_hash target"]
  by (auto simp: client_require_def written_to_def conn_of_def Let_def client_inv_def dial_def hello_def peer_hash_inj nth_append
      split: option.splits)

lemma send_effect:
  assumes "client_inv c"
  shows "client_inv (send_op (t, m) c) \<and> hello (send_op (t, m) c) = hello c \<and>
    conn_of (send_op (t, m) c) t \<noteq> None \<and> (target \<noteq> t \<longrightarrow> conn_of (send_op (t, m) c) target = conn_of c target) \<and>
    written_to (send_op (t, m) c) target =
      (if target = t then (if conn_of c t = None then hello c else written_to c t) @ msg_bytes m else written_to c target)"
proof -
  obtain name data flags where m: "m = (name, data, flags)" by (cases m)
  obtain p c1 where r: "client_require t c = (p, c1)" by fastforce
  let ?h = "(cl_heap c1)[p := conn_send_msg name data flags (cl_heap c1 ! p)]"
  have s: "send_op (t, m) c = c1\<lparr>cl_heap := ?h\<rparr>" using m r by (simp add: send_op_def client_send_def)
  have i: "client_inv c1" using assms r by (rule cn.inv_require)
  have f: "conn_of c1 k = (if k = t then Some p else conn_of c k)" for k using assms r by (rule cn.find_require)
  have e: "cl_self c1 = cl_self c" "cl_type c1 = cl_type c"
    using r by (auto simp: client_require_def Let_def split: option.splits)
  have tab: "table_inv (cl_conns c1) (length (cl_heap c1))" using i by (simp add: client_inv_def)
  have len: "k < length (cl_heap c1)" if "conn_of c1 x = Some k" for x k
    using table_inv_less [OF tab] that by (simp add: conn_of_def)
  have same: "k = p \<longleftrightarrow> x = t" if "conn_of c1 x = Some k" for x k
    using f [of t] cn.find_inj [OF i] that by (metis option.inject)
  have lp: "p < length (cl_heap c1)" using len [of t p] f by simp
  have co: "conn_of (c1\<lparr>cl_heap := ?h\<rparr>) = conn_of c1" by (simp add: conn_of_def fun_eq_iff)
  have "client_inv (c1\<lparr>cl_heap := ?h\<rparr>)"
    using i lp unfolding client_inv_def co by (auto simp: nth_list_update conn_send_msg_def)
  moreover have "written_to (c1\<lparr>cl_heap := ?h\<rparr>) target =
      (if target = t then written_to c1 t @ msg_bytes m else written_to c1 target)"
    using f [of t] lp same m unfolding written_to_def co
    by (auto simp: nth_list_update conn_send_msg_def msg_bytes_def split: option.splits)
  ultimately show ?thesis
    using require_written [OF assms r] f co e unfolding s by (auto simp: hello_def)
qed

lemma sends_written:
  "client_inv c \<Longrightarrow>
     client_inv (fold send_op xs c) \<and> hello (fold send_op xs c) = hello c \<and>
     (conn_of (fold send_op xs c) target = None \<longleftrightarrow> conn_of c target = None \<and> target \<notin> fst ` set xs) \<and>
     written_to (fold send_op xs c) target =
       (if conn_of c target = None \<and> target \<in> fst ` set xs then hello c else written_to c target) @
       concat (map (msg_bytes \<circ> snd) (filter (\<lambda>x. fst x = target) xs))"
proof (induction xs arbitrary: c)
  case Nil
  then show ?case by simp
next
  case (Cons x xs)
  obtain t m where x: "x = (t, m)" by (cases x)
  note se = send_effect [OF Cons.prems, of t m target]
  note ih = Cons.IH [of "send_op (t, m) c"]
  from se have i: "client_inv (send_op (t, m) c)" by blast
  show ?case using se ih [OF i] unfolding x by (cases "target = t") auto
qed

section \<open>Dropping peers\<close>

lemma reset_peer_effect:
  assumes "client_inv c"
  shows "client_inv (reset_peer i c) \<and> hello (reset_peer i c) = hello c \<and>
    conn_of (reset_peer i c) target = (if target = i then None else conn_of c target) \<and>
    written_to (reset_peer i c) target = (if target = i then [] else written_to c target)"
proof (cases "conn_of c i")
  case None
  then have "reset_peer i c = c" by (simp add: reset_peer_def conn_of_def)
  with None assms show ?thesis by (simp add: written_to_def)
next
  case (Some p)
  let ?h = "(cl_heap c)[p := (cl_heap c ! p)\<lparr>cn_open := False\<rparr>]"
  have r: "reset_peer i c = c\<lparr>cl_conns := (cl_conns c)(peer_hash i := None), cl_heap := ?h\<rparr>"
    using Some by (simp add: reset_peer_def conn_of_def close_conn_def)
  have f: "conn_of (reset_peer i c) x = (if x = i then None else conn_of c x)" for x
    by (simp add: r conn_of_def peer_hash_inj)
  have h: "cl_heap (reset_peer i c) ! k = cl_heap c ! k" if "conn_of (reset_peer i c) x = Some k" for x k
  proof -
    have "conn_of c x = Some k" "x \<noteq> i" using that f [of x] by (simp_all split: if_splits)
    with cn.find_inj [OF assms _ Some] have "k \<noteq> p" by blast
    then show ?thesis by (simp add: r)
  qed
  have "table_inv (cl_conns (reset_peer i c)) (length (cl_heap (reset_peer i c)))"
    using assms by (auto simp: r client_inv_def)
  moreover have "cl_type (reset_peer i c) = cl_type c" "cl_self (reset_peer i c) = cl_self c" by (simp_all add: r)
  moreover have "conn_of c x = Some k" if "conn_of (reset_peer i c) x = Some k" for x k
    using that f [of x] by (simp split: if_splits)
  ultimately have "client_inv (reset_peer i c)"
    using assms h unfolding client_inv_def by (simp, blast)
  moreover have "written_to (reset_peer i c) target = (if target = i then [] else written_to c target)"
    using f [of target] h [of target] by (auto simp: written_to_def split: option.splits)
  ultimately show ?thesis using f by (simp add: r hello_def)
qed

lemma reset_peers_effect:
  "client_inv c \<Longrightarrow> client_inv (client_reset_peers ids c) \<and> hello (client_reset_peers ids c) = hello c \<and>
    conn_of (client_reset_peers ids c) target = (if target \<in> set ids then None else conn_of c target) \<and>
    written_to (client_reset_peers ids c) target = (if target \<in> set ids then [] else written_to c target)"
proof (induction ids arbitrary: c)
  case (Cons i ids)
  note e = reset_peer_effect [OF Cons.prems, of i target]
  from e Cons.IH [of "reset_peer i c"] show ?case by auto
qed simp

section \<open>Properties\<close>

text \<open>A client uses one connection per peer: requests return the same connection exactly for the
  same peer, although connections are found by hash only.\<close>

theorem client_require_same_iff:
  assumes "require_all client_require ks (new_client self t) = (ps, c)" and "i < length ks" and "j < length ks"
  shows "ps ! i = ps ! j \<longleftrightarrow> ks ! i = ks ! j"
  using cn.require_same_iff [OF new_client_inv assms] .

text \<open>C17: From end to end: whatever a client sends to its peers, the bytes on its connection to one of
  them, cut into any pieces, give the receiving server first the type and the address of the client and
  then exactly the messages for this peer, complete and in the order of sending.\<close>

theorem client_messages_arrive:
  assumes "list_all (sendable \<circ> snd) xs" and "target \<in> fst ` set xs"
    and "pieces s" and "concat s = written_to (fold send_op xs (new_client self t)) target"
  shows "\<exists>s'. upgrade_from s = Inr (\<lparr>c_type = word_of_nat (conn_type_value t), c_src = self\<rparr>, le_enc 4 0, s') \<and>
    (let ms = map snd (filter (\<lambda>x. fst x = target) xs) in
     handle_to_end stream_reader (collective_handler stream_reader (\<lambda>d ds. ds @ [d])) s' [] = Some (Inr (length ms, map delivery_of ms)))"
proof -
  let ?ms = "map snd (filter (\<lambda>x. fst x = target) xs)"
  have "conn_of (new_client self t) target = None" "hello (new_client self t) = enc_conn_header (upgrade_to_header t self)"
    by (simp_all add: conn_of_def new_client_def hello_def)
  then have "concat s = enc_conn_header (upgrade_to_header t self) @ concat (map msg_bytes ?ms)"
    using sends_written [of "new_client self t" xs target] assms(2,4) by simp
  from upgrade_from_enc [OF assms(3) this] obtain s' where
    s': "upgrade_from s = Inr (\<lparr>c_type = word_of_nat (conn_type_value t), c_src = self\<rparr>, le_enc 4 0, s')"
      "concat s' = concat (map msg_bytes ?ms)" "pieces s'" by blast
  have "list_all sendable ?ms" using assms(1) by (auto simp: list_all_iff)
  from sr.handle_to_end_messages [OF this s'(3,2)] s'(1) show ?thesis by (simp add: Let_def)
qed

text \<open>\<open>reset_peers\<close> closes the connections of the given peers in every client and keeps all others; a
  later send to a dropped peer dials a new connection.\<close>

theorem reset_peers_correct:
  assumes "client_inv c"
  shows "client_inv (client_reset_peers ids c) \<and>
    conn_of (client_reset_peers ids c) target = (if target \<in> set ids then None else conn_of c target) \<and>
    written_to (client_reset_peers ids c) target = (if target \<in> set ids then [] else written_to c target) \<and>
    (target \<in> set ids \<longrightarrow> written_to (send_op (target, m) (client_reset_peers ids c)) target = hello c @ msg_bytes m)"
proof -
  note e = reset_peers_effect [OF assms, of ids target]
  from e send_effect [of "client_reset_peers ids c" target m target] show ?thesis by auto
qed

theorem client_require_same_iff_witness:
  "(let a = \<lparr>ipv4 = 1, port = 2\<rparr>; b = \<lparr>ipv4 = 1, port = 3\<rparr>; ks = [a, b, a] in
    \<exists>ps c. require_all client_require ks (new_client b conn_collective) = (ps, c) \<and> (ps ! 0 = ps ! 1 \<longleftrightarrow> ks ! 0 = ks ! 1))"
proof -
  let ?a = "\<lparr>ipv4 = 1, port = 2\<rparr>" and ?b = "\<lparr>ipv4 = 1, port = 3\<rparr>"
  let ?ks = "[?a, ?b, ?a]"
  obtain ps c where r: "require_all client_require ?ks (new_client ?b conn_collective) = (ps, c)" by fastforce
  from client_require_same_iff [OF r, of 0 1] r show ?thesis unfolding Let_def by (intro exI conjI) simp_all
qed

theorem client_messages_arrive_witness:
  "(let a = \<lparr>ipv4 = 1, port = 2\<rparr>; self = \<lparr>ipv4 = 1, port = 3\<rparr>; xs = [(a, ''x'', [1, 2], 0)];
        s = [written_to (fold send_op xs (new_client self conn_collective)) a] in
    \<exists>s'. upgrade_from s = Inr (\<lparr>c_type = word_of_nat (conn_type_value conn_collective), c_src = self\<rparr>, le_enc 4 0, s') \<and>
      (let ms = map snd (filter (\<lambda>x. fst x = a) xs) in
       handle_to_end stream_reader (collective_handler stream_reader (\<lambda>d ds. ds @ [d])) s' [] = Some (Inr (length ms, map delivery_of ms))))"
proof -
  let ?a = "\<lparr>ipv4 = 1, port = 2\<rparr> :: peer_id" and ?self = "\<lparr>ipv4 = 1, port = 3\<rparr> :: peer_id"
  let ?xs = "[(?a, ''x'', [1, 2], 0)] :: client_op list"
  have e: "enc_conn_header h \<noteq> []" for h by (simp add: enc_conn_header_def)
  have c: "conn_of (new_client ?self conn_collective) ?a = None" by (simp add: conn_of_def new_client_def)
  have "written_to (fold send_op ?xs (new_client ?self conn_collective)) ?a =
      hello (new_client ?self conn_collective) @ concat (map (msg_bytes \<circ> snd) ?xs)"
    using sends_written [of "new_client ?self conn_collective" ?xs ?a] c by simp
  then have "written_to (fold send_op ?xs (new_client ?self conn_collective)) ?a \<noteq> []"
    using e by (simp only: hello_def append_is_Nil_conv) simp
  then show ?thesis
    unfolding Let_def by (intro client_messages_arrive [unfolded Let_def]) (simp_all add: sendable_def pieces_def del: fold_simps)
qed

theorem reset_peers_correct_witness:
  "(let c = new_client \<lparr>ipv4 = 1, port = 3\<rparr> conn_collective; a = \<lparr>ipv4 = 1, port = 2\<rparr>; m = (''x'', [1, 2], 0) in
    client_inv (client_reset_peers [a] c) \<and> conn_of (client_reset_peers [a] c) a = None \<and>
    written_to (send_op (a, m) (client_reset_peers [a] c)) a = hello c @ msg_bytes m)"
proof -
  let ?a = "\<lparr>ipv4 = 1, port = 2\<rparr> :: peer_id"
  from reset_peers_correct [OF new_client_inv, of "[?a]" "\<lparr>ipv4 = 1, port = 3\<rparr>" conn_collective ?a "(''x'', [1, 2], 0)"]
  show ?thesis unfolding Let_def by auto
qed

end
