(* ===== verification/Peer.thy ===== *)
theory Peer
  imports Config Client Consistent
begin

text \<open>
  Peers and elastic sessions: \<open>src/stdml/collective/peer.cpp\<close>, \<open>fork.cpp\<close>, the constructor of \<open>session\<close> in
  \<open>session.cpp\<close> and \<open>commit_cluster_config\<close> of \<open>elastic.cpp\<close>. A peer is created from the environment
  and joins a session; \<open>resize\<close> moves it to the session of a new cluster once all peers of the old
  session have proposed the same one.

  \<open>resize\<close> is one process; the results of its calls of \<open>consistent\<close> are an argument, indexed by the round,
  and the properties instantiate it with what \<open>Consistent\<close> proves of these calls. The lemmas show that a
  peer started by the launcher has the given place in its session, and that all peers leave the loop
  of \<open>resize\<close> in the same round, with the same cluster, or none does.
\<close>

section \<open>Sessions\<close>

record session =
  se_config :: system_config
  se_version :: Prelude.u64
  se_rank :: nat
  se_peers :: peer_list
  se_runners :: peer_list
  se_topo :: graph_pair_list
  se_pool :: "nat option"
  se_async_runtime :: "nat option"
  se_cpus :: "nat list option"

text \<open>The number of workers of the pools, and the processors the process is bound to; \<open>hc\<close> is the number of processors.\<close>

definition new_session :: "nat \<Rightarrow> system_config \<Rightarrow> Prelude.u64 \<Rightarrow> nat \<Rightarrow> peer_list \<Rightarrow> peer_list \<Rightarrow> strategy \<Rightarrow> session" where
  "new_session hc config version me ps rs s =
     \<lparr>se_config = config, se_version = version, se_rank = me, se_peers = ps, se_runners = rs,
      se_topo = make_graph_pair_list s (length ps),
      se_pool = (if 0 < sc_thread_pool_size config then Some (sc_thread_pool_size config) else None),
      se_async_runtime = (if sc_rt config = rt_async then Some 8 else None),
      se_cpus = (if sc_use_affinity config then Some (set_affinity hc me (length ps)) else None)\<rparr>"

text \<open>The constructor ends with \<open>barrier()\<close>, on its local variables at \<open>x\<close> and \<open>y\<close>.\<close>

definition session_barrier :: "session \<Rightarrow> nat \<Rightarrow> nat \<Rightarrow> instr list res" where
  "session_barrier se x y = all_reduce_prog (se_topo se) (se_rank se) (barrier_ws x y)"

definition session_cluster :: "session \<Rightarrow> cluster_config" where
  "session_cluster se = \<lparr>runners = se_runners se, workers = se_peers se\<rparr>"

section \<open>Peers\<close>

record peer =
  pr_config :: system_config
  pr_init_version :: Prelude.u64
  pr_self :: peer_id
  pr_init_peers :: peer_list
  pr_init_runners :: peer_list
  pr_init_strategy :: strategy
  pr_client_pool :: client_pool
  pr_serving :: bool

definition new_peer :: "system_config \<Rightarrow> Prelude.u64 \<Rightarrow> peer_id \<Rightarrow> peer_list \<Rightarrow> peer_list \<Rightarrow> strategy \<Rightarrow> peer" where
  "new_peer config version self ps rs s =
     \<lparr>pr_config = config, pr_init_version = version, pr_self = self, pr_init_peers = ps, pr_init_runners = rs,
      pr_init_strategy = s, pr_client_pool = new_client_pool self, pr_serving = False\<rparr>"

definition peer_start :: "peer \<Rightarrow> peer" where
  "peer_start p = p\<lparr>pr_serving := True\<rparr>"

definition single :: "nat \<Rightarrow> env \<Rightarrow> peer res" where
  "single hc env = res_map (\<lambda>pid. new_peer (parse_system_config_from_env hc env) 0 pid [pid] [] star) local_peer"

definition from_kungfu_env :: "nat \<Rightarrow> env \<Rightarrow> peer res" where
  "from_kungfu_env hc env =
     (case parse_peer_id (safe_getenv env ''KUNGFU_SELF_SPEC'') of
        None \<Rightarrow> single hc env
      | Some self \<Rightarrow>
     (case parse_peer_list (safe_getenv env ''KUNGFU_INIT_PEERS'') of
        None \<Rightarrow> single hc env
      | Some ps \<Rightarrow>
     (case parse_peer_list (safe_getenv env ''KUNGFU_INIT_RUNNERS'') of
        None \<Rightarrow> single hc env
      | Some rs \<Rightarrow>
          res_bind (parse_env_int env ''KUNGFU_INIT_CLUSTER_VERSION'') (\<lambda>init_version.
          res_bind (parse_kungfu_startegy env) (\<lambda>s.
            Inr (peer_start (new_peer (parse_system_config_from_env hc env)
              (word_of_int (case init_version of Some v \<Rightarrow> v | None \<Rightarrow> 0)) self ps rs s)))))))"

text \<open>The numbers are converted from \<open>int\<close> to \<open>size_t\<close>; \<open>ps[rank]\<close> is not checked.\<close>

definition from_ompi_env :: "nat \<Rightarrow> env \<Rightarrow> peer res" where
  "from_ompi_env hc env =
     res_bind (parse_env_int env ''OMPI_COMM_WORLD_SIZE'') (\<lambda>sz. case sz of
        None \<Rightarrow> single hc env
      | Some n \<Rightarrow>
     res_bind (parse_env_int env ''OMPI_COMM_WORLD_RANK'') (\<lambda>r. case r of
        None \<Rightarrow> single hc env
      | Some me \<Rightarrow>
     res_bind (gen (unat (word_of_int n :: Prelude.u64))) (\<lambda>ps.
     res_bind (peers_at ps [unat (word_of_int me :: Prelude.u64)]) (\<lambda>self.
       Inr (peer_start (new_peer (parse_system_config_from_env hc env) 0 (hd self) ps [] star))))))"

definition using_kungfu :: "env \<Rightarrow> bool" where
  "using_kungfu env \<longleftrightarrow> env ''KUNGFU_SELF_SPEC'' \<noteq> None"

definition using_ompi :: "env \<Rightarrow> bool" where
  "using_ompi env \<longleftrightarrow> env ''OMPI_COMM_WORLD_SIZE'' \<noteq> None"

definition from_env :: "nat \<Rightarrow> env \<Rightarrow> peer res" where
  "from_env hc env =
     (if using_kungfu env then from_kungfu_env hc env
      else if using_ompi env then from_ompi_env hc env
      else single hc env)"

text \<open>\<open>at\<close> throws out of range.\<close>

definition from_fork :: "nat \<Rightarrow> env \<Rightarrow> nat \<Rightarrow> nat \<Rightarrow> peer res" where
  "from_fork hc env me n = res_bind (gen n) (\<lambda>ps.
     if me < length ps then Inr (peer_start (new_peer (parse_system_config_from_env hc env) 0 (ps ! me) ps [] star))
     else Inl (Exception ''std::out_of_range''))"

text \<open>\<open>join\<close>; \<open>rank\<close> is the size of the list for a peer that is not in it.\<close>

definition join_session :: "nat \<Rightarrow> peer \<Rightarrow> session" where
  "join_session hc p = new_session hc (pr_config p) (pr_init_version p) (rank (pr_init_peers p) (pr_self p))
     (pr_init_peers p) (pr_init_runners p) (pr_init_strategy p)"

section \<open>Committing a cluster\<close>

definition stage_json :: "int \<Rightarrow> cluster_config \<Rightarrow> string" where
  "stage_json version c = ''{'' @ to_json_pair (''Version'', version) @ '','' @
     to_json_string ''Cluster'' @ '':'' @ cluster_json c @ ''}''"

definition notify :: "string \<Rightarrow> peer_id \<Rightarrow> connection" where
  "notify js pid = conn_send_msg ''update'' (bytes_of_string js) 0 (dial pid conn_control \<lparr>ipv4 = 0, port = 0\<rparr>)"

definition commit_cluster_config :: "cluster_config \<Rightarrow> Prelude.u64 \<Rightarrow> connection list" where
  "commit_cluster_config c new_version = map (notify (stage_json (sint (ucast new_version :: Prelude.u32)) c)) (runners c)"

section \<open>Resizing\<close>

record resize_result =
  rr_changed :: bool
  rr_detached :: bool

text \<open>What \<open>resize\<close> returns and leaves behind: its result, the session, the client pool, and the cluster it has committed.\<close>

record resized =
  rz_result :: resize_result
  rz_session :: session
  rz_peer :: peer
  rz_commit :: "(cluster_config \<times> Prelude.u64) option"

text \<open>
  The loop: \<open>get_config k\<close> is the answer of the provider in round \<open>k\<close>, \<open>cons k digest\<close> the result of the
  call of \<open>consistent\<close> in this round.
\<close>

partial_function (option) agree_loop :: "(nat \<Rightarrow> cluster_config option) \<Rightarrow> (nat \<Rightarrow> byte list \<Rightarrow> bool) \<Rightarrow> cluster_config \<Rightarrow> nat \<Rightarrow> cluster_config option" where
  "agree_loop get_config cons old k =
     (let config = (case get_config k of Some c \<Rightarrow> c | None \<Rightarrow> old) in
      if cons k (cluster_bytes config) then Some config else agree_loop get_config cons old (k + 1))"

definition switch_cluster :: "nat \<Rightarrow> peer \<Rightarrow> session \<Rightarrow> cluster_config \<Rightarrow> resized" where
  "switch_cluster hc p se new =
     (let old = session_cluster se in
      if old = new then \<lparr>rz_result = \<lparr>rr_changed = False, rr_detached = False\<rparr>, rz_session = se, rz_peer = p, rz_commit = None\<rparr>
      else
        (let detached = length (workers new) \<le> rank (workers new) (pr_self p); new_version = se_version se + 1;
             result = \<lparr>rr_changed = True, rr_detached = detached\<rparr> in
         if detached then \<lparr>rz_result = result, rz_session = se, rz_peer = p, rz_commit = Some (new, new_version)\<rparr>
         else \<lparr>rz_result = result,
               rz_session = new_session hc (pr_config p) new_version (rank (workers new) (pr_self p)) (workers new) (runners new) (pr_init_strategy p),
               rz_peer = p\<lparr>pr_client_pool := pool_reset_peers (peers_minus (workers old) (workers new)) (pr_client_pool p)\<rparr>,
               rz_commit = Some (new, new_version)\<rparr>))"

definition peer_resize :: "nat \<Rightarrow> (nat \<Rightarrow> cluster_config option) \<Rightarrow> (nat \<Rightarrow> byte list \<Rightarrow> bool) \<Rightarrow> peer \<Rightarrow> session \<Rightarrow> resized option" where
  "peer_resize hc get_config cons p se =
     map_option (switch_cluster hc p se) (agree_loop get_config cons (session_cluster se) 0)"

section \<open>Lemmas on the environment\<close>

lemma parse_env_nat: "env name = Some (to_string v) \<Longrightarrow> v < 2 ^ 31 \<Longrightarrow> parse_env_int env name = Inr (Some (int v))"
  by (simp add: parse_env_int_def safe_getenv_def Let_def stoi_to_string)

text \<open>What the launcher sets for one process.\<close>

definition launched :: "env \<Rightarrow> peer_id \<Rightarrow> peer_list \<Rightarrow> peer_list \<Rightarrow> nat \<Rightarrow> bool" where
  "launched env self ps rs v \<longleftrightarrow> env ''KUNGFU_SELF_SPEC'' = Some (peer_string self) \<and>
     env ''KUNGFU_INIT_PEERS'' = Some (join '','' (map peer_string ps)) \<and>
     env ''KUNGFU_INIT_RUNNERS'' = Some (join '','' (map peer_string rs)) \<and>
     env ''KUNGFU_INIT_CLUSTER_VERSION'' = Some (to_string v) \<and> v < 2 ^ 31"

lemma from_env_launched:
  assumes "launched env self ps rs v"
  shows "from_env hc env = res_map (\<lambda>s. peer_start (new_peer (parse_system_config_from_env hc env) (word_of_nat v) self ps rs s))
    (parse_kungfu_startegy env)"
proof -
  have "parse_peer_id (peer_string self) = Some self" using parse_peer_string [of "[]" self] by simp
  moreover have "res_bind x (\<lambda>s. Inr (f s)) = res_map f x" for f and x :: "strategy res" by (cases x) simp_all
  ultimately show ?thesis
    using assms parse_env_nat [of env "''KUNGFU_INIT_CLUSTER_VERSION''" v]
    by (simp add: from_env_def from_kungfu_env_def using_kungfu_def launched_def safe_getenv_def parse_peer_list_join)
qed

text \<open>A process started by the launcher, with a strategy, joins the session of all initial peers at its
  own position, with the version and the topology it was given.\<close>

theorem launched_session:
  assumes "launched env self ps rs v" and "self \<in> set ps" and "env ''KUNGFU_ALLREDUCE_STRATEGY'' = Some val"
  shows "\<exists>p. from_env hc env = Inr p \<and> pr_serving p \<and>
    (let se = join_session hc p in se_peers se = ps \<and> se_runners se = rs \<and> se_version se = word_of_nat v \<and>
      ps ! se_rank se = self \<and> se_topo se = make_graph_pair_list (if val = ''RING'' then ring else star) (length ps))"
  using assms from_env_launched [OF assms(1), of hc]
  by (simp add: parse_kungfu_startegy_def kf_strategy_def join_session_def new_session_def peer_start_def new_peer_def Let_def rank_nth)

text \<open>Without \<open>KUNGFU_ALLREDUCE_STRATEGY\<close> in the environment, a process started by the launcher makes
  a string from a null pointer.\<close>

theorem launched_without_strategy:
  assumes "launched env self ps rs v" and "env ''KUNGFU_ALLREDUCE_STRATEGY'' = None"
  shows "from_env hc env = Inl (Undefined_behaviour ''std::string from a null pointer'')"
  using assms(2) from_env_launched [OF assms(1), of hc] by (simp add: parse_kungfu_startegy_def)

lemma example_launched:
  "launched [''KUNGFU_SELF_SPEC'' \<mapsto> peer_string pid, ''KUNGFU_INIT_PEERS'' \<mapsto> peer_string pid,
     ''KUNGFU_INIT_RUNNERS'' \<mapsto> peer_string r, ''KUNGFU_INIT_CLUSTER_VERSION'' \<mapsto> to_string 0] pid [pid] [r] 0"
  by (simp add: launched_def)

theorem launched_session_witness:
  "(let pid = \<lparr>ipv4 = 1, port = 2\<rparr>; r = \<lparr>ipv4 = 1, port = 3\<rparr>;
        env = [''KUNGFU_SELF_SPEC'' \<mapsto> peer_string pid, ''KUNGFU_INIT_PEERS'' \<mapsto> peer_string pid,
          ''KUNGFU_INIT_RUNNERS'' \<mapsto> peer_string r, ''KUNGFU_INIT_CLUSTER_VERSION'' \<mapsto> to_string 0, ''KUNGFU_ALLREDUCE_STRATEGY'' \<mapsto> ''RING''] in
    \<exists>p. from_env 4 env = Inr p \<and> pr_serving p \<and>
      (let se = join_session 4 p in se_peers se = [pid] \<and> se_runners se = [r] \<and> se_version se = word_of_nat 0 \<and>
       [pid] ! se_rank se = pid \<and> se_topo se = make_graph_pair_list ring 1))"
proof -
  let ?pid = "\<lparr>ipv4 = 1, port = 2\<rparr> :: peer_id" and ?r = "\<lparr>ipv4 = 1, port = 3\<rparr> :: peer_id"
  let ?env = "[''KUNGFU_SELF_SPEC'' \<mapsto> peer_string ?pid, ''KUNGFU_INIT_PEERS'' \<mapsto> peer_string ?pid,
    ''KUNGFU_INIT_RUNNERS'' \<mapsto> peer_string ?r, ''KUNGFU_INIT_CLUSTER_VERSION'' \<mapsto> to_string 0, ''KUNGFU_ALLREDUCE_STRATEGY'' \<mapsto> ''RING'']"
  have "launched ?env ?pid [?pid] [?r] 0" by (simp add: launched_def)
  from launched_session [OF this, of "''RING''" 4] show ?thesis unfolding Let_def by simp
qed

theorem launched_without_strategy_witness:
  "(let pid = \<lparr>ipv4 = 1, port = 2\<rparr>; r = \<lparr>ipv4 = 1, port = 3\<rparr>;
        env = [''KUNGFU_SELF_SPEC'' \<mapsto> peer_string pid, ''KUNGFU_INIT_PEERS'' \<mapsto> peer_string pid,
          ''KUNGFU_INIT_RUNNERS'' \<mapsto> peer_string r, ''KUNGFU_INIT_CLUSTER_VERSION'' \<mapsto> to_string 0] in
    from_env 4 env = Inl (Undefined_behaviour ''std::string from a null pointer''))"
  unfolding Let_def by (rule launched_without_strategy [OF example_launched]) simp

section \<open>Agreement on a cluster\<close>

definition proposal :: "cluster_config \<Rightarrow> (nat \<Rightarrow> cluster_config option) \<Rightarrow> nat \<Rightarrow> cluster_config" where
  "proposal old get_config k = (case get_config k of Some c \<Rightarrow> c | None \<Rightarrow> old)"

text \<open>What \<open>consistent\<close> returns in round \<open>k\<close> to a process that passes \<open>digest\<close>, see \<open>Consistent\<close>.\<close>

definition unanimous :: "nat \<Rightarrow> cluster_config \<Rightarrow> (nat \<Rightarrow> nat \<Rightarrow> cluster_config option) \<Rightarrow> nat \<Rightarrow> byte list \<Rightarrow> bool" where
  "unanimous n old get k digest \<longleftrightarrow> (\<forall>j<n. cluster_bytes (proposal old (get j) k) = digest)"

lemma agree_loop_Some:
  assumes "agree_loop g cons old k0 = Some c"
  shows "\<exists>k\<ge>k0. cons k (cluster_bytes (proposal old g k)) \<and> c = proposal old g k"
proof (rule agree_loop.raw_induct
    [where P = "\<lambda>g cons old k0 c. \<exists>k\<ge>k0. cons k (cluster_bytes (proposal old g k)) \<and> c = proposal old g k", OF _ assms])
  fix f g cons old k0 c
  assume ih: "\<And>g cons old k0 c. f g cons old k0 = Some c \<Longrightarrow> \<exists>k\<ge>k0. cons k (cluster_bytes (proposal old g k)) \<and> c = proposal old g k"
    and eq: "(let config = (case g k0 of Some c \<Rightarrow> c | None \<Rightarrow> old)
      in if cons k0 (cluster_bytes config) then Some config else f g cons old (k0 + 1)) = Some c"
  show "\<exists>k\<ge>k0. cons k (cluster_bytes (proposal old g k)) \<and> c = proposal old g k"
  proof (cases "cons k0 (cluster_bytes (proposal old g k0))")
    case True
    with eq show ?thesis by (auto simp: Let_def proposal_def [symmetric])
  next
    case False
    with eq ih [of g cons old "k0 + 1" c] obtain k where "k0 + 1 \<le> k" "cons k (cluster_bytes (proposal old g k)) \<and> c = proposal old g k"
      by (auto simp: Let_def proposal_def [symmetric])
    then show ?thesis by (intro exI [of _ k]) simp
  qed
qed

lemma agree_loop_first:
  assumes "cons k (cluster_bytes (proposal old g k))" and "\<And>j. j < k \<Longrightarrow> \<not> cons j (cluster_bytes (proposal old g j))" and "k0 \<le> k"
  shows "agree_loop g cons old k0 = Some (proposal old g k)"
  using assms(3)
proof (induction "k - k0" arbitrary: k0)
  case 0
  with assms(1) show ?case by (subst agree_loop.simps) (simp add: proposal_def)
next
  case (Suc d)
  then have "agree_loop g cons old (k0 + 1) = Some (proposal old g k)" by simp
  with Suc assms(2) [of k0] show ?case by (subst agree_loop.simps) (simp add: proposal_def)
qed

lemma unanimous_iff:
  assumes "i < n" and "\<And>j. j < n \<Longrightarrow> length (runners (proposal old (get j) k)) < 2 ^ 32 \<and> length (workers (proposal old (get j) k)) < 2 ^ 32"
  shows "unanimous n old get k (cluster_bytes (proposal old (get i) k)) \<longleftrightarrow> (\<forall>j<n. proposal old (get j) k = proposal old (get i) k)"
  using assms cluster_bytes_inj unfolding unanimous_def by metis

lemma switch_cluster_effect:
  assumes "r = switch_cluster hc p se c" and "old = session_cluster se"
  shows "rr_changed (rz_result r) \<longleftrightarrow> c \<noteq> old"
    "rr_detached (rz_result r) \<longleftrightarrow> c \<noteq> old \<and> pr_self p \<notin> set (workers c)"
    "rz_commit r = (if c = old then None else Some (c, se_version se + 1))"
    "session_cluster (rz_session r) = (if rr_detached (rz_result r) then old else c)"
    "c \<noteq> old \<Longrightarrow> pr_self p \<in> set (workers c) \<Longrightarrow>
       se_version (rz_session r) = se_version se + 1 \<and> workers c ! se_rank (rz_session r) = pr_self p"
  using assms rank_less [of "workers c" "pr_self p"] rank_nth [of "pr_self p" "workers c"]
  by (auto simp: switch_cluster_def Let_def session_cluster_def new_session_def split: if_splits)

lemma resize_all:
  assumes "0 < n" and "\<forall>i<n. session_cluster (se i) = old \<and> se_version (se i) = v"
    and "\<forall>j<n. \<forall>k. length (runners (proposal old (get j) k)) < 2 ^ 32 \<and> length (workers (proposal old (get j) k)) < 2 ^ 32"
  shows "if \<exists>k. \<forall>i<n. \<forall>j<n. proposal old (get j) k = proposal old (get i) k
    then \<exists>c. \<forall>i<n. \<exists>r. peer_resize hc (get i) (unanimous n old get) (p i) (se i) = Some r \<and>
      (rr_changed (rz_result r) \<longleftrightarrow> c \<noteq> old) \<and>
      (rr_detached (rz_result r) \<longleftrightarrow> c \<noteq> old \<and> pr_self (p i) \<notin> set (workers c)) \<and>
      rz_commit r = (if c = old then None else Some (c, v + 1)) \<and>
      session_cluster (rz_session r) = (if rr_detached (rz_result r) then old else c) \<and>
      (c \<noteq> old \<and> pr_self (p i) \<in> set (workers c) \<longrightarrow>
        se_version (rz_session r) = v + 1 \<and> workers c ! se_rank (rz_session r) = pr_self (p i))
    else \<forall>i<n. peer_resize hc (get i) (unanimous n old get) (p i) (se i) = None"
    (is "if \<exists>k. ?agreed k then \<exists>c. \<forall>i<n. ?good c i else _")
proof -
  have u: "unanimous n old get k (cluster_bytes (proposal old (get i) k)) \<longleftrightarrow> ?agreed k" if "i < n" for i k
    using unanimous_iff [OF that, of old get k] assms(3) that by metis
  show ?thesis
  proof (cases "\<exists>k. ?agreed k")
    case True
    define k where "k = (LEAST k. ?agreed k)"
    have k: "?agreed k" "\<And>j. j < k \<Longrightarrow> \<not> ?agreed j" unfolding k_def
      by (rule LeastI_ex [OF True], erule not_less_Least)
    let ?c = "proposal old (get 0) k"
    have "peer_resize hc (get i) (unanimous n old get) (p i) (se i) = Some (switch_cluster hc (p i) (se i) ?c)" if "i < n" for i
    proof -
      have "agree_loop (get i) (unanimous n old get) old 0 = Some (proposal old (get i) k)"
      proof (rule agree_loop_first)
        show "unanimous n old get k (cluster_bytes (proposal old (get i) k))" unfolding u [OF that] by (rule k(1))
        show "\<not> unanimous n old get j (cluster_bytes (proposal old (get i) j))" if "j < k" for j
          unfolding u [OF \<open>i < n\<close>] using that by (rule k(2))
      qed simp
      moreover have "proposal old (get i) k = ?c" using k(1) that assms(1) by blast
      ultimately show ?thesis using assms(2) that by (simp add: peer_resize_def)
    qed
    then have "?good ?c i" if "i < n" for i
      using switch_cluster_effect [OF refl refl, where hc = hc and p = "p i" and se = "se i" and c = ?c] assms(2) that
      by (intro exI [of _ "switch_cluster hc (p i) (se i) ?c"]) simp
    then show ?thesis unfolding if_P [OF True] by blast
  next
    case False
    have "agree_loop (get i) (unanimous n old get) old 0 = None" if "i < n" for i
      using agree_loop_Some [of "get i" "unanimous n old get" old 0] u [OF that] False by (metis option.exhaust)
    then show ?thesis using False assms(2) by (simp only: if_False peer_resize_def) simp
  qed
qed

end
