(* ===== verification/Resize.thy ===== *)
theory Resize
  imports Consistent_Ring Peer
begin

text \<open>
  \<open>peer::resize\<close> in all peers of a session, over the runs of \<open>session::consistent\<close>: \<open>src/stdml/collective/peer.cpp\<close>
  with \<open>session.cpp\<close>. In round \<open>k\<close> peer \<open>i\<close> puts the bytes of the cluster it proposes at the address of its
  \<open>digest\<close> and calls \<open>consistent\<close>; \<open>round_answers\<close> says what the peers get back when the whole cluster runs.
  Rounds are separate runs: each starts when the one before it has ended in all peers.

  On the star the answers are those that \<open>Peer\<close> assumes, so that all peers leave the loop together; on the ring
  some leave it and others go on.
\<close>

section \<open>One round\<close>

definition digest :: "cluster_config \<Rightarrow> (nat \<Rightarrow> nat \<Rightarrow> cluster_config option) \<Rightarrow> nat \<Rightarrow> nat \<Rightarrow> byte list" where
  "digest old get k i = cluster_bytes (proposal old (get i) k)"

definition proposes :: "nat \<Rightarrow> cluster_config \<Rightarrow> (nat \<Rightarrow> nat \<Rightarrow> cluster_config option) \<Rightarrow> nat \<Rightarrow> (nat \<Rightarrow> frame) \<Rightarrow> (nat \<Rightarrow> mem) \<Rightarrow> bool" where
  "proposes n old get k fr M \<longleftrightarrow> frames_ok n fr (\<lambda>i. length (digest old get k i)) M \<and>
     (\<forall>i<n. payload (fr i) (length (digest old get k i)) (M i) = digest old get k i)"

definition session_consistent :: "session \<Rightarrow> frame \<Rightarrow> nat \<Rightarrow> bool \<Rightarrow> instr list res" where
  "session_consistent se fr sz same = consistent_prog (se_topo se) (se_rank se) fr sz same"

text \<open>Every schedule of the round ends, and peer \<open>i\<close> gets the answer \<open>ans i\<close>.\<close>

definition round_answers :: "float_ops \<Rightarrow> nat \<Rightarrow> (nat \<Rightarrow> session) \<Rightarrow> (nat \<Rightarrow> nat) \<Rightarrow> (nat \<Rightarrow> frame) \<Rightarrow> (nat \<Rightarrow> mem) \<Rightarrow> (nat \<Rightarrow> bool) \<Rightarrow> bool" where
  "round_answers fo n se sz fr M ans \<longleftrightarrow> (\<exists>prog M'.
     (\<forall>i<n. session_consistent (se i) (fr i) (sz i) (same_sizes (fr i) (M' i)) = Inr (prog i)) \<and>
     every_schedule fo (start_cluster n M prog) M' \<and> (\<forall>i<n. ans i \<longleftrightarrow> consistent (fr i) (sz i) (M' i)))"

text \<open>The sessions of the peers of one cluster.\<close>

definition sessions_of :: "nat \<Rightarrow> strategy \<Rightarrow> cluster_config \<Rightarrow> Prelude.u64 \<Rightarrow> (nat \<Rightarrow> session) \<Rightarrow> bool" where
  "sessions_of n s old v se \<longleftrightarrow> (\<forall>i<n. session_cluster (se i) = old \<and> se_version (se i) = v \<and>
     se_topo (se i) = make_graph_pair_list s n \<and> se_rank (se i) = i)"

lemma sessions_ofD:
  assumes "sessions_of n s old v se" and "i < n"
  shows "session_cluster (se i) = old" "se_version (se i) = v" "se_topo (se i) = make_graph_pair_list s n" "se_rank (se i) = i"
  using assms by (simp_all add: sessions_of_def)

lemma round_answers_star:
  assumes "0 < n" and "sessions_of n star old v se" and "proposes n old get k fr M"
  shows "round_answers fo n se (\<lambda>i. length (digest old get k i)) fr M (\<lambda>i. unanimous n old get k (digest old get k i))"
proof -
  let ?sz = "\<lambda>i. length (digest old get k i)"
  from consistent_answers [OF assms(1), of fr ?sz M fo] assms(3) obtain prog M' where
    r: "\<forall>i<n. consistent_prog (make_graph_pair_list star n) i (fr i) (?sz i) (same_sizes (fr i) (M' i)) = Inr (prog i)"
      "every_schedule fo (start_cluster n M prog) M'"
      "\<forall>i<n. consistent (fr i) (?sz i) (M' i) \<longleftrightarrow> (\<forall>j<n. \<forall>l<n. payload (fr j) (?sz j) (M j) = payload (fr l) (?sz l) (M l))"
    unfolding proposes_def by blast
  have p: "payload (fr i) (?sz i) (M i) = digest old get k i" if "i < n" for i
    using assms(3) that by (simp add: proposes_def)
  have "unanimous n old get k (digest old get k i) \<longleftrightarrow> consistent (fr i) (?sz i) (M' i)" if "i < n" for i
    unfolding unanimous_def digest_def [symmetric] using r(3) p that by metis
  moreover have "session_consistent (se i) (fr i) (?sz i) (same_sizes (fr i) (M' i)) = Inr (prog i)" if "i < n" for i
    using r(1) sessions_ofD [OF assms(2) that] that by (simp add: session_consistent_def)
  ultimately show ?thesis unfolding round_answers_def using r(2) by blast
qed

lemma round_answers_ring:
  assumes "3 \<le> n" and "sessions_of n ring old v se" and "proposes n old get k fr M"
    and "\<forall>i<n. length (digest old get k i) = l" and "0 < l" and "l \<le> 2 ^ 20"
    and "i < n" and "j < n" and "digest old get k i \<noteq> digest old get k j"
  shows "\<exists>ans. round_answers fo n se (\<lambda>i. length (digest old get k i)) fr M ans \<and> (\<exists>a<n. ans a) \<and> (\<exists>b<n. \<not> ans b)"
proof -
  have f: "frames_ok n fr (\<lambda>_. l) M" using assms(3,4) by (simp add: proposes_def frames_ok_def)
  have "payload (fr i) l (M i) \<noteq> payload (fr j) l (M j)" using assms(3,4,7-9) by (simp add: proposes_def)
  from ring_disagreement [OF assms(1) f assms(5-8) this, of fo] obtain prog M' where
    r: "\<forall>i<n. consistent_prog (make_graph_pair_list ring n) i (fr i) l (same_sizes (fr i) (M' i)) = Inr (prog i)"
      "every_schedule fo (start_cluster n M prog) M'" "\<exists>i<n. consistent (fr i) l (M' i)" "\<exists>i<n. \<not> consistent (fr i) l (M' i)" by blast
  have "session_consistent (se i) (fr i) l (same_sizes (fr i) (M' i)) = Inr (prog i)" if "i < n" for i
    using r(1) sessions_ofD [OF assms(2) that] that by (simp add: session_consistent_def)
  with r assms(4) show ?thesis unfolding round_answers_def
    by (intro exI [of _ "\<lambda>i. consistent (fr i) l (M' i)"] conjI exI [of _ prog] exI [of _ M']) auto
qed

section \<open>Properties\<close>


lemma first_round_exit:
  assumes "session_cluster se = old"
  shows "cons 0 (cluster_bytes (proposal old g 0)) \<Longrightarrow> peer_resize hc g cons p se = Some (switch_cluster hc p se (proposal old g 0))"
    and "\<not> cons 0 (cluster_bytes (proposal old g 0)) \<Longrightarrow> peer_resize hc g cons p se = map_option (switch_cluster hc p se) (agree_loop g cons old 1)"
  using assms by (simp_all add: peer_resize_def agree_loop.simps [of g cons old 0] proposal_def)

text \<open>C10: On the ring, three or more peers that propose different clusters of the same size do not agree: the first
  round ends under every schedule, and some peer leaves the loop with its own proposal, while another peer enters
  the next round.\<close>

theorem resize_ring_splits:
  assumes "3 \<le> n" and "sessions_of n ring old v se" and "proposes n old get 0 fr M"
    and "\<forall>i<n. length (digest old get 0 i) = l" and "0 < l" and "l \<le> 2 ^ 20"
    and "i < n" and "j < n" and "digest old get 0 i \<noteq> digest old get 0 j"
  shows "\<exists>ans a b. round_answers fo n se (\<lambda>i. length (digest old get 0 i)) fr M ans \<and> a < n \<and> ans a \<and> b < n \<and> \<not> ans b \<and>
    (\<forall>cons. (\<forall>i<n. cons i 0 (digest old get 0 i) = ans i) \<longrightarrow>
      peer_resize hc (get a) (cons a) (p a) (se a) = Some (switch_cluster hc (p a) (se a) (proposal old (get a) 0)) \<and>
      peer_resize hc (get b) (cons b) (p b) (se b) = map_option (switch_cluster hc (p b) (se b)) (agree_loop (get b) (cons b) old 1))"
proof -
  from round_answers_ring [OF assms, of fo] obtain ans a b where
    r: "round_answers fo n se (\<lambda>i. length (digest old get 0 i)) fr M ans" "a < n" "ans a" "b < n" "\<not> ans b" by blast
  note ab = first_round_exit [OF sessions_ofD(1) [OF assms(2)], folded digest_def]
  show ?thesis
    using r ab(1) [OF r(2), of _ "get a"] ab(2) [OF r(4), of _ "get b"]
    by (intro exI [of _ ans] exI [of _ a] exI [of _ b]) (simp add: digest_def)
qed

section \<open>Instances\<close>

text \<open>A layout of the objects of \<open>consistent\<close> for digests of at most \<open>l\<close> bytes.\<close>

definition example_frame :: "nat \<Rightarrow> frame" where
  "example_frame l = \<lparr>f_size = 0, f_size_1 = 8, f_size_2 = 16, f_ptr = 24, f_y = 24 + l, f_z = 24 + 2 * l\<rparr>"

definition example_mem :: "byte list \<Rightarrow> mem" where
  "example_mem b = write_mem (write_mem (\<lambda>_. 0) 0 (le_enc 8 (length b))) 24 b"

lemma proposes_example:
  assumes "\<And>i. i < n \<Longrightarrow> length (digest old get k i) \<le> l" and "l < 2 ^ 64"
  shows "proposes n old get k (\<lambda>_. example_frame l) (\<lambda>i. example_mem (digest old get k i))"
  unfolding proposes_def frames_ok_def
proof (intro conjI allI impI)
  fix i
  assume "i < n"
  then have l: "length (digest old get k i) \<le> l" by (rule assms(1))
  show "frame_ok (example_frame l) (length (digest old get k i))" using l by (simp add: frame_ok_def example_frame_def apart_def)
  show "length (digest old get k i) < 2 ^ 64" using l assms(2) by simp
  show "read_mem (example_mem (digest old get k i)) (f_size (example_frame l)) 8 = le_enc 8 (length (digest old get k i))"
    by (simp add: example_frame_def example_mem_def read_apart)
  show "payload (example_frame l) (length (digest old get k i)) (example_mem (digest old get k i)) = digest old get k i"
    by (simp add: payload_def example_frame_def example_mem_def)
qed

text \<open>\<open>n\<close> peers of one host, whose sessions have the strategy \<open>s\<close>.\<close>

definition example_peer :: "nat \<Rightarrow> strategy \<Rightarrow> nat \<Rightarrow> peer" where
  "example_peer n s i = (let ps = map (\<lambda>j. \<lparr>ipv4 = 1, port = word_of_nat j\<rparr>) [0..<n] in
     new_peer (parse_system_config_from_env 4 Map.empty) 0 (ps ! i) ps [] s)"

abbreviation example_session :: "nat \<Rightarrow> strategy \<Rightarrow> nat \<Rightarrow> session" where
  "example_session n s i \<equiv> join_session 4 (example_peer n s i)"

abbreviation example_cluster :: "nat \<Rightarrow> cluster_config" where
  "example_cluster n \<equiv> \<lparr>runners = [], workers = map (\<lambda>j. \<lparr>ipv4 = 1, port = word_of_nat j\<rparr>) [0..<n]\<rparr>"

lemma example_sessions:
  assumes "n < 2 ^ 16"
  shows "sessions_of n s (example_cluster n) 0 (example_session n s)"
  unfolding sessions_of_def
proof (intro allI impI)
  fix i
  assume i: "i < n"
  let ?ps = "map (\<lambda>j. \<lparr>ipv4 = 1, port = word_of_nat j\<rparr>) [0..<n] :: peer_list"
  have "inj_on (\<lambda>j. \<lparr>ipv4 = 1, port = word_of_nat j\<rparr> :: peer_id) {0..<n}"
  proof (rule inj_onI)
    fix a b
    assume ab: "a \<in> {0..<n}" "b \<in> {0..<n}" "\<lparr>ipv4 = 1, port = word_of_nat a\<rparr> = (\<lparr>ipv4 = 1, port = word_of_nat b\<rparr> :: peer_id)"
    then have "unat (word_of_nat a :: 16 word) = unat (word_of_nat b :: 16 word)" by (simp only: peer_id.ext_inject)
    moreover have "unat (word_of_nat a :: 16 word) = a" "unat (word_of_nat b :: 16 word) = b"
      using ab(1,2) assms by (simp_all add: unat_of_nat)
    ultimately show "a = b" by (simp only:)
  qed
  then have "distinct ?ps" by (simp add: distinct_map)
  from rank_distinct [OF this, of i] i have "rank ?ps (?ps ! i) = i" by simp
  then show "session_cluster (example_session n s i) = example_cluster n \<and> se_version (example_session n s i) = 0 \<and>
      se_topo (example_session n s i) = make_graph_pair_list s n \<and> se_rank (example_session n s i) = i"
    by (simp add: session_cluster_def join_session_def new_session_def new_peer_def example_peer_def Let_def)
qed


text \<open>Every peer proposes a cluster of its own.\<close>

theorem resize_ring_splits_witness:
  "(let old = example_cluster 3; se = example_session 3 ring; get = (\<lambda>i k. Some \<lparr>runners = [], workers = [\<lparr>ipv4 = 1, port = word_of_nat i\<rparr>]\<rparr>) in
    \<exists>ans. round_answers first_operand 3 se (\<lambda>i. length (digest old get 0 i)) (\<lambda>_. example_frame 14) (\<lambda>i. example_mem (digest old get 0 i)) ans \<and>
      (\<exists>a<3. ans a) \<and> (\<exists>b<3. \<not> ans b))"
proof -
  let ?old = "example_cluster 3" and ?se = "example_session 3 ring"
  let ?get = "\<lambda>i k :: nat. Some \<lparr>runners = [], workers = [\<lparr>ipv4 = 1, port = word_of_nat i\<rparr>]\<rparr> :: cluster_config option"
  have se: "sessions_of 3 ring ?old 0 ?se" by (rule example_sessions) simp
  have l: "length (digest ?old ?get k i) = 14" for k i by (simp add: digest_def length_cluster_bytes proposal_def)
  have p: "proposes 3 ?old ?get 0 (\<lambda>_. example_frame 14) (\<lambda>i. example_mem (digest ?old ?get 0 i))"
    by (rule proposes_example) (simp_all add: l)
  have ne: "digest ?old ?get 0 0 \<noteq> digest ?old ?get 0 1"
  proof
    assume "digest ?old ?get 0 0 = digest ?old ?get 0 1"
    from cluster_bytes_inj [OF _ _ _ _ this [unfolded digest_def]] show False by (simp add: proposal_def)
  qed
  have c: "3 \<le> (3 :: nat)" "0 < (14 :: nat)" "14 \<le> (2 ^ 20 :: nat)" "0 < (3 :: nat)" "1 < (3 :: nat)" by simp_all
  have ll: "\<forall>i<3. length (digest ?old ?get 0 i) = 14" by (simp add: l)
  from resize_ring_splits [OF c(1) se p ll c(2-5) ne, of first_operand 4 "example_peer 3 ring"] show ?thesis
    unfolding Let_def by (elim exE conjE) (intro exI conjI, assumption+)
qed

end
