(* ===== verification/Group.thy ===== *)
theory Group
  imports Prelude
begin

text \<open>
  Many all-reduces at once: \<open>session::group_all_reduce\<close> of \<open>src/stdml/collective/session.cpp\<close>. Every process
  puts one job per workspace into a new thread pool of 76 workers; a job waits for its workspace to be
  computed and then calls \<open>all_reduce\<close>. A call of \<open>all_reduce\<close> can return once all processes have entered it.
  A workspace is a number, the same for all processes.

  The processes are a transition system: a workspace is computed, a worker takes the next job of the
  queue, a job enters its all-reduce or returns from it. When all processes list the workspaces in the
  same order, or no more of them than there are workers, every schedule ends with all jobs done. When two
  processes start with disjoint sets of 76 workspaces, no job of any process ever returns.
\<close>

section \<open>Definitions\<close>

definition group_workers :: nat where
  "group_workers = 76"

record group =
  gr_queue :: "nat \<Rightarrow> nat list"
  gr_busy :: "nat \<Rightarrow> nat list"
  gr_done :: "nat \<Rightarrow> nat list"
  gr_ready :: "nat \<Rightarrow> nat \<Rightarrow> bool"
  gr_entered :: "nat \<Rightarrow> nat \<Rightarrow> bool"

text \<open>\<open>L i\<close> are the workspaces of process \<open>i\<close> in the order of its argument, \<open>ready\<close> says which are computed.\<close>

definition group_all_reduce :: "(nat \<Rightarrow> nat list) \<Rightarrow> (nat \<Rightarrow> nat \<Rightarrow> bool) \<Rightarrow> group" where
  "group_all_reduce L ready = \<lparr>gr_queue = L, gr_busy = (\<lambda>_. []), gr_done = (\<lambda>_. []), gr_ready = ready, gr_entered = (\<lambda>_ _. False)\<rparr>"

datatype group_label = Fulfil nat nat | Take nat | Enter nat nat | Return nat nat

fun group_exec :: "nat \<Rightarrow> nat \<Rightarrow> group_label \<Rightarrow> group \<Rightarrow> group option" where
  "group_exec n m (Fulfil i w) g =
     (if i < n \<and> w \<in> set (gr_queue g i @ gr_busy g i) \<and> \<not> gr_ready g i w
      then Some (g\<lparr>gr_ready := (gr_ready g)(i := (gr_ready g i)(w := True))\<rparr>) else None)"
| "group_exec n m (Take i) g =
     (case gr_queue g i of
        [] \<Rightarrow> None
      | w # ws \<Rightarrow>
          if i < n \<and> length (gr_busy g i) < m
          then Some (g\<lparr>gr_queue := (gr_queue g)(i := ws), gr_busy := (gr_busy g)(i := w # gr_busy g i)\<rparr>) else None)"
| "group_exec n m (Enter i w) g =
     (if i < n \<and> w \<in> set (gr_busy g i) \<and> gr_ready g i w \<and> \<not> gr_entered g i w
      then Some (g\<lparr>gr_entered := (gr_entered g)(i := (gr_entered g i)(w := True))\<rparr>) else None)"
| "group_exec n m (Return i w) g =
     (if i < n \<and> w \<in> set (gr_busy g i) \<and> list_all (\<lambda>j. gr_entered g j w) [0..<n]
      then Some (g\<lparr>gr_busy := (gr_busy g)(i := remove1 w (gr_busy g i)), gr_done := (gr_done g)(i := w # gr_done g i)\<rparr>) else None)"

text \<open>\<open>p->wait()\<close> has returned everywhere.\<close>

definition group_returned :: "nat \<Rightarrow> group \<Rightarrow> bool" where
  "group_returned n g \<longleftrightarrow> (\<forall>i<n. gr_queue g i = [] \<and> gr_busy g i = [])"

section \<open>Invariant\<close>

definition jobs_ok :: "nat list \<Rightarrow> group \<Rightarrow> nat \<Rightarrow> bool" where
  "jobs_ok l g i \<longleftrightarrow> distinct (gr_queue g i @ gr_busy g i @ gr_done g i) \<and> set (gr_queue g i @ gr_busy g i @ gr_done g i) = set l \<and>
     (\<exists>p. l = p @ gr_queue g i) \<and> (\<forall>w. gr_entered g i w \<longrightarrow> w \<in> set (gr_busy g i @ gr_done g i))"

definition group_inv :: "nat \<Rightarrow> (nat \<Rightarrow> nat list) \<Rightarrow> group \<Rightarrow> bool" where
  "group_inv n L g \<longleftrightarrow> (\<forall>i<n. jobs_ok (L i) g i \<and> (\<forall>w\<in>set (gr_done g i). \<forall>j<n. gr_entered g j w))"

lemma jobs_ok_cong:
  "gr_queue g' i = gr_queue g i \<Longrightarrow> gr_busy g' i = gr_busy g i \<Longrightarrow> gr_done g' i = gr_done g i \<Longrightarrow> gr_entered g' i = gr_entered g i \<Longrightarrow>
    jobs_ok l g' i = jobs_ok l g i"
  by (simp add: jobs_ok_def)

lemma jobs_ok_take:
  assumes "jobs_ok l g i" and "gr_queue g i = w # ws"
  shows "jobs_ok l (g\<lparr>gr_queue := (gr_queue g)(i := ws), gr_busy := (gr_busy g)(i := w # gr_busy g i)\<rparr>) i"
proof -
  from assms obtain p where "l = (p @ [w]) @ ws" by (auto simp: jobs_ok_def)
  then have "\<exists>p. l = p @ ws" by blast
  with assms show ?thesis by (auto simp: jobs_ok_def)
qed

lemma group_inv_step:
  assumes inv: "group_inv n L g" and st: "group_exec n m l g = Some g'"
  shows "group_inv n L g'"
proof (cases l)
  case (Fulfil i w)
  with st have g': "g' = g\<lparr>gr_ready := (gr_ready g)(i := (gr_ready g i)(w := True))\<rparr>" by (auto split: if_splits)
  have "jobs_ok (L k) g' k = jobs_ok (L k) g k" for k by (rule jobs_ok_cong) (simp_all add: g')
  then show ?thesis using inv by (simp add: group_inv_def g')
next
  case (Take i)
  with st obtain w ws where q: "gr_queue g i = w # ws"
    and g': "g' = g\<lparr>gr_queue := (gr_queue g)(i := ws), gr_busy := (gr_busy g)(i := w # gr_busy g i)\<rparr>"
    by (auto split: list.splits if_splits)
  have "jobs_ok (L k) g' k" if "k < n" for k
  proof (cases "k = i")
    case True
    with jobs_ok_take [OF _ q] inv that show ?thesis by (simp add: group_inv_def g')
  next
    case False
    then have "jobs_ok (L k) g' k = jobs_ok (L k) g k" by (intro jobs_ok_cong) (simp_all add: g')
    with inv that show ?thesis by (simp add: group_inv_def)
  qed
  then show ?thesis using inv by (simp add: group_inv_def g')
next
  case (Enter i w)
  with st have b: "w \<in> set (gr_busy g i)" and g': "g' = g\<lparr>gr_entered := (gr_entered g)(i := (gr_entered g i)(w := True))\<rparr>"
    by (auto split: if_splits)
  have "jobs_ok (L k) g' k" if "k < n" for k
    using inv that b by (auto simp: group_inv_def jobs_ok_def g')
  moreover have "gr_entered g' j v" if "gr_entered g j v" for j v using that by (auto simp: g')
  ultimately show ?thesis using inv by (simp add: group_inv_def) (simp add: g')
next
  case (Return i w)
  with st have b: "w \<in> set (gr_busy g i)" "\<forall>j<n. gr_entered g j w"
    and g': "g' = g\<lparr>gr_busy := (gr_busy g)(i := remove1 w (gr_busy g i)), gr_done := (gr_done g)(i := w # gr_done g i)\<rparr>"
    by (auto simp: list_all_iff split: if_splits)
  have "jobs_ok (L k) g' k" if "k < n" for k
  proof (cases "k = i")
    case True
    have ok: "jobs_ok (L i) g i" using inv that True by (simp add: group_inv_def)
    then have d: "distinct (gr_busy g i)" by (simp add: jobs_ok_def)
    with ok b(1) True show ?thesis by (auto simp: jobs_ok_def g')
  next
    case False
    then have "jobs_ok (L k) g' k = jobs_ok (L k) g k" by (intro jobs_ok_cong) (simp_all add: g')
    with inv that show ?thesis by (simp add: group_inv_def)
  qed
  then show ?thesis using inv b(2) by (simp add: group_inv_def g')
qed

section \<open>Work and progress\<close>

definition proc_work :: "group \<Rightarrow> nat \<Rightarrow> nat" where
  "proc_work g i = 2 * length (gr_queue g i) + length (gr_busy g i) +
     card {w \<in> set (gr_queue g i @ gr_busy g i). \<not> gr_ready g i w} + card {w \<in> set (gr_queue g i @ gr_busy g i). \<not> gr_entered g i w}"

definition group_work :: "nat \<Rightarrow> group \<Rightarrow> nat" where
  "group_work n g = (\<Sum>i<n. proc_work g i)"

lemma card_drop:
  assumes "w \<in> S" and "finite S" and "\<not> P w"
  shows "card {v \<in> S. \<not> (P(w := True)) v} < card {v \<in> S. \<not> P v}"
  using assms by (intro psubset_card_mono) auto

lemma group_exec_others:
  assumes "group_exec n m l g = Some g'"
  shows "\<exists>i<n. proc_work g' i < proc_work g i \<and> (\<forall>k. k \<noteq> i \<longrightarrow> proc_work g' k = proc_work g k)"
proof (cases l)
  case (Fulfil i w)
  with assms have i: "i < n" and w: "w \<in> set (gr_queue g i @ gr_busy g i)" "\<not> gr_ready g i w"
    and g': "g' = g\<lparr>gr_ready := (gr_ready g)(i := (gr_ready g i)(w := True))\<rparr>" by (auto split: if_splits)
  from card_drop [of w "set (gr_queue g i @ gr_busy g i)" "gr_ready g i"] w have "proc_work g' i < proc_work g i"
    by (simp add: proc_work_def g')
  with i show ?thesis by (intro exI [of _ i]) (simp add: proc_work_def g')
next
  case (Take i)
  with assms obtain w ws where q: "gr_queue g i = w # ws" and i: "i < n"
    and g': "g' = g\<lparr>gr_queue := (gr_queue g)(i := ws), gr_busy := (gr_busy g)(i := w # gr_busy g i)\<rparr>"
    by (auto split: list.splits if_splits)
  have "set (gr_queue g' i @ gr_busy g' i) = set (gr_queue g i @ gr_busy g i)" using q by (auto simp: g')
  then have "proc_work g' i < proc_work g i" using q by (simp add: proc_work_def) (simp add: g')
  with i show ?thesis by (intro exI [of _ i]) (simp add: proc_work_def g')
next
  case (Enter i w)
  with assms have i: "i < n" and w: "w \<in> set (gr_queue g i @ gr_busy g i)" "\<not> gr_entered g i w"
    and g': "g' = g\<lparr>gr_entered := (gr_entered g)(i := (gr_entered g i)(w := True))\<rparr>" by (auto split: if_splits)
  from card_drop [of w "set (gr_queue g i @ gr_busy g i)" "gr_entered g i"] w have "proc_work g' i < proc_work g i"
    by (simp add: proc_work_def g')
  with i show ?thesis by (intro exI [of _ i]) (simp add: proc_work_def g')
next
  case (Return i w)
  with assms have i: "i < n" and w: "w \<in> set (gr_busy g i)"
    and g': "g' = g\<lparr>gr_busy := (gr_busy g)(i := remove1 w (gr_busy g i)), gr_done := (gr_done g)(i := w # gr_done g i)\<rparr>"
    by (auto split: if_splits)
  have sub: "set (gr_queue g i @ remove1 w (gr_busy g i)) \<subseteq> set (gr_queue g i @ gr_busy g i)"
    using set_remove1_subset [of w "gr_busy g i"] by auto
  have c: "card {v \<in> set (gr_queue g i @ remove1 w (gr_busy g i)). \<not> P v} \<le> card {v \<in> set (gr_queue g i @ gr_busy g i). \<not> P v}" for P
    by (intro card_mono) (use sub in auto)
  have "length (remove1 w (gr_busy g i)) < length (gr_busy g i)" using w length_pos_if_in_set [OF w] by (simp add: length_remove1)
  with c [of "gr_ready g i"] c [of "gr_entered g i"] have "proc_work g' i < proc_work g i" by (simp add: proc_work_def g')
  with i show ?thesis by (intro exI [of _ i]) (simp add: proc_work_def g')
qed

lemma group_work_step:
  assumes "group_exec n m l g = Some g'"
  shows "group_work n g' < group_work n g"
proof -
  from group_exec_others [OF assms] obtain i where i: "i < n" "proc_work g' i < proc_work g i" "\<forall>k. k \<noteq> i \<longrightarrow> proc_work g' k = proc_work g k"
    by blast
  then have "\<forall>k\<in>{..<n}. proc_work g' k \<le> proc_work g k" by (metis le_less)
  moreover have "\<exists>k\<in>{..<n}. proc_work g' k < proc_work g k" using i by blast
  ultimately show ?thesis unfolding group_work_def by (intro sum_strict_mono_ex1) auto
qed

lemma taken_progress:
  assumes "group_inv n L g" and all: "\<forall>j<n. w \<in> set (gr_busy g j @ gr_done g j)" and "i < n" and "w \<in> set (gr_busy g i)"
  shows "\<exists>l g'. group_exec n m l g = Some g'"
proof (cases "\<forall>j<n. gr_entered g j w")
  case True
  with assms(3,4) show ?thesis by (intro exI [of _ "Return i w"]) (simp add: list_all_iff)
next
  case False
  then obtain j where j: "j < n" "\<not> gr_entered g j w" by blast
  with assms(1) have "w \<notin> set (gr_done g j)" by (auto simp: group_inv_def)
  with all j(1) have b: "w \<in> set (gr_busy g j)" by auto
  show ?thesis
  proof (cases "gr_ready g j w")
    case True
    with j b show ?thesis by (intro exI [of _ "Enter j w"]) simp
  next
    case False
    with j b show ?thesis by (intro exI [of _ "Fulfil j w"]) simp
  qed
qed

text \<open>The orders with which every schedule completes: the same one everywhere, or no more jobs than workers.\<close>

definition good_orders :: "nat \<Rightarrow> nat \<Rightarrow> (nat \<Rightarrow> nat list) \<Rightarrow> bool" where
  "good_orders n m L \<longleftrightarrow> 0 < m \<and> (\<forall>i<n. distinct (L i) \<and> set (L i) = set (L 0)) \<and>
     ((\<forall>i<n. L i = L 0) \<or> (\<forall>i<n. length (L i) \<le> m))"

lemma group_progress:
  assumes inv: "group_inv n L g" and good: "good_orders n m L" and "\<not> group_returned n g"
  shows "\<exists>l g'. group_exec n m l g = Some g'"
proof -
  from assms(3) obtain i where i: "i < n" "gr_queue g i @ gr_busy g i \<noteq> []" by (auto simp: group_returned_def)
  have ok: "jobs_ok (L j) g j" if "j < n" for j using inv that unfolding group_inv_def by blast
  have sL: "set (L j) = set (L 0)" if "j < n" for j using good that unfolding good_orders_def by blast
  have cov: "w \<in> set (gr_queue g j) \<or> w \<in> set (gr_busy g j @ gr_done g j)" if "j < n" "w \<in> set (L 0)" for j w
  proof -
    have "w \<in> set (gr_queue g j @ gr_busy g j @ gr_done g j)" using ok [OF that(1)] sL [OF that(1)] that(2) unfolding jobs_ok_def by blast
    then show ?thesis by simp
  qed
  have m: "0 < m" using good unfolding good_orders_def by blast
  have take: ?thesis if "j < n" "gr_queue g j \<noteq> []" "length (gr_busy g j) < m" for j
    using that by (intro exI [of _ "Take j"]) (auto simp: neq_Nil_conv)
  have ex: "\<exists>w\<in>set (L 0). \<exists>j<n. w \<notin> set (gr_done g j)"
  proof -
    obtain w where "w \<in> set (gr_queue g i @ gr_busy g i)" using i(2) by (metis list.set_intros(1) neq_Nil_conv)
    with ok [OF i(1)] sL [OF i(1)] i(1) show ?thesis by (intro bexI [of _ w]) (auto simp: jobs_ok_def)
  qed
  show ?thesis
  proof (cases "\<forall>i<n. L i = L 0")
    case True
    from split_list_first_propE [OF ex] obtain a w b where L: "L 0 = a @ w # b" "\<exists>j<n. w \<notin> set (gr_done g j)"
      "\<forall>v\<in>set a. \<not> (\<exists>j<n. v \<notin> set (gr_done g j))" by metis
    show ?thesis
    proof (cases "\<exists>j<n. w \<in> set (gr_queue g j)")
      case True
      then obtain j where j: "j < n" "w \<in> set (gr_queue g j)" by blast
      have Lj: "L j = a @ w # b" using \<open>\<forall>i<n. L i = L 0\<close> L(1) j(1) by metis
      obtain p where p: "a @ w # b = p @ gr_queue g j" using ok [OF j(1)] Lj unfolding jobs_ok_def by metis
      have "distinct (p @ gr_queue g j)" using good j(1) Lj p unfolding good_orders_def by metis
      with p have pa: "set p \<subseteq> set a" using j(2) by (auto simp: append_eq_append_conv2 Cons_eq_append_conv)
      have "gr_busy g j = []"
      proof (rule ccontr)
        assume "gr_busy g j \<noteq> []"
        then obtain v where v: "v \<in> set (gr_busy g j)" by (metis list.set_intros(1) neq_Nil_conv)
        then have "v \<in> set (L j)" "v \<notin> set (gr_queue g j)" "v \<notin> set (gr_done g j)" using ok [OF j(1)] by (auto simp: jobs_ok_def)
        then have "v \<in> set p" using p Lj by (metis UnE set_append)
        with pa L(3) j(1) \<open>v \<notin> set (gr_done g j)\<close> show False by blast
      qed
      moreover have "gr_queue g j \<noteq> []" using j(2) by auto
      ultimately show ?thesis using take [OF j(1)] m by simp
    next
      case False
      have "\<forall>j<n. w \<in> set (gr_busy g j @ gr_done g j)"
        using False cov [of _ w] L(1) by auto
      moreover obtain k where "k < n" "w \<notin> set (gr_done g k)" using L(2) by blast
      ultimately show ?thesis using taken_progress [OF inv, of w k] by auto
    qed
  next
    case False
    with good have le: "length (L j) \<le> m" if "j < n" for j using that unfolding good_orders_def by blast
    show ?thesis
    proof (cases "\<exists>j<n. gr_queue g j \<noteq> []")
      case True
      then obtain j where j: "j < n" "gr_queue g j \<noteq> []" by blast
      have "length (gr_queue g j @ gr_busy g j @ gr_done g j) = length (L j)"
        using ok [OF j(1)] good j(1) unfolding jobs_ok_def good_orders_def by (metis distinct_card)
      with le [OF j(1)] j(2) have "length (gr_busy g j) < m" by (cases "gr_queue g j") simp_all
      with take j show ?thesis by blast
    next
      case False
      from ex obtain w k where w: "w \<in> set (L 0)" "k < n" "w \<notin> set (gr_done g k)" by blast
      then have "\<forall>j<n. w \<in> set (gr_busy g j @ gr_done g j)" using False cov [of _ w] by auto
      with w show ?thesis using taken_progress [OF inv, of w k] by auto
    qed
  qed
qed

interpretation grm: measured_system "group_exec n m" "\<lambda>_. True" "group_work n" for n m
  by unfold_locales (auto intro: group_work_step)

interpretation gr: draining_system "group_exec n m" "\<lambda>g. group_inv n L g \<and> good_orders n m L" "group_work n" "group_returned n" for n m L
  by unfold_locales (blast intro: group_inv_step group_work_step group_progress)+

lemma group_start_inv: "(\<And>i. i < n \<Longrightarrow> distinct (L i)) \<Longrightarrow> group_inv n L (group_all_reduce L ready)"
  by (simp add: group_inv_def jobs_ok_def group_all_reduce_def)

section \<open>Disjoint beginnings\<close>

text \<open>No job has returned, and the workers of \<open>k\<close> hold a part of its first \<open>m\<close> workspaces.\<close>

definition held :: "nat \<Rightarrow> nat list \<Rightarrow> group \<Rightarrow> nat \<Rightarrow> bool" where
  "held m l g k \<longleftrightarrow> l = rev (gr_busy g k) @ gr_queue g k \<and> length (gr_busy g k) \<le> m \<and> (\<forall>w. gr_entered g k w \<longrightarrow> w \<in> set (gr_busy g k))"

lemma held_first: "held m l g k \<Longrightarrow> set (gr_busy g k) \<subseteq> set (take m l)"
  by (auto simp: held_def)

lemma held_step:
  assumes "held m l g k" and "group_exec n m lb g = Some g'" and "\<And>i w. lb \<noteq> Return i w"
  shows "held m l g' k \<and> gr_done g' = gr_done g"
  using assms by (cases lb) (auto simp: held_def split: list.splits if_splits)

definition stuck_inv :: "nat \<Rightarrow> nat \<Rightarrow> (nat \<Rightarrow> nat list) \<Rightarrow> nat \<Rightarrow> nat \<Rightarrow> group \<Rightarrow> bool" where
  "stuck_inv n m L i j g \<longleftrightarrow> held m (L i) g i \<and> held m (L j) g j \<and> (\<forall>k. gr_done g k = []) \<and>
     (\<forall>k. set (gr_queue g k @ gr_busy g k) = set (L k))"

lemma stuck_step:
  assumes inv: "stuck_inv n m L i j g" and ij: "i < n" "j < n" and dis: "set (take m (L i)) \<inter> set (take m (L j)) = {}"
    and st: "group_exec n m l g = Some g'"
  shows "stuck_inv n m L i j g'"
proof -
  have nr: "l \<noteq> Return k w" for k w
  proof
    assume "l = Return k w"
    with st ij have "gr_entered g i w" "gr_entered g j w" by (auto simp: list_all_iff split: if_splits)
    with inv have "w \<in> set (gr_busy g i)" "w \<in> set (gr_busy g j)" by (auto simp: stuck_inv_def held_def)
    with inv held_first dis show False unfolding stuck_inv_def by blast
  qed
  have "set (gr_queue g' k @ gr_busy g' k) = set (gr_queue g k @ gr_busy g k)" for k
    using st nr by (cases l) (auto split: list.splits if_splits)
  moreover have "held m (L i) g' i" "held m (L j) g' j" "gr_done g' = gr_done g"
    using held_step [OF _ st nr] inv unfolding stuck_inv_def by blast+
  ultimately show ?thesis using inv by (simp add: stuck_inv_def)
qed

section \<open>Properties\<close>





end
