(* ===== verification/Tcp.thy ===== *)
theory Tcp
  imports Address
begin

text \<open>
  The plain socket layer: \<open>include/stdml/bits/collective/net/tcp.hpp\<close> and
  \<open>src/stdml/collective/net/old/\<close> (\<open>tcp_socket.cpp\<close>, \<open>inet_addr.cpp\<close>, \<open>tcp_server.cpp\<close>,
  \<open>tcp_client.cpp\<close> and the retry and accept loops of \<open>rchan.cpp\<close>). System calls are arguments: the
  results of successive calls of \<open>recv\<close>, \<open>accept\<close> and \<open>connect\<close>, the first two each with the value of
  the \<open>stopped\<close> flag read just before it; \<open>None\<close> as a result says that the loop is still running when
  the given results are used up. The lemmas show that both ways the program packs an address agree,
  what \<open>recv_all\<close> returns for every sequence of results, and what the accepting loops hand out.
\<close>

unbundle bit_operations_syntax

section \<open>Addresses\<close>

definition tcp_pack :: "byte \<Rightarrow> byte \<Rightarrow> byte \<Rightarrow> byte \<Rightarrow> u32" where
  "tcp_pack a b c d = push_bit 24 (ucast a) OR push_bit 16 (ucast b) OR push_bit 8 (ucast c) OR ucast d"

definition tcp_unpack :: "u32 \<Rightarrow> nat \<times> nat \<times> nat \<times> nat" where
  "tcp_unpack n = (unat (drop_bit 24 n), unat (drop_bit 16 n AND 0xff), unat (drop_bit 8 n AND 0xff), unat (n AND 0xff))"

definition any_addr :: u32 where
  "any_addr = tcp_pack 0 0 0 0"

definition localhost :: u32 where
  "localhost = tcp_pack 127 0 0 1"

text \<open>\<open>InetAddr\<close>: the text given to \<open>inet_pton\<close>, or nothing for the wildcard address.\<close>

definition inet_text :: "u32 \<Rightarrow> string option" where
  "inet_text host =
     (if host = 0 then None
      else (let (a, b, c, d) = tcp_unpack host in
        Some (to_string a @ ''.'' @ to_string b @ ''.'' @ to_string c @ ''.'' @ to_string d)))"

text \<open>\<open>_check\<close>: any code but zero ends the process.\<close>

definition check :: "int \<Rightarrow> unit res" where
  "check rc = (if rc \<noteq> 0 then Inl (Exit 1) else Inr ())"

section \<open>Receiving and sending\<close>

text \<open>
  A call of \<open>::recv\<close> returns bytes, or nothing together with a value of \<open>errno\<close>. A socket is the list of
  the results to come; bytes that were not asked for stay for the next call, and a flag that is set
  stays set.
\<close>

datatype recv_result = Bytes "byte list" | Nothing nat

type_synonym socket = "(bool \<times> recv_result) list"

fun recv_all :: "nat \<Rightarrow> socket \<Rightarrow> (byte list \<times> socket) option" where
  "recv_all 0 rs = Some ([], rs)"
| "recv_all (Suc n) [] = None"
| "recv_all (Suc n) ((stopped, r) # rs) =
     (if stopped then Some ([], (stopped, r) # rs)
      else (case r of
          Nothing e \<Rightarrow> if e = 35 then recv_all (Suc n) rs else Some ([], rs)
        | Bytes bs \<Rightarrow>
            if bs = [] then Some ([], rs)
            else if length bs \<le> Suc n then map_option (\<lambda>(cs, rs'). (bs @ cs, rs')) (recv_all (Suc n - length bs) rs)
            else Some (take (Suc n) bs, (stopped, Bytes (drop (Suc n) bs)) # rs)))"

text \<open>Sizes are compared after a conversion to \<open>int\<close>; the bytes received are counted in an \<open>int\<close>.\<close>

definition as_int :: "nat \<Rightarrow> int" where
  "as_int n = sint (word_of_nat n :: 32 word)"

definition tcp_recv :: "nat \<Rightarrow> socket \<Rightarrow> (byte list \<times> socket) res option" where
  "tcp_recv n rs = map_option (\<lambda>(bs, rs'). if 2 ^ 31 \<le> length bs then Inl (Undefined_behaviour ''signed overflow'')
     else if as_int (length bs) = as_int n then Inr (bs, rs')
     else Inl (Exception (''TcpSocket::recv partially: '' @ to_string n))) (recv_all n rs)"

text \<open>The overload with an error code: the bytes received and whether the code is set.\<close>

definition tcp_recv_ec :: "nat \<Rightarrow> socket \<Rightarrow> (byte list \<times> bool \<times> socket) option" where
  "tcp_recv_ec n rs = map_option (\<lambda>(bs, rs'). (bs, as_int (length bs) \<noteq> as_int n, rs')) (recv_all n rs)"

text \<open>Sending \<open>n\<close> bytes when \<open>::send\<close> returns \<open>sent\<close>.\<close>

definition tcp_send :: "nat \<Rightarrow> int \<Rightarrow> int res" where
  "tcp_send n sent = (if sent \<noteq> as_int n then Inl (Exception (''TcpSocket::send partially: '' @ to_string n)) else Inr sent)"

definition client_write :: "nat \<Rightarrow> int \<Rightarrow> unit res" where
  "client_write n sent =
     (if sent \<noteq> as_int n then Inl (Exception ''TcpClient::write: only partial data sent'') else Inr ())"

section \<open>Connecting\<close>

text \<open>
  \<open>TcpClient::dial\<close> with the pointer \<open>ret\<close> (\<open>None\<close> is the null pointer, its default) and the result
  of \<open>connect\<close>: the value the pointer has afterwards.
\<close>

definition client_dial :: "int option \<Rightarrow> int \<Rightarrow> int option res" where
  "client_dial ret rc =
     (case ret of
        None \<Rightarrow> Inl (Undefined_behaviour ''dereferencing a null pointer'')
      | Some r \<Rightarrow> if r \<noteq> 0 then Inr (Some rc) else res_map (\<lambda>_. Some r) (check rc))"

text \<open>\<open>TcpClient::Talk\<close> dials, sends and returns as many bytes as \<open>::send\<close> reported, whatever was received.\<close>

definition client_talk :: "int \<Rightarrow> nat \<Rightarrow> byte list \<Rightarrow> byte list res" where
  "client_talk rc sent received =
     res_map (\<lambda>_. take sent received @ replicate (sent - length received) 0) (client_dial None rc)"

text \<open>\<open>wait_connect\<close>: the number of retries until \<open>connect\<close> returns zero.\<close>

fun wait_connect :: "nat \<Rightarrow> int list \<Rightarrow> nat option" where
  "wait_connect i [] = None"
| "wait_connect i (rc # rcs) = (if rc = 0 then Some i else wait_connect (i + 1) rcs)"

section \<open>Accepting\<close>

datatype accept_result = Fd nat | Would_block | Accept_error

text \<open>
  \<open>wait_accept\<close> with the results it leaves for later calls: \<open>Inr None\<close> is the null pointer it returns
  after \<open>stop\<close>.
\<close>

fun wait_accept :: "(bool \<times> accept_result) list \<Rightarrow> (nat option \<times> (bool \<times> accept_result) list) res option" where
  "wait_accept [] = None"
| "wait_accept ((stopped, r) # rs) =
     (if stopped then Some (Inr (None, rs))
      else (case r of
          Fd fd \<Rightarrow> Some (Inr (Some fd, rs))
        | Would_block \<Rightarrow> wait_accept rs
        | Accept_error \<Rightarrow> Some (Inl (Exception ''accept failed''))))"

lemma wait_accept_shorter: "wait_accept rs = Some (Inr (x, rs')) \<Longrightarrow> length rs' < length rs"
  by (induction rs rule: wait_accept.induct) (auto split: if_splits accept_result.splits)

text \<open>The accepting loop of the server: the sockets it hands to handler threads until it is stopped.\<close>

function serve_loop :: "(bool \<times> accept_result) list \<Rightarrow> nat list res option" where
  "serve_loop rs =
     (case wait_accept rs of
        None \<Rightarrow> None
      | Some (Inl e) \<Rightarrow> Some (Inl e)
      | Some (Inr (None, _)) \<Rightarrow> Some (Inr [])
      | Some (Inr (Some fd, rs')) \<Rightarrow> map_option (res_map ((#) fd)) (serve_loop rs'))"
  by pat_completeness auto
termination by (relation "measure length") (auto dest: wait_accept_shorter)

declare serve_loop.simps [simp del]

text \<open>\<open>TcpServer::serve\<close>: the sockets handed to the handler; errors of \<open>accept\<close> are ignored.\<close>

fun tcp_serve :: "(bool \<times> accept_result) list \<Rightarrow> nat list option" where
  "tcp_serve [] = None"
| "tcp_serve ((stopped, r) # rs) =
     (if stopped then Some []
      else (case r of
          Fd fd \<Rightarrow> map_option ((#) fd) (tcp_serve rs)
        | _ \<Rightarrow> tcp_serve rs))"

section \<open>Lemmas\<close>

lemma unat_tcp_pack: "unat (tcp_pack a b c d) = unat d + 256 * unat c + 65536 * unat b + 16777216 * unat a"
proof -
  let ?a = "push_bit 24 (ucast a :: u32)" and ?b = "push_bit 16 (ucast b :: u32)" and ?c = "push_bit 8 (ucast c :: u32)"
  let ?n = "unat d + 256 * unat c + 65536 * unat b + 16777216 * unat a"
  have dis: "?c AND ucast d = 0" "?b AND (?c OR ucast d) = 0" "?a AND (?b OR (?c OR ucast d)) = 0"
    by (rule bit_eqI, auto simp: bit_simps dest: bit_imp_le_length)+
  have "tcp_pack a b c d = ?a OR (?b OR (?c OR ucast d))"
    by (simp add: tcp_pack_def or.assoc)
  also have "\<dots> = ?a + (?b + (?c + ucast d))"
    by (simp only: disjunctive_add_eq_or [OF dis(1)] disjunctive_add_eq_or [OF dis(2)] disjunctive_add_eq_or [OF dis(3)])
  also have "\<dots> = word_of_nat ?n"
    by (simp add: push_bit_eq_mult)
  finally have "unat (tcp_pack a b c d) = ?n mod 2 ^ 32" by (simp only: unat_of_nat) simp
  also have "\<dots> = ?n"
    using unat_byte_less [of a] unat_byte_less [of b] unat_byte_less [of c] unat_byte_less [of d] by simp
  finally show ?thesis .
qed

text \<open>What the calls of \<open>recv\<close> deliver until one of them says to stop.\<close>

fun delivered :: "(bool \<times> recv_result) list \<Rightarrow> byte list" where
  "delivered [] = []"
| "delivered ((stopped, r) # rs) =
     (if stopped then []
      else (case r of
          Nothing e \<Rightarrow> if e = 35 then delivered rs else []
        | Bytes bs \<Rightarrow> if bs = [] then [] else bs @ delivered rs))"

text \<open>Whether one of the results ends the loop: a stop, the end of the connection or an error.\<close>

fun ended :: "(bool \<times> recv_result) list \<Rightarrow> bool" where
  "ended [] = False"
| "ended ((stopped, r) # rs) =
     (stopped \<or> (case r of Nothing e \<Rightarrow> e \<noteq> 35 \<or> ended rs | Bytes bs \<Rightarrow> bs = [] \<or> ended rs))"

lemma recv_all_enough:
  "n \<le> length (delivered rs) \<Longrightarrow>
    \<exists>rs'. recv_all n rs = Some (take n (delivered rs), rs') \<and> delivered rs' = drop n (delivered rs) \<and> (ended rs' \<longleftrightarrow> ended rs)"
proof (induction n rs rule: recv_all.induct)
  case (3 n stopped r rs)
  show ?case
  proof (cases r)
    case (Bytes b)
    from 3(3) Bytes have nb: "\<not> stopped" "b \<noteq> []" by (auto split: if_splits)
    show ?thesis
    proof (cases "length b \<le> Suc n")
      case True
      from 3(3) Bytes nb have "Suc n - length b \<le> length (delivered rs)" by (simp add: le_diff_conv2 add.commute)
      from 3(1) [OF nb(1) Bytes nb(2) True this] obtain rs' where
        "recv_all (Suc n - length b) rs = Some (take (Suc n - length b) (delivered rs), rs')"
        "delivered rs' = drop (Suc n - length b) (delivered rs)" "ended rs' \<longleftrightarrow> ended rs" by blast
      with True nb Bytes show ?thesis by (simp del: diff_Suc_Suc)
    qed (use nb Bytes in simp)
  qed (use 3 in \<open>auto split: if_splits\<close>)
qed auto

lemma recv_all_short:
  "length (delivered rs) < n \<Longrightarrow> if ended rs then \<exists>rs'. recv_all n rs = Some (delivered rs, rs') else recv_all n rs = None"
proof (induction n rs rule: recv_all.induct)
  case (3 n stopped r rs)
  show ?case
  proof (cases "stopped \<or> r = Bytes [] \<or> (\<exists>e. r = Nothing e)")
    case True
    with 3 show ?thesis by (auto split: recv_result.splits if_splits)
  next
    case False
    then obtain b where b: "r = Bytes b" "b \<noteq> []" "\<not> stopped" by (cases r) auto
    with 3(3) have l: "length b \<le> Suc n" "length (delivered rs) < Suc n - length b" by auto
    from 3(1) [OF b(3,1,2) l] b l(1) show ?thesis by (auto simp del: diff_Suc_Suc split: if_splits)
  qed
qed simp_all

lemma as_int_inj: "n < 2 ^ 31 \<Longrightarrow> m < 2 ^ 31 \<Longrightarrow> as_int m = as_int n \<longleftrightarrow> m = n"
proof -
  assume a: "n < 2 ^ 31" "m < 2 ^ 31"
  have u: "unat (word_of_nat k :: 32 word) = k" if "k < 2 ^ 31" for k
    using that by (simp only: unat_of_nat) simp
  have "as_int m = as_int n \<longleftrightarrow> (word_of_nat m :: 32 word) = word_of_nat n"
    unfolding as_int_def by (auto dest: signed_word_eqI)
  with u [OF a(1)] u [OF a(2)] show ?thesis by metis
qed

lemma tcp_pack_eq: "tcp_pack a b c d = pack a b c d"
  by (rule word_unat_eq_iff [THEN iffD2]) (simp add: unat_tcp_pack unat_pack)

lemma tcp_unpack_pack: "tcp_unpack (tcp_pack a b c d) = (unat a, unat b, unat c, unat d)"
proof -
  have m: "unat (w AND 0xff) = unat w mod 256" for w :: u32
  proof -
    have "w AND 0xff = take_bit 8 w" by (simp add: take_bit_eq_mask mask_eq_decr_exp)
    then show ?thesis by (simp only: unsigned_take_bit_eq) (simp add: take_bit_eq_mod)
  qed
  have byte: "(unat x + 256 * k) div 256 = k" "(unat x + 256 * k) mod 256 = unat x" "unat x mod 256 = unat x" for x :: byte and k
    using unat_byte_less [of x] by simp_all
  let ?n = "unat d + 256 * unat c + 65536 * unat b + 16777216 * unat a"
  have "tcp_unpack (tcp_pack a b c d) = (?n div 2 ^ 24, ?n div 2 ^ 16 mod 256, ?n div 2 ^ 8 mod 256, ?n mod 256)"
    by (simp only: tcp_unpack_def m unat_drop_bit_eq unat_tcp_pack drop_bit_nat_def)
  also have "\<dots> = (?n div 256 div 256 div 256, ?n div 256 div 256 mod 256, ?n div 256 mod 256, ?n mod 256)"
    by (simp add: div_mult2_eq [symmetric])
  also have "?n = unat d + 256 * (unat c + 256 * (unat b + 256 * unat a))" by simp
  finally show ?thesis by (simp only: byte)
qed

text \<open>Both modules that pack four bytes into an address agree, and the text given to the system
  for an address is its host name.\<close>

theorem inet_text_hostname:
  "tcp_pack a b c d = pack a b c d \<and>
   inet_text h = (if h = any_addr then None else Some (hostname \<lparr>ipv4 = h, port = p\<rparr>))"
proof -
  obtain a b c d where u: "unpack h = (a, b, c, d)" by (metis prod_cases4)
  then have "h = tcp_pack a b c d" by (simp add: tcp_pack_eq pack_unpack_eq)
  then have "tcp_unpack h = (unat a, unat b, unat c, unat d)" by (simp add: tcp_unpack_pack)
  moreover have "any_addr = 0" by (simp add: any_addr_def tcp_pack_def)
  ultimately show ?thesis using u by (simp add: inet_text_def hostname_def tcp_pack_eq)
qed

text \<open>For sizes below 2 GiB \<open>recv\<close> returns exactly the first \<open>n\<close> bytes that arrive before a stop,
  an error or the end of the connection, throws when there are fewer, and otherwise waits.\<close>

theorem tcp_recv_exact:
  assumes "n < 2 ^ 31"
  shows "if n \<le> length (delivered rs)
    then \<exists>rs'. tcp_recv n rs = Some (Inr (take n (delivered rs), rs')) \<and> delivered rs' = drop n (delivered rs) \<and> (ended rs' \<longleftrightarrow> ended rs)
    else tcp_recv n rs = (if ended rs then Some (Inl (Exception (''TcpSocket::recv partially: '' @ to_string n))) else None)"
proof (cases "n \<le> length (delivered rs)")
  case True
  from recv_all_enough [OF this] obtain rs' where
    "recv_all n rs = Some (take n (delivered rs), rs')" "delivered rs' = drop n (delivered rs)" "ended rs' \<longleftrightarrow> ended rs" by blast
  with True assms show ?thesis by (simp add: tcp_recv_def)
next
  case False
  then have l: "length (delivered rs) < n" by simp
  with assms have "\<not> 2 ^ 31 \<le> length (delivered rs)" "as_int (length (delivered rs)) \<noteq> as_int n"
    using as_int_inj [OF assms, of "length (delivered rs)"] by auto
  with recv_all_short [OF l] False show ?thesis
    by (cases "ended rs") (auto simp: tcp_recv_def intro: exI [of _ "delivered rs"])
qed

text \<open>\<open>Talk\<close> never gets past its own call of \<open>dial\<close>, which dereferences the null pointer that is the
  default value of its parameter.\<close>

theorem client_talk_undefined:
  "client_talk rc sent received = Inl (Undefined_behaviour ''dereferencing a null pointer'')"
  by (simp add: client_talk_def client_dial_def)

lemma serve_loop_Nil: "serve_loop [] = None"
  by (simp add: serve_loop.simps)

lemma serve_loop_Cons: "serve_loop ((stopped, r) # rs) =
     (if stopped then Some (Inr [])
      else (case r of
          Fd fd \<Rightarrow> map_option (res_map ((#) fd)) (serve_loop rs)
        | Would_block \<Rightarrow> serve_loop rs
        | Accept_error \<Rightarrow> Some (Inl (Exception ''accept failed''))))"
  by (subst serve_loop.simps) (simp add: serve_loop.simps [symmetric] split: accept_result.splits)

text \<open>The accepting loop of the server hands every accepted socket, in order, to one handler thread
  until it is stopped; the loop of \<open>TcpServer::serve\<close> does the same as long as no call of \<open>accept\<close> fails.\<close>

theorem serve_loop_hands_out:
  assumes "\<forall>(s, r) \<in> set (takeWhile (\<lambda>(s, r). \<not> s) rs). r \<noteq> Accept_error"
  shows "serve_loop rs = map_option Inr (tcp_serve rs) \<and>
    tcp_serve rs = (if True \<in> fst ` set rs
      then Some (concat (map (\<lambda>(s, r). case r of Fd fd \<Rightarrow> [fd] | _ \<Rightarrow> []) (takeWhile (\<lambda>(s, r). \<not> s) rs))) else None)"
  using assms
proof (induction rs rule: tcp_serve.induct)
  case 1
  show ?case by (simp add: serve_loop_Nil)
next
  case (2 stopped r rs)
  then show ?case
    by (cases stopped; cases r) (auto simp: serve_loop_Cons option.map_comp comp_def)
qed

theorem tcp_recv_exact_witness:
  "\<exists>rs'. tcp_recv 3 [(False, Bytes [1, 2]), (False, Nothing 35), (False, Bytes [3, 4])] = Some (Inr ([1, 2, 3], rs')) \<and> delivered rs' = [4]"
  using tcp_recv_exact [of 3 "[(False, Bytes [1, 2]), (False, Nothing 35), (False, Bytes [3, 4])]"] by auto

theorem serve_loop_hands_out_witness:
  "(let rs = [(False, Fd 4), (False, Would_block), (False, Fd 5), (True, Fd 6)] in
    serve_loop rs = map_option Inr (tcp_serve rs) \<and>
    tcp_serve rs = (if True \<in> fst ` set rs
      then Some (concat (map (\<lambda>(s, r). case r of Fd fd \<Rightarrow> [fd] | _ \<Rightarrow> []) (takeWhile (\<lambda>(s, r). \<not> s) rs))) else None))"
  unfolding Let_def by (rule serve_loop_hands_out) simp

end
