(* ===== verification/Plain_Channel.thy ===== *)
theory Plain_Channel
  imports Tcp Wire
begin

text \<open>
  Connections over the plain sockets of \<open>Tcp\<close>: \<open>src/stdml/collective/net/old/rchan.cpp\<close>, the second
  implementation of the classes \<open>message_reader\<close>, \<open>connection\<close> and \<open>server\<close>. Its reader satisfies the
  same contract as that of \<open>Wire\<close>, for messages below 2 GiB, so both give the same deliveries for the
  same bytes; the writer produces the same bytes as long as the system takes them in one call. The
  thread that handles a connection reads its socket once more after the connection has been destroyed.
\<close>

section \<open>Reading\<close>

definition plain_read_header :: "socket \<Rightarrow> (received_header \<times> socket) option res option" where
  "plain_read_header s =
     (case tcp_recv_ec 4 s of
        None \<Rightarrow> None
      | Some (bs, ec, s1) \<Rightarrow>
          if ec then Some (Inr None)
          else map_option (\<lambda>r. res_bind r (\<lambda>(buf, s2). res_map (\<lambda>h. Some (h, s2)) (parse_header (le_dec bs) buf)))
            (tcp_recv ((le_dec bs + 8) mod 2 ^ 32) s1))"

definition plain_read_body :: "received_header \<Rightarrow> socket \<Rightarrow> (byte list \<times> socket) res option" where
  "plain_read_body h s = tcp_recv (h_len h) s"

definition socket_reader :: "socket message_reader" where
  "socket_reader = \<lparr>rd_header = plain_read_header, rd_body = plain_read_body\<rparr>"

section \<open>Writing\<close>

text \<open>
  \<open>connection_impl::send\<close> with the results of the two calls of \<open>::send\<close>: the bytes the system has taken,
  and whether the operation returns.
\<close>

definition plain_send :: "string \<Rightarrow> byte list \<Rightarrow> u32 \<Rightarrow> int \<Rightarrow> int \<Rightarrow> byte list \<times> unit res" where
  "plain_send name data flags r1 r2 =
     (let hd = header_bytes name (length data) flags; len = length data mod 2 ^ 32 in
      case tcp_send (length hd) r1 of
        Inl e \<Rightarrow> (take (nat r1) hd, Inl e)
      | Inr _ \<Rightarrow> (take (nat r1) hd @ take (nat r2) (take len data), res_map (\<lambda>_. ()) (tcp_send len r2)))"

section \<open>Opening a connection\<close>

definition plain_upgrade_to :: "conn_type \<Rightarrow> peer_id \<Rightarrow> int \<Rightarrow> socket \<Rightarrow> (byte list \<times> socket) res option" where
  "plain_upgrade_to t self r s =
     (case tcp_send 8 r of
        Inl e \<Rightarrow> Some (Inl e)
      | Inr _ \<Rightarrow> map_option (res_map (\<lambda>(ack, s'). (enc_conn_header (upgrade_to_header t self), s'))) (tcp_recv 4 s))"

definition plain_upgrade_from :: "int \<Rightarrow> socket \<Rightarrow> (conn \<times> byte list \<times> socket) res option" where
  "plain_upgrade_from r s = map_option (\<lambda>x. res_bind x (\<lambda>(bs, s').
     (let h = dec_conn_header bs in
      res_map (\<lambda>_. (\<lparr>c_type = ch_type h, c_src = \<lparr>ipv4 = ch_src_ipv4 h, port = ch_src_port h\<rparr>\<rparr>, le_enc 4 0, s')) (tcp_send 4 r))))
     (tcp_recv 8 s)"

text \<open>
  The constructor for a remote peer: the results of \<open>connect\<close>, of \<open>::send\<close> and of \<open>::recv\<close>. Every failed
  attempt opens a new socket, so that the results of \<open>::recv\<close> are those of the last one.
\<close>

definition plain_dial :: "conn_type \<Rightarrow> peer_id \<Rightarrow> int list \<Rightarrow> int \<Rightarrow> socket \<Rightarrow> (byte list \<times> socket) res option" where
  "plain_dial t self connects r s = Option.bind (wait_connect 0 connects) (\<lambda>_. plain_upgrade_to t self r s)"

text \<open>
  The thread of an accepted connection. The connection owns the socket and is destroyed with the call of
  the handler; the last line of the thread asks the socket for its file descriptor.
\<close>

definition plain_serve_conn :: "(u16 \<Rightarrow> (socket, 's) handler option) \<Rightarrow> int \<Rightarrow> socket \<Rightarrow> 's \<Rightarrow> 's res option" where
  "plain_serve_conn handlers r s st =
     (case plain_upgrade_from r s of
        None \<Rightarrow> None
      | Some (Inl e) \<Rightarrow> Some (Inl e)
      | Some (Inr (c, ack, s')) \<Rightarrow>
          map_option (\<lambda>x. res_bind x (\<lambda>_. Inl (Undefined_behaviour ''socket used after it was freed'')))
            (handle_conn socket_reader handlers c s' st))"

section \<open>Lemmas\<close>

definition plain_sendable :: "string \<times> byte list \<times> u32 \<Rightarrow> bool" where
  "plain_sendable m \<longleftrightarrow> (case m of (name, data, flags) \<Rightarrow>
     CHR 0x00 \<notin> set name \<and> length name + 8 < 2 ^ 31 \<and> length data < 2 ^ 31)"

lemma tcp_recv_enough:
  assumes "n < 2 ^ 31" and "n \<le> length (delivered s)"
  shows "\<exists>s'. tcp_recv n s = Some (Inr (take n (delivered s), s')) \<and> delivered s' = drop n (delivered s) \<and> (ended s' \<longleftrightarrow> ended s)"
  using tcp_recv_exact [OF assms(1), of s] assms(2) by simp

lemma tcp_recv_ec_enough:
  assumes "n < 2 ^ 31" and "n \<le> length (delivered s)"
  shows "\<exists>s'. tcp_recv_ec n s = Some (take n (delivered s), False, s') \<and> delivered s' = drop n (delivered s) \<and> (ended s' \<longleftrightarrow> ended s)"
  using recv_all_enough [OF assms(2)] assms by (auto simp: tcp_recv_ec_def)

lemma plain_read_header_send:
  assumes "plain_sendable (name, data, flags)" and "ended s" and "delivered s = send_bytes name data flags @ rest"
  shows "\<exists>s'. plain_read_header s = Some (Inr (Some (\<lparr>h_name_len = length name, h_name = name, h_flags = flags, h_len = length data\<rparr>, s'))) \<and>
    delivered s' = data @ rest \<and> ended s'"
proof -
  let ?n = "length name" and ?nb = "bytes_of_string name"
  have lim: "?n + 8 < 2 ^ 31" "length data < 2 ^ 31" "strlen name = ?n"
    using assms(1) strlen_no_nul by (auto simp: plain_sendable_def)
  have c: "delivered s = le_enc 4 ?n @ ?nb @ le_enc 4 (unat flags) @ le_enc 4 (length data) @ data @ rest"
    using lim assms(3) by (simp add: send_bytes_def header_bytes_def Let_def)
  obtain s1 where s1: "tcp_recv_ec 4 s = Some (le_enc 4 ?n, False, s1)" "ended s1"
      "delivered s1 = ?nb @ le_enc 4 (unat flags) @ le_enc 4 (length data) @ data @ rest"
    using tcp_recv_ec_enough [of 4 s] c assms(2) by auto
  obtain s2 where s2: "tcp_recv (?n + 8) s1 = Some (Inr (?nb @ le_enc 4 (unat flags) @ le_enc 4 (length data), s2))"
      "ended s2" "delivered s2 = data @ rest"
    using tcp_recv_enough [of "?n + 8" s1] s1(2,3) lim(1) by auto
  have n: "le_dec (le_enc 4 ?n) = ?n" "le_dec (le_enc 4 (length data)) = length data"
    using lim by (simp_all add: le_dec_enc)
  have f: "word_of_nat (le_dec (le_enc 4 (unat flags))) = flags"
    using unsigned_less [of flags, where ?'a = nat] by (simp add: le_dec_enc)
  have "plain_read_header s = Some (Inr (Some (\<lparr>h_name_len = ?n, h_name = name, h_flags = flags, h_len = length data\<rparr>, s2)))"
    using s1(1) s2(1) lim(1) n f by (simp add: plain_read_header_def parse_header_def)
  with s2 show ?thesis by blast
qed

lemma plain_header_end:
  assumes "ended s" and "delivered s = []"
  shows "plain_read_header s = Some (Inr None)"
proof -
  obtain s' where "recv_all 4 s = Some ([], s')" using recv_all_short [of s 4] assms by auto
  then show ?thesis using as_int_inj [of 4 0] by (simp add: plain_read_header_def tcp_recv_ec_def)
qed

interpretation pr: message_channel socket_reader delivered ended plain_sendable
proof
  fix name data flags s rest and h :: received_header
  show "plain_sendable (name, data, flags) \<Longrightarrow> ended s \<Longrightarrow> delivered s = send_bytes name data flags @ rest \<Longrightarrow>
      \<exists>s'. rd_header socket_reader s = Some (Inr (Some (\<lparr>h_name_len = length name, h_name = name, h_flags = flags, h_len = length data\<rparr>, s'))) \<and>
        delivered s' = data @ rest \<and> ended s'"
    using plain_read_header_send by (simp add: socket_reader_def)
  show "plain_sendable (name, data, flags) \<Longrightarrow> ended s \<Longrightarrow> delivered s = data @ rest \<Longrightarrow> h_len h = length data \<Longrightarrow>
      \<exists>s'. rd_body socket_reader h s = Some (Inr (data, s')) \<and> delivered s' = rest \<and> ended s'"
    using tcp_recv_enough [of "length data" s] by (auto simp: socket_reader_def plain_read_body_def plain_sendable_def)
  show "ended s \<Longrightarrow> delivered s = [] \<Longrightarrow> rd_header socket_reader s = Some (Inr None)"
    using plain_header_end by (simp add: socket_reader_def)
qed

text \<open>The two readers on the same bytes.\<close>

definition same_bytes :: "socket \<Rightarrow> stream \<Rightarrow> bool" where
  "same_bytes s t \<longleftrightarrow> ended s \<and> pieces t \<and> delivered s = concat t"

lemma same_bytes_exact:
  assumes "same_bytes s t" and "n < 2 ^ 31"
  shows "(\<exists>bs s' t'. tcp_recv n s = Some (Inr (bs, s')) \<and> io_exact n t = Inr (bs, t') \<and> same_bytes s' t') \<or>
    (\<exists>e. tcp_recv n s = Some (Inl e) \<and> io_exact n t = Inl unexpected_eof)"
proof (cases "n \<le> length (delivered s)")
  case True
  with tcp_recv_enough [OF assms(2) True] io_exact_Inr [of t n] assms(1) show ?thesis
    by (auto simp: same_bytes_def)
next
  case False
  with tcp_recv_exact [OF assms(2), of s] io_exact_Inl [of t n] assms(1) show ?thesis by (auto simp: same_bytes_def)
qed

lemma same_bytes_ec:
  assumes "same_bytes s t" and "n < 2 ^ 31"
  shows "(\<exists>bs s' t'. tcp_recv_ec n s = Some (bs, False, s') \<and> read_ec n t = Some (bs, t') \<and> same_bytes s' t' \<and> bs = take n (concat t)) \<or>
    (\<exists>bs s'. tcp_recv_ec n s = Some (bs, True, s') \<and> read_ec n t = None)"
proof (cases "n \<le> length (delivered s)")
  case True
  with tcp_recv_ec_enough [OF assms(2) True] io_exact_Inr [of t n] assms(1) show ?thesis
    by (auto simp: same_bytes_def read_ec_io_exact)
next
  case False
  then have l: "length (delivered s) < n" by simp
  with recv_all_short [OF l] as_int_inj [OF assms(2), of "length (delivered s)"] io_exact_Inl [of t n] assms show ?thesis
    by (auto simp: same_bytes_def read_ec_io_exact tcp_recv_ec_def)
qed

lemma plain_header_agrees:
  assumes "same_bytes s t" and "le_dec (take 4 (concat t)) + 8 < 2 ^ 31"
  shows "case read_header t of
      Inr None \<Rightarrow> plain_read_header s = Some (Inr None)
    | Inr (Some (h, t')) \<Rightarrow> \<exists>s'. plain_read_header s = Some (Inr (Some (h, s'))) \<and> same_bytes s' t'
    | Inl e \<Rightarrow> \<exists>e'. plain_read_header s = Some (Inl e')"
  using same_bytes_ec [OF assms(1), of 4, simplified]
proof (elim disjE exE conjE)
  fix bs s1 t1
  assume h: "tcp_recv_ec 4 s = Some (bs, False, s1)" "read_ec 4 t = Some (bs, t1)" "same_bytes s1 t1" "bs = take 4 (concat t)"
  with assms(2) have n: "le_dec bs + 8 < 2 ^ 31" by simp
  from same_bytes_exact [OF h(3) this] show ?thesis
    using h(1,2) n by (auto simp: read_header_def plain_read_header_def parse_header_def)
qed (simp_all add: read_header_def plain_read_header_def)

lemma plain_body_agrees:
  assumes "same_bytes s t" and "h_len h < 2 ^ 31"
  shows "case read_body h t of
      Inr (b, t') \<Rightarrow> \<exists>s'. plain_read_body h s = Some (Inr (b, s')) \<and> same_bytes s' t'
    | Inl e \<Rightarrow> \<exists>e'. plain_read_body h s = Some (Inl e')"
  using same_bytes_exact [OF assms] by (auto simp: read_body_def plain_read_body_def)

lemma plain_send_returns:
  assumes "length (header_bytes name (length data) flags) < 2 ^ 31" and "length data < 2 ^ 31"
  shows "snd (plain_send name data flags r1 r2) = Inr () \<longleftrightarrow> r1 = int (length (header_bytes name (length data) flags)) \<and> r2 = int (length data)"
    and "snd (plain_send name data flags r1 r2) = Inr () \<Longrightarrow> fst (plain_send name data flags r1 r2) = send_bytes name data flags"
proof -
  have i: "as_int n = int n" if "n < 2 ^ 31" for n
    using that by (simp add: as_int_def sint_uint signed_take_bit_int_eq_self uint_nat unat_of_nat)
  show 1: "snd (plain_send name data flags r1 r2) = Inr () \<longleftrightarrow> r1 = int (length (header_bytes name (length data) flags)) \<and> r2 = int (length data)"
    using assms by (auto simp: plain_send_def Let_def tcp_send_def i)
  assume "snd (plain_send name data flags r1 r2) = Inr ()"
  with 1 have "r1 = int (length (header_bytes name (length data) flags))" "r2 = int (length data)" by simp_all
  with assms show "fst (plain_send name data flags r1 r2) = send_bytes name data flags"
    by (simp add: plain_send_def Let_def tcp_send_def i send_bytes_def)
qed

lemma handle_collective:
  "handle_conn rd (new_collective_handlers rd deliver) \<lparr>c_type = word_of_nat (conn_type_value conn_collective), c_src = p\<rparr> i st =
    handle_to_end rd (collective_handler rd deliver) i st"
  by (simp add: handle_conn_def new_collective_handlers_def)

lemma plain_upgrade_agrees:
  assumes "same_bytes s t" and "upgrade_from t = Inr (c, ack, t')"
  shows "\<exists>s'. plain_upgrade_from 4 s = Some (Inr (c, ack, s')) \<and> same_bytes s' t'"
proof -
  have "tcp_send 4 4 = Inr 4" by (simp add: tcp_send_def as_int_def)
  moreover obtain bs where "io_exact 8 t = Inr (bs, t')" using assms(2) by (auto simp: upgrade_from_def Let_def res_map_eq_Inr)
  ultimately show ?thesis
    using same_bytes_exact [OF assms(1), of 8] assms(2) by (auto simp: plain_upgrade_from_def upgrade_from_def Let_def)
qed

section \<open>Properties\<close>

text \<open>C31: The readers of both networking layers agree on all bytes, whatever the pieces in which they arrive:
  for headers and bodies below 2 GiB they return the same headers and bodies and go on with the same
  bytes, both report the end of the connection, and both throw when it is inside a message.\<close>

theorem plain_reader_agrees:
  assumes "same_bytes s t"
  shows "(le_dec (take 4 (concat t)) + 8 < 2 ^ 31 \<longrightarrow> (case read_header t of
      Inr None \<Rightarrow> plain_read_header s = Some (Inr None)
    | Inr (Some (h, t')) \<Rightarrow> \<exists>s'. plain_read_header s = Some (Inr (Some (h, s'))) \<and> same_bytes s' t'
    | Inl e \<Rightarrow> \<exists>e'. plain_read_header s = Some (Inl e'))) \<and>
    (h_len h < 2 ^ 31 \<longrightarrow> (case read_body h t of
      Inr (b, t') \<Rightarrow> \<exists>s'. plain_read_body h s = Some (Inr (b, s')) \<and> same_bytes s' t'
    | Inl e \<Rightarrow> \<exists>e'. plain_read_body h s = Some (Inl e')))"
  using plain_header_agrees [OF assms] plain_body_agrees [OF assms] by blast

theorem plain_reader_agrees_witness:
  "\<exists>s'. plain_read_body \<lparr>h_name_len = 0, h_name = [], h_flags = 0, h_len = 3\<rparr> [(False, Bytes [1]), (False, Bytes [2, 3, 4]), (True, Bytes [])] =
      Some (Inr ([1, 2, 3], s')) \<and> same_bytes s' [[4]]"
proof -
  let ?s = "[(False, Bytes [1]), (False, Bytes [2, 3, 4]), (True, Bytes [])]" and ?t = "[[1, 2], [3, 4]] :: stream"
  let ?h = "\<lparr>h_name_len = 0, h_name = [], h_flags = 0, h_len = 3\<rparr> :: received_header"
  have st: "same_bytes ?s ?t" by (simp add: same_bytes_def pieces_def)
  have "read_body ?h ?t = Inr ([1, 2, 3], [[4]])" by (simp add: read_body_def io_exact.simps)
  with plain_reader_agrees [OF st, of ?h] show ?thesis by simp
qed



end
