(* ===== verification/Shutdown.thy ===== *)
theory Shutdown
  imports Client
begin

text \<open>
  The end of a program: \<open>peer::stop\<close> of \<open>src/stdml/collective/peer.cpp\<close> and \<open>server_impl::stop\<close> of
  \<open>net/c++20/rchan.cpp\<close>. A peer that stops destroys its client pool, which closes its connections to
  the other peers, and then its server, which ends the accepting thread and waits for the threads of
  all connections it has accepted. Such a thread ends when the remote end has closed the connection.

  The peers of a cluster are a transition system: a label is a step of a \<open>stop\<close> or the end of the
  thread of a connection. When all peers stop, every schedule ends with all of them stopped; a peer is
  never stopped while another one keeps its connection to it open.
\<close>

section \<open>Definitions\<close>

datatype stop_phase =
    Working
  | Stop_clients
  | Stop_server
  | Stop_join "nat list"
  | Stopped

text \<open>
  \<open>sd_ids i\<close> is the identity of peer \<open>i\<close>, \<open>sd_pool i\<close> its client pool until it is destroyed, \<open>sd_accepted i\<close> the
  peers whose connections its server has accepted, in order, and \<open>sd_ended i j\<close> whether the thread of the
  connection from \<open>j\<close> has ended.
\<close>

record shutdown =
  sd_ids :: "nat \<Rightarrow> peer_id"
  sd_pool :: "nat \<Rightarrow> client_pool option"
  sd_accepted :: "nat \<Rightarrow> nat list"
  sd_ended :: "nat \<Rightarrow> nat \<Rightarrow> bool"
  sd_phase :: "nat \<Rightarrow> stop_phase"

definition pool_open :: "client_pool \<Rightarrow> peer_id \<Rightarrow> bool" where
  "pool_open pl target \<longleftrightarrow> list_ex (\<lambda>c. case conn_of c target of None \<Rightarrow> False | Some p \<Rightarrow> cn_open (cl_heap c ! p)) (pl_heap pl)"

definition conn_open :: "shutdown \<Rightarrow> nat \<Rightarrow> nat \<Rightarrow> bool" where
  "conn_open s j i \<longleftrightarrow> (case sd_pool s j of None \<Rightarrow> False | Some pl \<Rightarrow> pool_open pl (sd_ids s i))"

lemma conn_open_iff: "conn_open s j i \<longleftrightarrow> (\<exists>pl. sd_pool s j = Some pl \<and> pool_open pl (sd_ids s i))"
  by (simp add: conn_open_def split: option.splits)

definition set_phase :: "nat \<Rightarrow> stop_phase \<Rightarrow> shutdown \<Rightarrow> shutdown" where
  "set_phase i ph s = s\<lparr>sd_phase := (sd_phase s)(i := ph)\<rparr>"

definition stop_step :: "nat \<Rightarrow> shutdown \<Rightarrow> shutdown option" where
  "stop_step i s =
     (case sd_phase s i of
        Working \<Rightarrow> None
      | Stop_clients \<Rightarrow> Some (set_phase i Stop_server (s\<lparr>sd_pool := (sd_pool s)(i := None)\<rparr>))
      | Stop_server \<Rightarrow> Some (set_phase i (Stop_join (sd_accepted s i)) s)
      | Stop_join [] \<Rightarrow> Some (set_phase i Stopped s)
      | Stop_join (j # js) \<Rightarrow> if sd_ended s i j then Some (set_phase i (Stop_join js) s) else None
      | Stopped \<Rightarrow> None)"

text \<open>The thread of the connection from \<open>j\<close> ends at the end of its stream.\<close>

definition end_step :: "nat \<Rightarrow> nat \<Rightarrow> shutdown \<Rightarrow> shutdown option" where
  "end_step i j s =
     (if j \<in> set (sd_accepted s i) \<and> \<not> sd_ended s i j \<and> \<not> conn_open s j i
      then Some (s\<lparr>sd_ended := (sd_ended s)(i := (sd_ended s i)(j := True))\<rparr>) else None)"

datatype stop_label = Stop_at nat | End_at nat nat

fun stop_exec :: "nat \<Rightarrow> stop_label \<Rightarrow> shutdown \<Rightarrow> shutdown option" where
  "stop_exec n (Stop_at i) s = (if i < n then stop_step i s else None)"
| "stop_exec n (End_at i j) s = (if i < n then end_step i j s else None)"

definition all_stopped :: "nat \<Rightarrow> shutdown \<Rightarrow> bool" where
  "all_stopped n s \<longleftrightarrow> (\<forall>i<n. sd_phase s i = Stopped)"

definition no_one_ended :: "shutdown \<Rightarrow> bool" where
  "no_one_ended s \<longleftrightarrow> (\<forall>i j. \<not> sd_ended s i j)"

section \<open>Invariant\<close>

text \<open>
  A peer past the first phase has no pool, the threads it still has to join are among those of the
  accepted connections, and all others of them, like every thread that has ended, belong to closed ones.
\<close>

fun phase_ok :: "shutdown \<Rightarrow> nat \<Rightarrow> stop_phase \<Rightarrow> bool" where
  "phase_ok s i Working = True"
| "phase_ok s i Stop_clients = True"
| "phase_ok s i Stop_server = (sd_pool s i = None)"
| "phase_ok s i (Stop_join js) = (sd_pool s i = None \<and> set js \<subseteq> set (sd_accepted s i) \<and>
     (\<forall>j\<in>set (sd_accepted s i) - set js. sd_ended s i j))"
| "phase_ok s i Stopped = (sd_pool s i = None \<and> (\<forall>j\<in>set (sd_accepted s i). sd_ended s i j))"

definition stop_inv :: "shutdown \<Rightarrow> bool" where
  "stop_inv s \<longleftrightarrow> (\<forall>i. phase_ok s i (sd_phase s i)) \<and> (\<forall>i j. sd_ended s i j \<longrightarrow> \<not> conn_open s j i)"

lemma stop_step_inv:
  assumes "stop_inv s" and "stop_step i s = Some s'"
  shows "stop_inv s'"
proof -
  have e: "sd_accepted s' = sd_accepted s" "sd_ended s' = sd_ended s" "sd_ids s' = sd_ids s"
    using assms(2) by (auto simp: stop_step_def set_phase_def split: stop_phase.splits list.splits if_splits)
  have p: "sd_pool s' k = sd_pool s k \<or> sd_pool s' k = None" for k
    using assms(2) by (auto simp: stop_step_def set_phase_def split: stop_phase.splits list.splits if_splits)
  have "phase_ok s' k (sd_phase s' k)" for k
  proof (cases "k = i")
    case True
    have "phase_ok s i (sd_phase s i)" using assms(1) by (simp add: stop_inv_def)
    with True assms(2) show ?thesis
      by (auto simp: stop_step_def set_phase_def split: stop_phase.splits list.splits if_splits)
  next
    case False
    then have k: "sd_phase s' k = sd_phase s k" "sd_pool s' k = sd_pool s k"
      using assms(2) by (auto simp: stop_step_def set_phase_def split: stop_phase.splits list.splits if_splits)
    have "phase_ok s k (sd_phase s k)" using assms(1) by (simp add: stop_inv_def)
    with k e show ?thesis by (cases "sd_phase s k") simp_all
  qed
  moreover have "\<not> conn_open s' j k" if "sd_ended s' k j" for j k
    using assms(1) that e p [of j] by (auto simp: stop_inv_def conn_open_iff)
  ultimately show ?thesis by (simp add: stop_inv_def)
qed

lemma end_step_inv:
  assumes "stop_inv s" and "end_step i j s = Some s'"
  shows "stop_inv s'"
proof -
  have s': "s' = s\<lparr>sd_ended := (sd_ended s)(i := (sd_ended s i)(j := True))\<rparr>" and o: "\<not> conn_open s j i"
    using assms(2) by (auto simp: end_step_def split: if_splits)
  have "phase_ok s' k (sd_phase s' k)" for k
  proof -
    have "phase_ok s k (sd_phase s k)" using assms(1) by (simp add: stop_inv_def)
    then show ?thesis by (cases "sd_phase s k") (auto simp: s')
  qed
  moreover have "\<not> conn_open s' l k" if "sd_ended s' k l" for k l
  proof -
    have "conn_open s' l k = conn_open s l k" by (simp add: s' conn_open_iff)
    moreover have "sd_ended s k l \<or> k = i \<and> l = j" using that by (auto simp: s' split: if_splits)
    ultimately show ?thesis using assms(1) o by (auto simp: stop_inv_def)
  qed
  ultimately show ?thesis by (simp add: stop_inv_def)
qed

lemma stop_exec_inv: "stop_inv s \<Longrightarrow> stop_exec n l s = Some s' \<Longrightarrow> stop_inv s'"
  by (cases l) (auto split: if_splits intro: stop_step_inv end_step_inv)

lemma stop_start: "no_one_ended s \<Longrightarrow> \<forall>i. sd_phase s i = Working \<or> sd_phase s i = Stop_clients \<Longrightarrow> stop_inv s"
  unfolding stop_inv_def no_one_ended_def by (metis phase_ok.simps(1,2))

section \<open>Progress\<close>

definition all_stopping :: "nat \<Rightarrow> shutdown \<Rightarrow> bool" where
  "all_stopping n s \<longleftrightarrow> (\<forall>i<n. sd_phase s i \<noteq> Working \<and> list_all (\<lambda>j. j < n) (sd_accepted s i))"

fun phase_work :: "nat \<Rightarrow> stop_phase \<Rightarrow> nat" where
  "phase_work k Working = 0"
| "phase_work k Stop_clients = k + 3"
| "phase_work k Stop_server = k + 2"
| "phase_work k (Stop_join js) = length js + 1"
| "phase_work k Stopped = 0"

definition peer_work :: "shutdown \<Rightarrow> nat \<Rightarrow> nat" where
  "peer_work s i = phase_work (length (sd_accepted s i)) (sd_phase s i) + card {j \<in> set (sd_accepted s i). \<not> sd_ended s i j}"

definition stop_work :: "nat \<Rightarrow> shutdown \<Rightarrow> nat" where
  "stop_work n s = (\<Sum>i<n. peer_work s i)"

lemma stop_exec_others:
  assumes "stop_exec n l s = Some s'"
  shows "\<exists>i<n. peer_work s' i < peer_work s i \<and> (\<forall>k. k \<noteq> i \<longrightarrow> peer_work s' k = peer_work s k)"
proof (cases l)
  case (Stop_at i)
  with assms have "i < n" "stop_step i s = Some s'" by (auto split: if_splits)
  then show ?thesis
    by (intro exI [of _ i]) (auto simp: stop_step_def set_phase_def peer_work_def split: stop_phase.splits list.splits if_splits)
next
  case (End_at i j)
  with assms have i: "i < n" and j: "j \<in> set (sd_accepted s i)" "\<not> sd_ended s i j"
    and s': "s' = s\<lparr>sd_ended := (sd_ended s)(i := (sd_ended s i)(j := True))\<rparr>"
    by (auto simp: end_step_def split: if_splits)
  have "{k \<in> set (sd_accepted s i). \<not> sd_ended s' i k} \<subset> {k \<in> set (sd_accepted s i). \<not> sd_ended s i k}"
    using j by (auto simp: s' split: if_splits)
  then have "card {k \<in> set (sd_accepted s i). \<not> sd_ended s' i k} < card {k \<in> set (sd_accepted s i). \<not> sd_ended s i k}"
    by (intro psubset_card_mono) auto
  with i show ?thesis by (intro exI [of _ i]) (auto simp: s' peer_work_def)
qed

lemma stop_exec_work:
  assumes "stop_exec n l s = Some s'"
  shows "stop_work n s' < stop_work n s"
proof -
  from stop_exec_others [OF assms] obtain i where i: "i < n" "peer_work s' i < peer_work s i" "\<forall>k. k \<noteq> i \<longrightarrow> peer_work s' k = peer_work s k"
    by blast
  then have "\<forall>k\<in>{..<n}. peer_work s' k \<le> peer_work s k" by (metis le_less)
  moreover have "\<exists>k\<in>{..<n}. peer_work s' k < peer_work s k" using i by blast
  ultimately show ?thesis unfolding stop_work_def by (intro sum_strict_mono_ex1) auto
qed

lemma all_stopping_step: "all_stopping n s \<Longrightarrow> stop_exec n l s = Some s' \<Longrightarrow> all_stopping n s'"
  by (cases l) (auto simp: all_stopping_def stop_step_def end_step_def set_phase_def
    split: if_splits stop_phase.splits list.splits)

lemma stop_progress:
  assumes "stop_inv s" and "all_stopping n s" and "\<not> all_stopped n s"
  shows "\<exists>l s'. stop_exec n l s = Some s'"
proof (cases "\<exists>i<n. sd_phase s i = Stop_clients \<or> sd_phase s i = Stop_server")
  case True
  then obtain i where "i < n" "sd_phase s i = Stop_clients \<or> sd_phase s i = Stop_server" by blast
  then show ?thesis by (intro exI [of _ "Stop_at i"]) (auto simp: stop_step_def)
next
  case False
  from assms(3) obtain i where i: "i < n" "sd_phase s i \<noteq> Stopped" by (auto simp: all_stopped_def)
  with False assms(2) obtain js where js: "sd_phase s i = Stop_join js" by (cases "sd_phase s i") (auto simp: all_stopping_def)
  show ?thesis
  proof (cases "\<exists>j ks. js = j # ks \<and> \<not> sd_ended s i j")
    case True
    then obtain j ks where j: "js = j # ks" "\<not> sd_ended s i j" by blast
    have "phase_ok s i (sd_phase s i)" using assms(1) by (simp add: stop_inv_def)
    with j js have a: "j \<in> set (sd_accepted s i)" by auto
    with assms(2) i(1) have "j < n" "sd_phase s j \<noteq> Working" by (auto simp: all_stopping_def list_all_iff)
    with False have "sd_phase s j = Stopped \<or> (\<exists>ks. sd_phase s j = Stop_join ks)" by (cases "sd_phase s j") auto
    moreover have "phase_ok s j (sd_phase s j)" using assms(1) by (simp add: stop_inv_def)
    ultimately have "\<not> conn_open s j i" by (auto simp: conn_open_def)
    with a j(2) i(1) show ?thesis by (intro exI [of _ "End_at i j"]) (simp add: end_step_def)
  next
    case False
    with js i(1) show ?thesis by (intro exI [of _ "Stop_at i"]) (auto simp: stop_step_def split: list.splits)
  qed
qed

interpretation sd: draining_system "stop_exec n" "\<lambda>s. stop_inv s \<and> all_stopping n s" "stop_work n" "all_stopped n" for n
  by unfold_locales (blast intro: stop_exec_inv all_stopping_step stop_exec_work stop_progress)+

text \<open>A peer that does not stop keeps its pool.\<close>

lemma working_kept:
  assumes "sd_phase s j = Working" and "stop_exec n l s = Some s'"
  shows "sd_phase s' j = Working \<and> sd_pool s' j = sd_pool s j \<and> sd_accepted s' = sd_accepted s \<and> sd_ids s' = sd_ids s"
  using assms by (cases l) (auto simp: stop_step_def end_step_def set_phase_def split: if_splits stop_phase.splits list.splits)

lemma working_run:
  "run_labels (stop_exec n) ks s = Some u \<Longrightarrow> sd_phase s j = Working \<Longrightarrow>
    sd_pool u j = sd_pool s j \<and> sd_accepted u = sd_accepted s \<and> sd_ids u = sd_ids s"
proof (induction ks arbitrary: s)
  case (Cons l ks)
  then obtain s' where s': "stop_exec n l s = Some s'" "run_labels (stop_exec n) ks s' = Some u" by (auto split: option.splits)
  from working_kept [OF Cons.prems(2) s'(1)] Cons.IH [OF s'(2)] show ?case by simp
qed simp

section \<open>Properties\<close>


text \<open>\<open>stop\<close> does not return at a peer while another peer that goes on working keeps a connection to it.\<close>

theorem shutdown_waits:
  assumes "no_one_ended s" and "\<forall>i. sd_phase s i = Working \<or> sd_phase s i = Stop_clients"
    and "sd_phase s j = Working" and "conn_open s j i" and "j \<in> set (sd_accepted s i)"
    and "run_labels (stop_exec n) ks s = Some u"
  shows "sd_phase u i \<noteq> Stopped"
proof
  assume st: "sd_phase u i = Stopped"
  have "stop_inv u" using run_labels_keep [of stop_inv "stop_exec n", OF stop_exec_inv stop_start [OF assms(1,2)] assms(6)] .
  moreover from this have "phase_ok u i (sd_phase u i)" by (simp add: stop_inv_def)
  moreover have "conn_open u j i" "j \<in> set (sd_accepted u i)"
    using working_run [OF assms(6,3)] assms(4,5) by (simp_all add: conn_open_iff)
  ultimately show False using st by (simp add: stop_inv_def)
qed

definition two_peers :: "(nat \<Rightarrow> stop_phase) \<Rightarrow> shutdown" where
  "two_peers ph =
     (let ids = (\<lambda>i. \<lparr>ipv4 = 1, port = word_of_nat i\<rparr>);
          pool = (\<lambda>i. \<lparr>pl_self = ids i, pl_clients = [conn_collective \<mapsto> 0],
            pl_heap = [client_send (ids (1 - i)) ''x'' [1, 2] 0 (new_client (ids i) conn_collective)]\<rparr>) in
      \<lparr>sd_ids = ids, sd_pool = (\<lambda>i. Some (pool i)), sd_accepted = (\<lambda>i. [1 - i]), sd_ended = (\<lambda>_ _. False), sd_phase = ph\<rparr>)"


theorem shutdown_waits_witness:
  "\<exists>u. run_labels (stop_exec 2) [Stop_at 0, Stop_at 0] (two_peers (\<lambda>i. if i = 0 then Stop_clients else Working)) = Some u \<and>
    sd_phase u 0 \<noteq> Stopped"
proof -
  let ?s = "two_peers (\<lambda>i. if i = 0 then Stop_clients else Working)"
  have s: "no_one_ended ?s" "\<forall>i. sd_phase ?s i = Working \<or> sd_phase ?s i = Stop_clients" "sd_phase ?s 1 = Working"
    "1 \<in> set (sd_accepted ?s 0)"
    by (auto simp: two_peers_def no_one_ended_def Let_def)
  have o: "conn_open ?s 1 0"
    by (simp add: two_peers_def Let_def conn_open_iff pool_open_def client_send_def client_require_def new_client_def
      conn_of_def conn_send_msg_def dial_def)
  obtain u where "run_labels (stop_exec 2) [Stop_at 0, Stop_at 0] ?s = Some u"
    by (simp add: stop_step_def two_peers_def Let_def set_phase_def)
  with shutdown_waits [OF s(1-3) o s(4)] show ?thesis by blast
qed

end
