(* ===== verification/Thread_Pool.thy ===== *)
theory Thread_Pool
  imports Prelude
begin

text \<open>
  The thread pool of \<open>src/stdml/collective/thread_pool.cpp\<close> with the wait groups of \<open>waitgroup.cpp\<close>,
  the parallel loops \<open>par0\<close> and \<open>par1\<close> of \<open>thread_pool.hpp\<close> and \<open>multi_thread_runtime::par\<close> of
  \<open>task.cpp\<close>, as a transition system.

  A job is what a closure given to \<open>add\<close> does: run parallel loops over the same pool one after
  the other, then record its number; a leaf runs none. The code of a thread is a list of operations,
  each of which is one critical section of the program; an operation that has to wait returns
  \<open>None\<close>. A worker loops over the semaphore, the test of \<open>stopped\<close>, the removal of a job and its
  operations; the owner of the pool runs its own list. A condition variable is the condition it
  waits for: every change that can make it true is followed by a notification.

  The lemmas give the invariant that no queue is read when empty, no assertion fails and every wait
  group counts the jobs that are outstanding, and a bound on the length of every execution.
\<close>

section \<open>Jobs and operations\<close>

datatype job = Job nat "job list list"

datatype op =
    Push job "nat option"
  | Post
  | Par0 "job list"
  | Par1 "job list"
  | Wg_wait nat
  | Ran nat
  | Done nat
  | Fin
  | Wait
  | Stop
  | Wake
  | Join_worker nat

fun body :: "job \<Rightarrow> op list" where
  "body (Job k gs) = map Par0 gs @ [Ran k]"

text \<open>The closures that \<open>par\<close> adds call the function and then \<open>wg.done()\<close>; the worker ends with \<open>finish\<close>.\<close>

definition run_job :: "job \<Rightarrow> nat option \<Rightarrow> op list" where
  "run_job j w = body j @ (case w of None \<Rightarrow> [] | Some w \<Rightarrow> [Done w]) @ [Fin]"

definition pool_add :: "job \<Rightarrow> nat option \<Rightarrow> op list" where
  "pool_add j w = [Push j w, Post]"

text \<open>\<open>par0\<close> adds all jobs and waits; \<open>par1\<close> adds all but the first, runs the first itself and waits.\<close>

definition par0 :: "job list \<Rightarrow> nat \<Rightarrow> op list" where
  "par0 js w = concat (map (\<lambda>j. pool_add j (Some w)) js) @ [Wg_wait w]"

definition par1 :: "job list \<Rightarrow> nat \<Rightarrow> op list" where
  "par1 js w = concat (map (\<lambda>j. pool_add j (Some w)) (tl js)) @ body (hd js) @ [Wg_wait w]"

text \<open>The destructor of a pool with \<open>n\<close> workers.\<close>

definition destroy :: "nat \<Rightarrow> op list" where
  "destroy n = Stop # replicate n Wake @ [Wait] @ map Join_worker [0..<n]"

section \<open>State\<close>

datatype worker = W_sema | W_check | W_take | W_run "op list" | W_exit

record pool =
  tasks :: "(job \<times> nat option) list"
  waiting :: nat
  running :: nat
  stopped :: bool
  sema :: nat
  wgs :: "nat list"
  ran :: "nat list"
  crash :: "cxx_error option"
  workers :: "worker list"
  owner_ops :: "op list"

definition new_pool :: "nat \<Rightarrow> op list \<Rightarrow> pool" where
  "new_pool n prog = \<lparr>tasks = [], waiting = 0, running = 0, stopped = False, sema = 0, wgs = [], ran = [],
     crash = None, workers = replicate n W_sema, owner_ops = prog\<rparr>"

section \<open>Steps\<close>

text \<open>\<open>wait_group::done\<close> decrements a \<open>size_t\<close>.\<close>

definition wg_done :: "nat \<Rightarrow> nat" where
  "wg_done n = (if n = 0 then 2 ^ 64 - 1 else n - 1)"

text \<open>The counters of the pool and its semaphore.\<close>

definition state_add :: "pool \<Rightarrow> pool" where [simp]:
  "state_add p = p\<lparr>waiting := waiting p + 1\<rparr>"

definition state_finish :: "pool \<Rightarrow> pool" where [simp]:
  "state_finish p =
     (if 0 < running p then p\<lparr>running := running p - 1\<rparr>
      else p\<lparr>crash := Some (Assert_failed ''running > 0'')\<rparr>)"

definition is_zero :: "pool \<Rightarrow> bool" where [simp]:
  "is_zero p \<longleftrightarrow> waiting p = 0 \<and> running p = 0"

definition sema_put :: "pool \<Rightarrow> pool" where [simp]:
  "sema_put p = p\<lparr>sema := sema p + 1\<rparr>"

definition sema_get :: "pool \<Rightarrow> pool option" where [simp]:
  "sema_get p = (if 0 < sema p then Some (p\<lparr>sema := sema p - 1\<rparr>) else None)"

fun op_step :: "op \<Rightarrow> pool \<Rightarrow> (op list \<times> pool) option" where
  "op_step (Push j w) p = Some ([], state_add (p\<lparr>tasks := tasks p @ [(j, w)]\<rparr>))"
| "op_step Post p = Some ([], sema_put p)"
| "op_step (Par0 js) p = Some (par0 js (length (wgs p)), p\<lparr>wgs := wgs p @ [length js]\<rparr>)"
| "op_step (Par1 js) p =
     (if js = [] then Some ([], p)
      else Some (par1 js (length (wgs p)), p\<lparr>wgs := wgs p @ [length js - 1]\<rparr>))"
| "op_step (Wg_wait w) p = (if wgs p ! w = 0 then Some ([], p) else None)"
| "op_step (Ran k) p = Some ([], p\<lparr>ran := ran p @ [k]\<rparr>)"
| "op_step (Done w) p = Some ([], p\<lparr>wgs := (wgs p)[w := wg_done (wgs p ! w)]\<rparr>)"
| "op_step Fin p = Some ([], state_finish p)"
| "op_step Wait p = (if is_zero p then Some ([], p) else None)"
| "op_step Stop p = Some ([], p\<lparr>stopped := True\<rparr>)"
| "op_step Wake p = Some ([], sema_put p)"
| "op_step (Join_worker i) p = (if workers p ! i = W_exit then Some ([], p) else None)"

datatype pool_label = Owner | Worker nat

definition set_worker :: "nat \<Rightarrow> worker \<Rightarrow> pool \<Rightarrow> pool" where
  "set_worker i w p = p\<lparr>workers := (workers p)[i := w]\<rparr>"

definition loop_or_run :: "op list \<Rightarrow> worker" where
  "loop_or_run ops = (if ops = [] then W_sema else W_run ops)"

fun worker_step :: "nat \<Rightarrow> worker \<Rightarrow> pool \<Rightarrow> pool option" where
  "worker_step i W_sema p = map_option (set_worker i W_check) (sema_get p)"
| "worker_step i W_check p = Some (set_worker i (if stopped p then W_exit else W_take) p)"
| "worker_step i W_take p =
     (case tasks p of
        [] \<Rightarrow> Some (p\<lparr>crash := Some (Undefined_behaviour ''front of an empty queue'')\<rparr>)
      | (j, w) # ts \<Rightarrow>
          if waiting p = 0 then Some (p\<lparr>crash := Some (Assert_failed ''waiting > 0'')\<rparr>)
          else Some (set_worker i (W_run (run_job j w))
            (p\<lparr>tasks := ts, waiting := waiting p - 1, running := running p + 1\<rparr>)))"
| "worker_step i (W_run []) p = None"
| "worker_step i (W_run (x # xs)) p =
     map_option (\<lambda>(ys, p'). set_worker i (loop_or_run (ys @ xs)) p') (op_step x p)"
| "worker_step i W_exit p = None"

definition pool_step :: "pool_label \<Rightarrow> pool \<Rightarrow> pool option" where
  "pool_step l p =
     (if crash p \<noteq> None then None
      else (case l of
          Owner \<Rightarrow> (case owner_ops p of
              [] \<Rightarrow> None
            | x # xs \<Rightarrow> map_option (\<lambda>(ys, p'). p'\<lparr>owner_ops := ys @ xs\<rparr>) (op_step x p))
        | Worker i \<Rightarrow> if i < length (workers p) then worker_step i (workers p ! i) p else None))"

section \<open>Counting\<close>

text \<open>The operations that the owner and all workers still have to run, without those that a loop adds later.\<close>

fun worker_ops :: "worker \<Rightarrow> op list" where
  "worker_ops (W_run ops) = ops"
| "worker_ops _ = []"

definition all_ops :: "pool \<Rightarrow> op list" where
  "all_ops p = owner_ops p @ concat (map worker_ops (workers p))"

definition cnt :: "('a \<Rightarrow> bool) \<Rightarrow> 'a list \<Rightarrow> nat" where
  "cnt f xs = length (filter f xs)"

fun is_push :: "op \<Rightarrow> bool" where
  "is_push (Push j w) = True"
| "is_push _ = False"

text \<open>Jobs of a wait group that are still to be added, and jobs that are running.\<close>

fun owes :: "nat \<Rightarrow> op \<Rightarrow> bool" where
  "owes w (Push j v) = (v = Some w)"
| "owes w (Done v) = (v = w)"
| "owes w _ = False"

definition queued :: "nat \<Rightarrow> pool \<Rightarrow> nat" where
  "queued w p = cnt (\<lambda>t. snd t = Some w) (tasks p)"

lemma cnt_simps [simp]:
  "cnt f [] = 0" "cnt f (x # xs) = (if f x then Suc (cnt f xs) else cnt f xs)" "cnt f (xs @ ys) = cnt f xs + cnt f ys"
  by (simp_all add: cnt_def)

lemma cnt_update:
  "i < length ws \<Longrightarrow> cnt f (concat (map g (ws[i := v]))) + cnt f (g (ws ! i)) = cnt f (concat (map g ws)) + cnt f (g v)"
proof (induction ws arbitrary: i)
  case (Cons w ws)
  show ?case
  proof (cases i)
    case (Suc k)
    with Cons.prems Cons.IH [of k] show ?thesis by simp
  qed simp
qed simp

lemma cnt_update1:
  "i < length ws \<Longrightarrow> cnt f (ws[i := v]) + cnt f [ws ! i] = cnt f ws + cnt f [v]"
  using cnt_update [of i ws f "\<lambda>x. [x]" v] by simp

lemma cnt_pos: "x \<in> set xs \<Longrightarrow> f x \<Longrightarrow> 0 < cnt f xs"
  by (induction xs) auto

lemma cnt_zero: "cnt f xs = 0 \<longleftrightarrow> (\<forall>x\<in>set xs. \<not> f x)"
  by (induction xs) auto

lemma cnt_le_length: "cnt f xs \<le> length xs"
  by (simp add: cnt_def)

lemma cnt_adds [simp]:
  "cnt is_push (concat (map (\<lambda>j. pool_add j w) js)) = length js"
  "cnt (\<lambda>x. x = Post) (concat (map (\<lambda>j. pool_add j w) js)) = length js"
  "cnt (\<lambda>x. x = Fin) (concat (map (\<lambda>j. pool_add j w) js)) = 0"
  "cnt (owes v) (concat (map (\<lambda>j. pool_add j w) js)) = (if w = Some v then length js else 0)"
  by (induction js) (auto simp: pool_add_def)

lemma cnt_body [simp]:
  "cnt is_push (body j) = 0" "cnt (\<lambda>x. x = Post) (body j) = 0" "cnt (\<lambda>x. x = Fin) (body j) = 0" "cnt (owes v) (body j) = 0"
  by (cases j; auto simp: cnt_zero)+

lemma cnt_run_job [simp]:
  "cnt is_push (run_job j w) = 0" "cnt (\<lambda>x. x = Post) (run_job j w) = 0" "cnt (\<lambda>x. x = Fin) (run_job j w) = 1"
  "cnt (owes v) (run_job j w) = (if w = Some v then 1 else 0)"
  by (auto simp: run_job_def split: option.splits)

section \<open>Invariant\<close>

text \<open>
  The invariant speaks of the operations of all threads through the function \<open>A\<close> that counts them,
  so that a step of the owner and a step of a worker are the same case.
\<close>

definition scalars_ok :: "((op \<Rightarrow> bool) \<Rightarrow> nat) \<Rightarrow> pool \<Rightarrow> bool" where
  "scalars_ok A p \<longleftrightarrow> crash p = None \<and> waiting p = length (tasks p) \<and> running p = A (\<lambda>x. x = Fin)"

definition wg_ok :: "((op \<Rightarrow> bool) \<Rightarrow> nat) \<Rightarrow> pool \<Rightarrow> nat \<Rightarrow> bool" where
  "wg_ok A p w \<longleftrightarrow> (if w < length (wgs p) then wgs p ! w = A (owes w) + queued w p else A (owes w) + queued w p = 0)"

definition tokens_ok :: "((op \<Rightarrow> bool) \<Rightarrow> nat) \<Rightarrow> nat \<Rightarrow> pool \<Rightarrow> bool" where
  "tokens_ok A c p \<longleftrightarrow> (\<not> stopped p \<longrightarrow> sema p + c + A (\<lambda>x. x = Post) = length (tasks p) + A is_push)"

definition moves :: "((op \<Rightarrow> bool) \<Rightarrow> nat) \<Rightarrow> op list \<Rightarrow> op list \<Rightarrow> ((op \<Rightarrow> bool) \<Rightarrow> nat) \<Rightarrow> bool" where
  "moves A xs ys A' \<longleftrightarrow> (\<forall>f. A' f + cnt f xs = A f + cnt f ys)"

lemma movesD: "moves A xs ys A' \<Longrightarrow> A' f + cnt f xs = A f + cnt f ys"
  by (simp add: moves_def)

lemma scalars_step:
  assumes "scalars_ok A p" and "op_step x p = Some (ys, p')" and "moves A [x] ys A'"
  shows "scalars_ok A' p'"
  using assms(1,2) movesD [OF assms(3), of "\<lambda>x. x = Fin"]
  by (cases x) (auto simp: scalars_ok_def par0_def par1_def split: if_splits)

lemma queued_step:
  "op_step x p = Some (ys, p') \<Longrightarrow> queued w p' = queued w p + (case x of Push j v \<Rightarrow> if v = Some w then 1 else 0 | _ \<Rightarrow> 0)"
  by (cases x) (auto simp: queued_def split: if_splits)

lemma wg_step:
  assumes "\<And>w. wg_ok A p w" and "op_step x p = Some (ys, p')" and "moves A [x] ys A'"
  shows "wg_ok A' p' w"
proof -
  note o = movesD [OF assms(3), of "owes w"] and i = assms(1) [of w, unfolded wg_ok_def] and qu = queued_step [OF assms(2), of w]
  show ?thesis
  proof (cases x)
    case (Done v)
    with o assms(2) have "0 < A (owes v)" if "v = w" using that by simp
    with Done o i qu assms(2) show ?thesis
      by (auto simp: wg_ok_def nth_list_update wg_done_def split: if_splits)
  qed (use assms(2) o i qu in \<open>auto simp: wg_ok_def par0_def par1_def nth_append split: if_splits\<close>)
qed

lemma tokens_step:
  assumes "tokens_ok A c p" and "op_step x p = Some (ys, p')" and "moves A [x] ys A'" and "x = Wake \<Longrightarrow> stopped p"
  shows "tokens_ok A' c p'"
  using assms(1,2,4) movesD [OF assms(3), of "\<lambda>x. x = Post"] movesD [OF assms(3), of is_push]
  by (cases x) (auto simp: tokens_ok_def par0_def par1_def split: if_splits)

text \<open>Every \<open>Push\<close> is followed by its \<open>Post\<close>; waits are for groups that exist.\<close>

fun paired :: "op list \<Rightarrow> bool" where
  "paired [] = True"
| "paired (x # xs) = ((is_push x \<longrightarrow> xs \<noteq> [] \<and> hd xs = Post) \<and> paired xs)"

lemma paired_append: "paired xs \<Longrightarrow> paired ys \<Longrightarrow> paired (xs @ ys)"
  by (induction xs) auto

lemma paired_adds [simp]: "paired (concat (map (\<lambda>j. pool_add j w) js))"
  by (induction js) (auto simp: pool_add_def)

lemma paired_no_push: "cnt is_push xs = 0 \<Longrightarrow> paired xs"
  by (induction xs) (auto split: if_splits)

lemma paired_cnt: "paired xs \<Longrightarrow> cnt is_push xs \<le> cnt (\<lambda>x. x = Post) xs"
proof (induction xs rule: length_induct)
  case (1 xs)
  show ?case
  proof (cases "xs \<noteq> [] \<and> is_push (hd xs)")
    case True
    then obtain x ys where xs: "xs = x # Post # ys" "is_push x" using "1.prems" by (cases xs; cases "tl xs") auto
    then have "cnt is_push ys \<le> cnt (\<lambda>x. x = Post) ys" using 1 by simp
    with xs show ?thesis by (cases x) auto
  next
    case False
    show ?thesis
    proof (cases xs)
      case (Cons x ys)
      then have "cnt is_push ys \<le> cnt (\<lambda>x. x = Post) ys" using 1 by simp
      with False Cons show ?thesis by simp
    qed simp
  qed
qed

fun plain :: "op \<Rightarrow> bool" where
  "plain Wait = False"
| "plain Stop = False"
| "plain Wake = False"
| "plain (Join_worker i) = False"
| "plain _ = True"

text \<open>There is no \<open>Post\<close> without its \<open>Push\<close>, except at the front when the \<open>Push\<close> has just been done.\<close>

definition lean :: "op list \<Rightarrow> bool" where
  "lean ops \<longleftrightarrow> cnt (\<lambda>x. x = Post) ops \<le> cnt is_push ops + (case ops of Post # _ \<Rightarrow> 1 | _ \<Rightarrow> 0)"

definition ops_ok :: "nat \<Rightarrow> op list \<Rightarrow> bool" where
  "ops_ok n ops \<longleftrightarrow> paired ops \<and> lean ops \<and> (\<forall>w. Wg_wait w \<in> set ops \<longrightarrow> w < n)"

lemma lean_tl: "paired (x # xs) \<Longrightarrow> lean (x # xs) \<Longrightarrow> cnt (\<lambda>x. x = Post) xs \<le> cnt is_push xs + (if is_push x then 1 else 0)"
  by (cases x) (auto simp: lean_def)

lemma lean_append: "cnt (\<lambda>x. x = Post) ys \<le> cnt is_push ys \<Longrightarrow> cnt (\<lambda>x. x = Post) xs \<le> cnt is_push xs \<Longrightarrow> lean (ys @ xs)"
  by (simp add: lean_def)

lemma lean_step:
  assumes "op_step x p = Some (ys, p')" and "paired (x # xs)" and "lean (x # xs)"
  shows "lean (ys @ xs)"
proof (cases "is_push x")
  case True
  then obtain zs where z: "xs = Post # zs" "ys = []" using assms(1,2) by (cases x; cases xs) auto
  with lean_tl [OF assms(2,3)] True show ?thesis by (simp add: lean_def)
next
  case False
  have "cnt (\<lambda>x. x = Post) ys \<le> cnt is_push ys"
    using assms(1) by (cases x) (auto simp: par0_def par1_def split: if_splits)
  with lean_tl [OF assms(2,3)] False show ?thesis by (intro lean_append) simp_all
qed

lemma plain_body: "x \<in> set (body j) \<Longrightarrow> plain x \<and> x \<noteq> Wg_wait w"
  by (cases j) auto

lemma plain_adds: "x \<in> set (concat (map (\<lambda>j. pool_add j w) js)) \<Longrightarrow> plain x \<and> x \<noteq> Wg_wait v"
  by (auto simp: pool_add_def)

lemma ops_run_job: "ops_ok n (run_job j w) \<and> list_all plain (run_job j w)"
proof -
  have "cnt (\<lambda>x. x = Post) (run_job j w) = 0" "cnt is_push (run_job j w) = 0" by simp_all
  then have "lean (run_job j w)" "paired (run_job j w)" by (simp_all add: lean_def paired_no_push del: cnt_run_job)
  then show ?thesis using plain_body [of _ j] by (auto simp: ops_ok_def run_job_def list_all_iff split: option.splits)
qed

lemma ops_step:
  assumes "op_step x p = Some (ys, p')" and "ops_ok (length (wgs p)) (x # xs)"
  shows "ops_ok (length (wgs p')) (ys @ xs) \<and> list_all plain ys \<and> length (wgs p) \<le> length (wgs p')"
proof -
  have px: "paired (x # xs)" "lean (x # xs)" "\<And>w. Wg_wait w \<in> set xs \<Longrightarrow> w < length (wgs p)" using assms(2) by (auto simp: ops_ok_def)
  have "paired (ys @ xs) \<and> (\<forall>w. Wg_wait w \<in> set (ys @ xs) \<longrightarrow> w < length (wgs p')) \<and> list_all plain ys \<and> length (wgs p) \<le> length (wgs p')"
    using assms(1) px(1,3) plain_adds [of _ "Some (length (wgs p))"] plain_body
    by (cases x) (fastforce simp: par0_def par1_def list_all_iff paired_no_push intro!: paired_append split: if_splits)+
  with lean_step [OF assms(1) px(1,2)] show ?thesis by (simp add: ops_ok_def)
qed

definition tokens :: "pool \<Rightarrow> nat" where
  "tokens p = cnt (\<lambda>x. x = W_check) (workers p) + cnt (\<lambda>x. x = W_take) (workers p)"

abbreviation ops_cnt :: "pool \<Rightarrow> (op \<Rightarrow> bool) \<Rightarrow> nat" where
  "ops_cnt p \<equiv> \<lambda>f. cnt f (all_ops p)"

definition shape_ok :: "pool \<Rightarrow> bool" where
  "shape_ok p \<longleftrightarrow> ops_ok (length (wgs p)) (owner_ops p) \<and>
     (\<forall>w\<in>set (workers p). ops_ok (length (wgs p)) (worker_ops w) \<and> list_all plain (worker_ops w) \<and> w \<noteq> W_run []) \<and>
     (stopped p \<or> Wake \<notin> set (takeWhile (\<lambda>x. x \<noteq> Stop) (owner_ops p))) \<and>
     (W_exit \<in> set (workers p) \<longrightarrow> stopped p)"

definition tp_inv :: "pool \<Rightarrow> bool" where
  "tp_inv p \<longleftrightarrow> scalars_ok (ops_cnt p) p \<and> (\<forall>w. wg_ok (ops_cnt p) p w) \<and> tokens_ok (ops_cnt p) (tokens p) p \<and>
     cnt (\<lambda>x. x = W_take) (workers p) \<le> length (tasks p) \<and> shape_ok p"

lemma tp_invD:
  assumes "tp_inv p"
  shows "scalars_ok (ops_cnt p) p" "wg_ok (ops_cnt p) p w" "tokens_ok (ops_cnt p) (tokens p) p"
    "cnt (\<lambda>x. x = W_take) (workers p) \<le> length (tasks p)" "shape_ok p"
  using assms by (simp_all add: tp_inv_def)

lemma shapeD:
  assumes "shape_ok p"
  shows "ops_ok (length (wgs p)) (owner_ops p)"
    and "w \<in> set (workers p) \<Longrightarrow> ops_ok (length (wgs p)) (worker_ops w)"
    and "w \<in> set (workers p) \<Longrightarrow> list_all plain (worker_ops w)"
    and "w \<in> set (workers p) \<Longrightarrow> w \<noteq> W_run []"
    and "\<not> stopped p \<Longrightarrow> Wake \<notin> set (takeWhile (\<lambda>x. x \<noteq> Stop) (owner_ops p))"
    and "W_exit \<in> set (workers p) \<Longrightarrow> stopped p"
  using assms unfolding shape_ok_def by blast+

lemma shapeI:
  assumes "ops_ok (length (wgs p)) (owner_ops p)"
    and "\<And>w. w \<in> set (workers p) \<Longrightarrow> ops_ok (length (wgs p)) (worker_ops w) \<and> list_all plain (worker_ops w) \<and> w \<noteq> W_run []"
    and "\<not> stopped p \<Longrightarrow> Wake \<notin> set (takeWhile (\<lambda>x. x \<noteq> Stop) (owner_ops p))"
    and "W_exit \<in> set (workers p) \<Longrightarrow> stopped p"
  shows "shape_ok p"
  using assms unfolding shape_ok_def by blast

lemma ops_ok_mono: "ops_ok n ops \<Longrightarrow> n \<le> m \<Longrightarrow> ops_ok m ops"
  by (auto simp: ops_ok_def)

lemma ops_cnt_paired: "shape_ok p \<Longrightarrow> cnt is_push (all_ops p) \<le> cnt (\<lambda>x. x = Post) (all_ops p)"
proof -
  assume "shape_ok p"
  then have w: "paired (owner_ops p)" "\<forall>w\<in>set (workers p). paired (worker_ops w)" by (auto simp: shape_ok_def ops_ok_def)
  from w(2) have "paired (concat (map worker_ops ws))" if "set ws \<subseteq> set (workers p)" for ws
    using that by (induction ws) (auto intro: paired_append)
  with w(1) have "paired (all_ops p)" by (auto simp: all_ops_def intro: paired_append)
  then show ?thesis by (rule paired_cnt)
qed

lemma take_bound:
  assumes "tokens_ok (ops_cnt p) (tokens p) p" and "shape_ok p" and "\<not> stopped p"
  shows "cnt (\<lambda>x. x = W_take) (workers p) \<le> length (tasks p)"
  using assms(1,3) ops_cnt_paired [OF assms(2)] by (simp add: tokens_ok_def tokens_def)

text \<open>A step leaves alone what it does not name.\<close>

lemma op_step_frame: "op_step x p = Some (ys, p') \<Longrightarrow> workers p' = workers p \<and> owner_ops p' = owner_ops p \<and> length (tasks p) \<le> length (tasks p') \<and>
    (stopped p' = (stopped p \<or> x = Stop))"
  by (cases x) (auto split: if_splits)

lemma op_step_owner [simp]: "scalars_ok A (p\<lparr>owner_ops := os\<rparr>) = scalars_ok A p" "wg_ok A (p\<lparr>owner_ops := os\<rparr>) w = wg_ok A p w"
    "tokens_ok A c (p\<lparr>owner_ops := os\<rparr>) = tokens_ok A c p" "tokens (p\<lparr>owner_ops := os\<rparr>) = tokens p"
  by (simp_all add: scalars_ok_def wg_ok_def tokens_ok_def tokens_def queued_def)

lemma op_step_workers [simp]: "scalars_ok A (p\<lparr>workers := ws\<rparr>) = scalars_ok A p" "wg_ok A (p\<lparr>workers := ws\<rparr>) w = wg_ok A p w"
    "tokens_ok A c (p\<lparr>workers := ws\<rparr>) = tokens_ok A c p"
  by (simp_all add: scalars_ok_def wg_ok_def tokens_ok_def queued_def)

lemma owner_step_inv:
  assumes "tp_inv p" and "owner_ops p = x # xs" and "op_step x p = Some (ys, p')"
  shows "tp_inv (p'\<lparr>owner_ops := ys @ xs\<rparr>)"
proof -
  let ?q = "p'\<lparr>owner_ops := ys @ xs\<rparr>"
  note i = tp_invD [OF assms(1)] and fr = op_step_frame [OF assms(3)]
  note sh = shapeD [OF i(5)]
  have m: "moves (ops_cnt p) [x] ys (ops_cnt ?q)"
    using fr assms(2) by (simp add: moves_def all_ops_def)
  have wake: "stopped p" if "x = Wake" using sh(5) assms(2) that by auto
  note os = ops_step [OF assms(3) sh(1) [unfolded assms(2)]]
  have ys: "\<forall>y\<in>set ys. y \<noteq> Wake \<and> y \<noteq> Stop" using os by (auto simp: list_all_iff)
  have w: "Wake \<notin> set (takeWhile (\<lambda>x. x \<noteq> Stop) (ys @ xs))" if "\<not> stopped p'"
  proof -
    have "x \<noteq> Stop" "\<not> stopped p" using fr that by blast+
    then have "Wake \<notin> set (takeWhile (\<lambda>x. x \<noteq> Stop) xs)" using sh(5) assms(2) by simp
    moreover have "takeWhile (\<lambda>x. x \<noteq> Stop) (ys @ xs) = ys @ takeWhile (\<lambda>x. x \<noteq> Stop) xs"
      using ys by (intro takeWhile_append2) blast
    ultimately show ?thesis using ys by (metis Un_iff set_append)
  qed
  have shape: "shape_ok ?q"
    using os sh fr w by (intro shapeI) (auto intro: ops_ok_mono)
  have tk: "tokens_ok (ops_cnt ?q) (tokens p) p'" using tokens_step [OF i(3) assms(3) m wake] .
  then have "tokens_ok (ops_cnt ?q) (tokens ?q) ?q" using fr by (simp add: tokens_def)
  moreover have "scalars_ok (ops_cnt ?q) ?q" using scalars_step [OF i(1) assms(3) m] by simp
  moreover have "wg_ok (ops_cnt ?q) ?q w" for w using wg_step [OF i(2) assms(3) m] by simp
  moreover have "cnt (\<lambda>x. x = W_take) (workers ?q) \<le> length (tasks ?q)" using i(4) fr by simp
  ultimately show ?thesis using shape by (simp add: tp_inv_def)
qed

lemma all_ops_worker:
  assumes "i < length (workers p)"
  shows "moves (ops_cnt p) (worker_ops (workers p ! i)) (worker_ops v) (ops_cnt (set_worker i v p))"
  using cnt_update [OF assms, of _ worker_ops v] by (simp add: moves_def all_ops_def set_worker_def)
lemma set_worker_simps [simp]:
  "owner_ops (set_worker i v p) = owner_ops p" "wgs (set_worker i v p) = wgs p" "stopped (set_worker i v p) = stopped p"
  "tasks (set_worker i v p) = tasks p" "scalars_ok A (set_worker i v p) = scalars_ok A p" "wg_ok A (set_worker i v p) w = wg_ok A p w"
  "tokens_ok A c (set_worker i v p) = tokens_ok A c p" "workers (set_worker i v p) = (workers p)[i := v]"
  by (simp_all add: set_worker_def)

lemma set_worker_shape:
  assumes "shape_ok p" and "ops_ok (length (wgs p)) (worker_ops v)" and "list_all plain (worker_ops v)" and "v \<noteq> W_run []"
    and "v = W_exit \<Longrightarrow> stopped p"
  shows "shape_ok (set_worker i v p)"
proof (rule shapeI)
  note sh = shapeD [OF assms(1)] and sub = set_update_subset_insert [of "workers p" i v]
  show "ops_ok (length (wgs (set_worker i v p))) (worker_ops w) \<and> list_all plain (worker_ops w) \<and> w \<noteq> W_run []"
    if "w \<in> set (workers (set_worker i v p))" for w
    using that sub sh(2-4) [of w] assms(2-4) by auto
  show "stopped (set_worker i v p)" if "W_exit \<in> set (workers (set_worker i v p))"
    using that sub sh(6) assms(5) by auto
qed (use shapeD [OF assms(1)] in simp_all)

lemma cnt_worker:
  "i < length (workers p) \<Longrightarrow>
     cnt (\<lambda>x. x = u) (workers (set_worker i v p)) + (if workers p ! i = u then 1 else 0) = cnt (\<lambda>x. x = u) (workers p) + (if v = u then 1 else 0)"
  using cnt_update1 [of i "workers p" "\<lambda>x. x = u" v] by (simp split: if_splits)

lemma all_ops_same: "i < length (workers p) \<Longrightarrow> worker_ops (workers p ! i) = [] \<Longrightarrow> worker_ops v = [] \<Longrightarrow>
    cnt f (all_ops (set_worker i v p)) = cnt f (all_ops p)"
  using all_ops_worker [of i p v] by (simp add: moves_def)

lemma phase_step_inv:
  assumes "tp_inv p" and "i < length (workers p)" and "workers p ! i = W_sema" and "0 < sema p"
  shows "tp_inv (set_worker i W_check (p\<lparr>sema := sema p - 1\<rparr>))"
proof -
  let ?p = "p\<lparr>sema := sema p - 1\<rparr>"
  let ?q = "set_worker i W_check ?p"
  note iv = tp_invD [OF assms(1)]
  have o: "cnt f (all_ops ?q) = cnt f (all_ops p)" for f using all_ops_same [of i ?p W_check] assms(2,3) by (simp add: all_ops_def)
  have c: "cnt (\<lambda>x. x = W_check) (workers ?q) = Suc (cnt (\<lambda>x. x = W_check) (workers p))"
    "cnt (\<lambda>x. x = W_take) (workers ?q) = cnt (\<lambda>x. x = W_take) (workers p)"
    using cnt_worker [of i ?p W_check W_check] cnt_worker [of i ?p W_take W_check] assms(2,3) by simp_all
  have "shape_ok ?p" using iv(5) by (simp add: shape_ok_def)
  then have "shape_ok ?q" by (rule set_worker_shape) (simp_all add: ops_ok_def lean_def)
  moreover have "tokens_ok (ops_cnt ?q) (tokens ?q) ?q"
    using iv(3) assms(4) c unfolding o by (simp add: set_worker_def tokens_ok_def tokens_def)
  moreover have "scalars_ok (ops_cnt ?q) ?q" using iv(1) unfolding o by (simp add: scalars_ok_def set_worker_def)
  moreover have "wg_ok (ops_cnt ?q) ?q w" for w using iv(2) [of w] unfolding o by (simp add: wg_ok_def queued_def set_worker_def split: if_splits)
  ultimately show ?thesis using iv(4) c by (simp add: tp_inv_def)
qed

lemma check_step_inv:
  assumes "tp_inv p" and "i < length (workers p)" and "workers p ! i = W_check"
  shows "tp_inv (set_worker i (if stopped p then W_exit else W_take) p)"
proof -
  let ?v = "if stopped p then W_exit else W_take"
  let ?q = "set_worker i ?v p"
  note iv = tp_invD [OF assms(1)]
  have o: "cnt f (all_ops ?q) = cnt f (all_ops p)" for f using all_ops_same [of i p ?v] assms(2,3) by simp
  have c: "Suc (cnt (\<lambda>x. x = W_check) (workers ?q)) = cnt (\<lambda>x. x = W_check) (workers p)"
    "cnt (\<lambda>x. x = W_take) (workers ?q) = (if stopped p then 0 else 1) + cnt (\<lambda>x. x = W_take) (workers p)"
    using cnt_worker [of i p W_check ?v] cnt_worker [of i p W_take ?v] assms(2,3) by simp_all
  have sh: "shape_ok ?q" by (rule set_worker_shape [OF iv(5)]) (simp_all add: ops_ok_def lean_def split: if_splits)
  moreover have tk: "tokens_ok (ops_cnt ?q) (tokens ?q) ?q"
    using iv(3) c unfolding o by (cases "stopped p") (simp_all add: set_worker_def tokens_ok_def tokens_def)
  moreover have "cnt (\<lambda>x. x = W_take) (workers ?q) \<le> length (tasks ?q)"
    using take_bound [OF tk sh] iv(4) c by (cases "stopped p") simp_all
  ultimately show ?thesis using iv(1,2) by (simp add: tp_inv_def o)
qed

lemma take_step_inv:
  assumes "tp_inv p" and "i < length (workers p)" and "workers p ! i = W_take"
  shows "\<exists>j w ts. tasks p = (j, w) # ts \<and> waiting p \<noteq> 0 \<and>
    tp_inv (set_worker i (W_run (run_job j w)) (p\<lparr>tasks := ts, waiting := waiting p - 1, running := running p + 1\<rparr>))"
proof -
  note iv = tp_invD [OF assms(1)]
  have "0 < cnt (\<lambda>x. x = W_take) (workers p)" by (rule cnt_pos [OF nth_mem [OF assms(2)]]) (rule assms(3))
  with iv(4) obtain j w ts where t: "tasks p = (j, w) # ts" by (cases "tasks p") auto
  let ?p = "p\<lparr>tasks := ts, waiting := waiting p - 1, running := running p + 1\<rparr>"
  let ?v = "W_run (run_job j w)"
  let ?q = "set_worker i ?v ?p"
  have o: "cnt f (all_ops ?q) = cnt f (all_ops p) + cnt f (run_job j w)" for f
    using movesD [OF all_ops_worker [of i ?p ?v], of f] assms(2,3) by (simp add: all_ops_def)
  have c: "cnt (\<lambda>x. x = W_check) (workers ?q) = cnt (\<lambda>x. x = W_check) (workers p)"
    "Suc (cnt (\<lambda>x. x = W_take) (workers ?q)) = cnt (\<lambda>x. x = W_take) (workers p)"
    using cnt_worker [of i ?p W_check ?v] cnt_worker [of i ?p W_take ?v] assms(2,3) by simp_all
  have w: "waiting p = Suc (length ts)" "running p = cnt (\<lambda>x. x = Fin) (all_ops p)" "crash p = None"
    using iv(1) t by (simp_all add: scalars_ok_def)
  have "shape_ok ?p" using iv(5) by (simp add: shape_ok_def)
  then have "shape_ok ?q" using ops_run_job [of "length (wgs p)" j w]
    by (intro set_worker_shape) (auto simp: run_job_def split: option.splits)
  moreover have "tokens_ok (ops_cnt ?q) (tokens ?q) ?q"
    using iv(3) c t unfolding o by (cases "stopped p") (simp_all add: set_worker_def tokens_ok_def tokens_def)
  moreover have "scalars_ok (ops_cnt ?q) ?q" using w unfolding o by (simp add: scalars_ok_def set_worker_def)
  moreover have "wg_ok (ops_cnt ?q) ?q v" for v
    using iv(2) [of v] t unfolding o by (auto simp: wg_ok_def queued_def set_worker_def split: if_splits)
  ultimately have "tp_inv ?q" using iv(4) c t by (simp add: tp_inv_def)
  with t w(1) show ?thesis by (intro exI [of _ j] exI [of _ w] exI [of _ ts]) simp
qed

lemma run_step_inv:
  assumes "tp_inv p" and "i < length (workers p)" and "workers p ! i = W_run (x # xs)" and "op_step x p = Some (ys, p')"
  shows "tp_inv (set_worker i (loop_or_run (ys @ xs)) p')"
proof -
  let ?v = "loop_or_run (ys @ xs)"
  let ?q = "set_worker i ?v p'"
  note iv = tp_invD [OF assms(1)] and fr = op_step_frame [OF assms(4)]
  note sh = shapeD [OF iv(5)]
  have mem: "W_run (x # xs) \<in> set (workers p)" using nth_mem [OF assms(2)] assms(3) by simp
  have ok: "ops_ok (length (wgs p)) (x # xs)" "list_all plain (x # xs)" using sh(2,3) [OF mem] by simp_all
  note os = ops_step [OF assms(4) ok(1)]
  have v: "worker_ops ?v = ys @ xs" "?v \<noteq> W_run []" "?v \<noteq> W_check" "?v \<noteq> W_take" "?v \<noteq> W_exit" by (simp_all add: loop_or_run_def)
  have ne: "x \<noteq> Wake" "x \<noteq> Stop" using ok(2) by (cases x; simp)+
  have m: "moves (ops_cnt p) [x] ys (ops_cnt ?q)"
  proof -
    have "cnt f (all_ops ?q) + cnt f [x] = cnt f (all_ops p) + cnt f ys" for f
      using cnt_update [OF assms(2), of f worker_ops ?v] fr assms(3) v(1) by (simp add: all_ops_def split: if_splits)
    then show ?thesis by (simp add: moves_def)
  qed
  have c: "cnt (\<lambda>x. x = W_check) (workers ?q) = cnt (\<lambda>x. x = W_check) (workers p)"
    "cnt (\<lambda>x. x = W_take) (workers ?q) = cnt (\<lambda>x. x = W_take) (workers p)"
    using cnt_worker [of i p' W_check ?v] cnt_worker [of i p' W_take ?v] assms(2,3) fr v by simp_all
  have "shape_ok p'"
    using os sh fr ne by (intro shapeI) (auto intro: ops_ok_mono)
  then have "shape_ok ?q" using os ok(2) v by (intro set_worker_shape) simp_all
  moreover have "tokens_ok (ops_cnt ?q) (tokens p) p'" using tokens_step [OF iv(3) assms(4) m] ne by blast
  then have "tokens_ok (ops_cnt ?q) (tokens ?q) ?q" using c by (simp only: tokens_def set_worker_simps(7))
  moreover have "scalars_ok (ops_cnt ?q) ?q" using scalars_step [OF iv(1) assms(4) m] by simp
  moreover have "wg_ok (ops_cnt ?q) ?q w" for w using wg_step [OF iv(2) assms(4) m] by simp
  moreover have "cnt (\<lambda>x. x = W_take) (workers ?q) \<le> length (tasks ?q)"
    unfolding c(2) using iv(4) fr by simp
  ultimately show ?thesis by (simp add: tp_inv_def)
qed

lemma pool_step_workers: "pool_step l p = Some p' \<Longrightarrow> length (workers p') = length (workers p)"
proof (cases l)
  case Owner
  then show "pool_step l p = Some p' \<Longrightarrow> ?thesis"
    by (auto simp: pool_step_def dest: op_step_frame split: if_splits list.splits)
next
  case (Worker i)
  assume st: "pool_step l p = Some p'"
  then have "worker_step i (workers p ! i) p = Some p'" using Worker by (auto simp: pool_step_def split: if_splits)
  then show ?thesis
    by (cases "(i, workers p ! i, p)" rule: worker_step.cases)
      (auto simp: set_worker_def dest: op_step_frame split: if_splits list.splits)
qed

lemma pool_step_inv: "tp_inv p \<Longrightarrow> pool_step l p = Some p' \<Longrightarrow> tp_inv p'"
proof (cases l)
  case Owner
  assume "tp_inv p" "pool_step l p = Some p'"
  with Owner show ?thesis
    by (auto simp: pool_step_def split: if_splits list.splits intro: owner_step_inv)
next
  case (Worker i)
  assume inv: "tp_inv p" and st: "pool_step l p = Some p'"
  then have i: "i < length (workers p)" "worker_step i (workers p ! i) p = Some p'"
    using Worker by (auto simp: pool_step_def split: if_splits)
  show ?thesis
  proof (cases "workers p ! i")
    case W_sema
    with i have "0 < sema p" "p' = set_worker i W_check (p\<lparr>sema := sema p - 1\<rparr>)" by (simp_all split: if_splits)
    with phase_step_inv [OF inv i(1) W_sema] show ?thesis by simp
  next
    case W_check
    with i check_step_inv [OF inv i(1)] show ?thesis by simp
  next
    case W_take
    with i take_step_inv [OF inv i(1)] show ?thesis by auto
  next
    case (W_run ops)
    with i inv show ?thesis by (cases ops) (auto intro: run_step_inv)
  next
    case W_exit
    with i show ?thesis by simp
  qed
qed

section \<open>Work\<close>

text \<open>How many steps are left, counting the jobs that loops will add.\<close>

fun job_work :: "job \<Rightarrow> nat" where
  "job_work (Job k gs) = 3 + sum_list (map (\<lambda>js. 2 + sum_list (map (\<lambda>j. 7 + job_work j) js)) gs)"

fun op_work :: "op \<Rightarrow> nat" where
  "op_work (Push j w) = 1 + job_work j"
| "op_work Post = 6"
| "op_work Wake = 6"
| "op_work (Par0 js) = 2 + sum_list (map (\<lambda>j. 7 + job_work j) js)"
| "op_work (Par1 js) = 2 + sum_list (map (\<lambda>j. 7 + job_work j) js)"
| "op_work _ = 1"

definition ops_work :: "op list \<Rightarrow> nat" where
  "ops_work ops = sum_list (map op_work ops)"

fun worker_work :: "worker \<Rightarrow> nat" where
  "worker_work W_sema = 0"
| "worker_work W_check = 4"
| "worker_work W_take = 3"
| "worker_work (W_run ops) = ops_work ops"
| "worker_work W_exit = 0"

definition pool_work :: "pool \<Rightarrow> nat" where
  "pool_work p = ops_work (owner_ops p) + sum_list (map worker_work (workers p)) +
     sum_list (map (\<lambda>t. job_work (fst t)) (tasks p)) + 5 * sema p + (if crash p = None then 1 else 0)"

lemma ops_work_simps [simp]:
  "ops_work [] = 0" "ops_work (x # xs) = op_work x + ops_work xs" "ops_work (xs @ ys) = ops_work xs + ops_work ys"
  by (simp_all add: ops_work_def)

lemma ops_work_adds: "ops_work (concat (map (\<lambda>j. pool_add j w) js)) = sum_list (map (\<lambda>j. 7 + job_work j) js)"
  by (induction js) (simp_all add: pool_add_def)

lemma ops_work_body: "ops_work (body j) + 2 = job_work j"
proof (cases j)
  case (Job k gs)
  have "ops_work (map Par0 gs) = sum_list (map (\<lambda>js. 2 + sum_list (map (\<lambda>j. 7 + job_work j) js)) gs)"
    by (induction gs) simp_all
  with Job show ?thesis by simp
qed

lemma ops_work_run_job: "ops_work (run_job j w) \<le> job_work j"
  using ops_work_body [of j] by (simp add: run_job_def split: option.splits)

lemma op_step_work:
  assumes "op_step x p = Some (ys, p')"
  shows "ops_work ys + sum_list (map (\<lambda>t. job_work (fst t)) (tasks p')) + 5 * sema p' + (if crash p' = None then 1 else 0) <
    op_work x + sum_list (map (\<lambda>t. job_work (fst t)) (tasks p)) + 5 * sema p + (if crash p = None then 1 else 0)"
proof (cases x)
  case (Par1 js)
  show ?thesis
  proof (cases js)
    case (Cons j js')
    with Par1 assms ops_work_body [of j] show ?thesis by (auto simp: par1_def ops_work_adds)
  qed (use Par1 assms in auto)
qed (use assms in \<open>auto simp: par0_def ops_work_adds split: if_splits\<close>)

lemma sum_list_update_nat:
  "i < length ws \<Longrightarrow> sum_list (map f (ws[i := v])) + f (ws ! i) = sum_list (map f ws) + (f v :: nat)"
proof (induction ws arbitrary: i)
  case (Cons w ws)
  then show ?case by (cases i) (auto simp: add.assoc add.left_commute)
qed simp

lemma pool_step_work:
  assumes "pool_step l p = Some p'"
  shows "pool_work p' < pool_work p"
proof (cases l)
  case Owner
  with assms obtain x xs ys q where o: "owner_ops p = x # xs" "op_step x p = Some (ys, q)" "p' = q\<lparr>owner_ops := ys @ xs\<rparr>"
    by (auto simp: pool_step_def split: if_splits list.splits)
  with op_step_work [OF o(2)] op_step_frame [OF o(2)] show ?thesis by (simp add: pool_work_def)
next
  case (Worker i)
  with assms have i: "i < length (workers p)" "worker_step i (workers p ! i) p = Some p'" "crash p = None"
    by (auto simp: pool_step_def split: if_splits)
  note u = sum_list_update_nat [OF i(1), of worker_work]
  show ?thesis
  proof (cases "workers p ! i")
    case W_sema
    with i u [of W_check] show ?thesis by (auto simp: pool_work_def set_worker_def split: if_splits)
  next
    case W_check
    with i u [of W_exit] u [of W_take] show ?thesis by (auto simp: pool_work_def set_worker_def)
  next
    case W_take
    show ?thesis
    proof (cases "tasks p")
      case Nil
      with W_take i show ?thesis by (auto simp: pool_work_def)
    next
      case (Cons t ts)
      obtain j w where t: "t = (j, w)" by (cases t)
      with W_take Cons i u [of "W_run (run_job j w)"] ops_work_run_job [of j w] show ?thesis
        by (auto simp: pool_work_def set_worker_def split: if_splits)
    qed
  next
    case (W_run ops)
    then obtain x xs ys q where o: "ops = x # xs" "op_step x p = Some (ys, q)" "p' = set_worker i (loop_or_run (ys @ xs)) q"
      using i by (cases ops) auto
    have "worker_work (loop_or_run (ys @ xs)) = ops_work (ys @ xs)" by (simp add: loop_or_run_def)
    with W_run o op_step_work [OF o(2)] op_step_frame [OF o(2)] u [of "loop_or_run (ys @ xs)"] i show ?thesis
      by (simp add: pool_work_def set_worker_def)
  qed (use i in simp)
qed

interpretation tp: measured_system pool_step tp_inv pool_work
  by unfold_locales (auto intro: pool_step_inv pool_step_work)

section \<open>Jobs are neither lost nor repeated\<close>

fun job_ids :: "job \<Rightarrow> nat list" where
  "job_ids (Job k gs) = concat (map (\<lambda>js. concat (map job_ids js)) gs) @ [k]"

fun op_ids :: "op \<Rightarrow> nat list" where
  "op_ids (Push j w) = job_ids j"
| "op_ids (Par0 js) = concat (map job_ids js)"
| "op_ids (Par1 js) = concat (map job_ids js)"
| "op_ids (Ran k) = [k]"
| "op_ids _ = []"

definition ops_ids :: "op list \<Rightarrow> nat multiset" where
  "ops_ids ops = mset (concat (map op_ids ops))"

definition total_ids :: "pool \<Rightarrow> nat multiset" where
  "total_ids p = mset (ran p) + ops_ids (owner_ops p) + sum_list (map (ops_ids \<circ> worker_ops) (workers p)) +
     mset (concat (map (job_ids \<circ> fst) (tasks p)))"

lemma ops_ids_simps [simp]:
  "ops_ids [] = {#}" "ops_ids (x # xs) = mset (op_ids x) + ops_ids xs" "ops_ids (xs @ ys) = ops_ids xs + ops_ids ys"
  by (simp_all add: ops_ids_def)

lemma ops_ids_body: "ops_ids (body j) = mset (job_ids j)"
  by (cases j) (simp add: ops_ids_def comp_def)

lemma ops_ids_adds: "ops_ids (concat (map (\<lambda>j. pool_add j w) js)) = mset (concat (map job_ids js))"
  by (induction js) (simp_all add: pool_add_def)

lemma ops_ids_run_job: "ops_ids (run_job j w) = mset (job_ids j)"
  by (simp add: run_job_def ops_ids_body split: option.splits)

lemma op_step_ids:
  assumes "op_step x p = Some (ys, p')"
  shows "mset (ran p') + ops_ids ys + mset (concat (map (job_ids \<circ> fst) (tasks p'))) =
    mset (ran p) + mset (op_ids x) + mset (concat (map (job_ids \<circ> fst) (tasks p)))"
proof (cases x)
  case (Par1 js)
  with assms show ?thesis by (cases js) (auto simp: par1_def ops_ids_adds ops_ids_body)
qed (use assms in \<open>auto simp: par0_def ops_ids_adds split: if_splits\<close>)

lemma sum_list_update_mset:
  "i < length ws \<Longrightarrow> sum_list (map f (ws[i := v])) + f (ws ! i) = sum_list (map f ws) + (f v :: 'a multiset)"
proof (induction ws arbitrary: i)
  case (Cons w ws)
  show ?case
  proof (cases i)
    case (Suc k)
    with Cons.prems have "sum_list (map f (ws[k := v])) + f (ws ! k) = sum_list (map f ws) + f v" by (intro Cons.IH) simp
    with Suc show ?thesis by (simp add: union_assoc)
  qed (simp add: union_ac)
qed simp

lemma exchange:
  fixes R :: "'a multiset"
  assumes "R + Y + T = R0 + X + T0" and "S + X = S0 + Y"
  shows "R + z + S + T = R0 + z + S0 + T0"
proof -
  have "R + z + S + T + (X + Y) = (R + Y + T) + (S + X) + z" by (simp add: union_ac)
  also have "\<dots> = R0 + z + S0 + T0 + (X + Y)" unfolding assms by (simp add: union_ac)
  finally show ?thesis by simp
qed

lemma pool_step_ids:
  assumes "pool_step l p = Some p'" and "crash p' = None"
  shows "total_ids p' = total_ids p"
proof (cases l)
  case Owner
  with assms obtain x xs ys q where o: "owner_ops p = x # xs" "op_step x p = Some (ys, q)" "p' = q\<lparr>owner_ops := ys @ xs\<rparr>"
    by (auto simp: pool_step_def split: if_splits list.splits)
  with op_step_ids [OF o(2)] op_step_frame [OF o(2)] show ?thesis
    by (simp add: total_ids_def union_ac)
next
  case (Worker i)
  with assms have i: "i < length (workers p)" "worker_step i (workers p ! i) p = Some p'"
    by (auto simp: pool_step_def split: if_splits)
  note u = sum_list_update_mset [OF i(1), of "ops_ids \<circ> worker_ops"]
  show ?thesis
  proof (cases "workers p ! i")
    case W_sema
    with i u [of W_check] show ?thesis by (auto simp: total_ids_def set_worker_def split: if_splits)
  next
    case W_check
    with i u [of W_exit] u [of W_take] show ?thesis by (auto simp: total_ids_def set_worker_def)
  next
    case W_take
    with i assms(2) obtain j w ts where t: "tasks p = (j, w) # ts"
        "p' = set_worker i (W_run (run_job j w)) (p\<lparr>tasks := ts, waiting := waiting p - 1, running := running p + 1\<rparr>)"
      by (auto split: list.splits if_splits)
    with W_take u [of "W_run (run_job j w)"] show ?thesis
      by (simp add: total_ids_def set_worker_def ops_ids_run_job union_ac)
  next
    case (W_run ops)
    then obtain x xs ys q where o: "ops = x # xs" "op_step x p = Some (ys, q)" "p' = set_worker i (loop_or_run (ys @ xs)) q"
      using i by (cases ops) auto
    have v: "worker_ops (loop_or_run (ys @ xs)) = ys @ xs" by (simp add: loop_or_run_def)
    let ?S = "sum_list (map (ops_ids \<circ> worker_ops) ((workers p)[i := loop_or_run (ys @ xs)]))"
    have "?S + (mset (op_ids x) + ops_ids xs) = sum_list (map (ops_ids \<circ> worker_ops) (workers p)) + (ops_ids ys + ops_ids xs)"
      using u [of "loop_or_run (ys @ xs)"] W_run o(1) v by simp
    then have "?S + mset (op_ids x) = sum_list (map (ops_ids \<circ> worker_ops) (workers p)) + ops_ids ys"
      by (metis add.assoc add_right_cancel)
    from exchange [OF op_step_ids [OF o(2)] this] op_step_frame [OF o(2)] o(3) show ?thesis
      by (simp add: total_ids_def set_worker_def)
  qed (use i in simp)
qed

end
