(* ===== verification/Pool_Loops.thy ===== *)
theory Pool_Loops
  imports Thread_Pool
begin

text \<open>
  What users of the thread pool get: loops over jobs that do not start loops themselves complete on
  every schedule, whatever the number of workers; loops inside jobs deadlock once all workers wait
  inside one; and the destructor of a pool hangs when jobs are left in the queue.
\<close>

section \<open>Loops over jobs that start no loops\<close>

fun leaf :: "job \<Rightarrow> bool" where
  "leaf (Job k gs) = (gs = [])"

fun flat_op :: "op \<Rightarrow> bool" where
  "flat_op (Push j w) = leaf j"
| "flat_op (Par0 js) = list_all leaf js"
| "flat_op (Par1 js) = list_all leaf js"
| "flat_op Post = True"
| "flat_op (Wg_wait w) = True"
| "flat_op (Ran k) = True"
| "flat_op Wait = True"
| "flat_op _ = False"

fun leaf_op :: "op \<Rightarrow> bool" where
  "leaf_op (Ran k) = True"
| "leaf_op (Done w) = True"
| "leaf_op Fin = True"
| "leaf_op _ = False"

text \<open>Jobs are added one by one only before the first loop.\<close>

fun is_loop :: "op \<Rightarrow> bool" where
  "is_loop (Wg_wait w) = True"
| "is_loop (Par0 js) = True"
| "is_loop (Par1 js) = True"
| "is_loop _ = False"

fun calm :: "op list \<Rightarrow> bool" where
  "calm [] = True"
| "calm (x # xs) = ((is_loop x \<longrightarrow> cnt is_push xs = 0) \<and> calm xs)"

fun startable :: "op \<Rightarrow> bool" where
  "startable (Push j w) = (w = None)"
| "startable (Done w) = False"
| "startable (Wg_wait w) = False"
| "startable Fin = False"
| "startable _ = True"

definition program :: "op list \<Rightarrow> bool" where
  "program prog \<longleftrightarrow> list_all startable prog \<and> paired prog \<and> lean prog \<and> cnt (\<lambda>x. x = Post) prog = cnt is_push prog \<and>
     Wake \<notin> set (takeWhile (\<lambda>x. x \<noteq> Stop) prog)"

definition flat_program :: "op list \<Rightarrow> bool" where
  "flat_program prog \<longleftrightarrow> program prog \<and> list_all flat_op prog \<and> calm prog"

lemma new_pool_inv: "program prog \<Longrightarrow> tp_inv (new_pool n prog)"
proof -
  assume pr: "program prog"
  let ?p = "new_pool n prog"
  have ops: "all_ops ?p = prog" by (simp add: all_ops_def new_pool_def map_replicate_const [symmetric])
  have w: "cnt f (workers ?p) = 0" if "\<not> f W_sema" for f using that by (simp add: new_pool_def cnt_zero)
  have st: "\<forall>x\<in>set prog. startable x" using pr by (simp add: program_def list_all_iff)
  have "cnt (owes v) prog = 0" "cnt (\<lambda>x. x = Fin) prog = 0" for v
    unfolding cnt_zero using st by (metis owes.elims(2) startable.simps(1,2) option.distinct(1), metis startable.simps(4))
  then have "scalars_ok (ops_cnt ?p) ?p" "wg_ok (ops_cnt ?p) ?p v" for v
    unfolding ops by (simp_all add: scalars_ok_def wg_ok_def new_pool_def queued_def)
  moreover have "tokens_ok (ops_cnt ?p) (tokens ?p) ?p"
    using pr w unfolding ops by (simp add: tokens_ok_def tokens_def program_def) (simp add: new_pool_def)
  moreover have "ops_ok 0 prog" using pr st by (auto simp: ops_ok_def program_def)
  then have "shape_ok ?p"
    using pr by (intro shapeI) (auto simp: new_pool_def program_def ops_ok_def lean_def)
  ultimately show ?thesis using w by (simp add: tp_inv_def)
qed

definition flat_ok :: "pool \<Rightarrow> bool" where
  "flat_ok p \<longleftrightarrow> list_all flat_op (owner_ops p) \<and> calm (owner_ops p) \<and> (\<forall>w\<in>set (workers p). list_all leaf_op (worker_ops w)) \<and>
     (\<forall>t\<in>set (tasks p). leaf (fst t)) \<and> \<not> stopped p"

lemma calm_append: "calm xs \<Longrightarrow> calm ys \<Longrightarrow> cnt is_push ys = 0 \<or> (\<forall>x\<in>set xs. \<not> is_loop x) \<Longrightarrow> calm (xs @ ys)"
  by (induction xs) auto

lemma calm_no_loop: "\<forall>x\<in>set xs. \<not> is_loop x \<Longrightarrow> calm xs"
  by (induction xs) auto

lemma flat_owner_step:
  assumes "op_step x p = Some (ys, p')" and "list_all flat_op (x # xs)" and "calm (x # xs)"
  shows "list_all flat_op (ys @ xs) \<and> calm (ys @ xs) \<and> (\<forall>t\<in>set (tasks p'). t \<in> set (tasks p) \<or> leaf (fst t)) \<and> stopped p' = stopped p"
proof -
  have adds: "list_all flat_op (concat (map (\<lambda>j. pool_add j w) js)) \<and> calm (concat (map (\<lambda>j. pool_add j w) js)) \<and>
      (\<forall>x\<in>set (concat (map (\<lambda>j. pool_add j w) js)). \<not> is_loop x)"
    if "list_all leaf js" for js w
    using that by (induction js) (auto simp: pool_add_def)
  have b: "list_all flat_op (body j) \<and> calm (body j) \<and> (\<forall>x\<in>set (body j). \<not> is_loop x)" if "leaf j" for j using that by (cases j) simp
  show ?thesis
  proof (cases x)
    case (Par0 js)
    with assms adds [of js "Some (length (wgs p))"] show ?thesis by (auto simp: par0_def intro!: calm_append)
  next
    case (Par1 js)
    then show ?thesis
    proof (cases js)
      case Nil
      with Par1 assms show ?thesis by simp
    next
      case (Cons j js')
      with Par1 assms adds [of js' "Some (length (wgs p))"] b [of j] show ?thesis by (auto simp: par1_def intro!: calm_append)
    qed
  qed (use assms in \<open>auto split: if_splits\<close>)
qed

lemma leaf_run_job: "leaf j \<Longrightarrow> list_all leaf_op (run_job j w)"
  by (cases j) (simp add: run_job_def split: option.splits)

lemma flat_step: "flat_ok p \<Longrightarrow> pool_step l p = Some p' \<Longrightarrow> flat_ok p'"
proof (cases l)
  case Owner
  assume f: "flat_ok p" and st: "pool_step l p = Some p'"
  then obtain x xs ys q where o: "owner_ops p = x # xs" "op_step x p = Some (ys, q)" "p' = q\<lparr>owner_ops := ys @ xs\<rparr>"
    using Owner by (auto simp: pool_step_def split: if_splits list.splits)
  with f flat_owner_step [OF o(2), of xs] op_step_frame [OF o(2)] show ?thesis by (auto simp: flat_ok_def)
next
  case (Worker i)
  assume f: "flat_ok p" and st: "pool_step l p = Some p'"
  then have i: "i < length (workers p)" "worker_step i (workers p ! i) p = Some p'"
    using Worker by (auto simp: pool_step_def split: if_splits)
  have mem: "workers p ! i \<in> set (workers p)" using i(1) by (rule nth_mem)
  have fs: "flat_ok (set_worker i v q)" if "flat_ok q" "list_all leaf_op (worker_ops v)" for v q
    using that set_update_subset_insert [of "workers q" i v] by (auto simp: flat_ok_def)
  show ?thesis
  proof (cases "workers p ! i")
    case W_sema
    moreover have "flat_ok (p\<lparr>sema := sema p - 1\<rparr>)" using f by (simp add: flat_ok_def)
    ultimately show ?thesis using i fs [of "p\<lparr>sema := sema p - 1\<rparr>" W_check] by (simp split: if_splits)
  next
    case W_check
    with i f show ?thesis by (auto intro!: fs)
  next
    case W_take
    show ?thesis
    proof (cases "tasks p")
      case Nil
      with W_take i f show ?thesis by (auto simp: flat_ok_def)
    next
      case (Cons t ts)
      obtain j w where t: "t = (j, w)" by (cases t)
      let ?q = "p\<lparr>tasks := ts, waiting := waiting p - 1, running := running p + 1\<rparr>"
      have "leaf j" "flat_ok ?q" "flat_ok (p\<lparr>crash := c\<rparr>)" for c using f Cons t by (auto simp: flat_ok_def)
      with W_take Cons t i fs [of ?q "W_run (run_job j w)"] leaf_run_job [of j w] show ?thesis by (auto split: if_splits)
    qed
  next
    case (W_run ops)
    then obtain x xs ys q where o: "ops = x # xs" "op_step x p = Some (ys, q)" "p' = set_worker i (loop_or_run (ys @ xs)) q"
      using i by (cases ops) auto
    have "list_all leaf_op (x # xs)" using f mem W_run o(1) by (auto simp: flat_ok_def)
    with o(2) f have "ys = []" "flat_ok q" by (cases x; auto simp: flat_ok_def split: if_splits)+
    with o(3) fs [of q "loop_or_run xs"] \<open>list_all leaf_op (x # xs)\<close> show ?thesis by (simp add: loop_or_run_def)
  qed (use i in simp)
qed

lemma halted_step: "halted pool_step p \<Longrightarrow> pool_step l p = None"
  by (simp add: halted_def)

lemma flat_idle:
  assumes "tp_inv p" and "flat_ok p" and "halted pool_step p" and "w \<in> set (workers p)"
  shows "w = W_sema \<and> sema p = 0"
proof -
  obtain i where i: "i < length (workers p)" "workers p ! i = w" using assms(4) by (metis in_set_conv_nth)
  have c: "crash p = None" using tp_invD(1) [OF assms(1)] by (simp add: scalars_ok_def)
  have s: "worker_step i w p = None" using halted_step [OF assms(3), of "Worker i"] i c by (simp add: pool_step_def)
  note sh = shapeD [OF tp_invD(5) [OF assms(1)]]
  show ?thesis
  proof (cases w)
    case (W_run ops)
    with sh(4) [OF assms(4)] obtain x xs where ops: "ops = x # xs" by (cases ops) auto
    moreover from this have "leaf_op x" using assms(2,4) W_run by (auto simp: flat_ok_def)
    ultimately show ?thesis using s W_run by (cases x) (auto split: if_splits)
  next
    case W_exit
    then show ?thesis using sh(6) assms(2,4) by (auto simp: flat_ok_def)
  qed (use s in \<open>auto split: if_splits list.splits prod.splits\<close>)
qed

lemma flat_done:
  assumes "tp_inv p" and "flat_ok p" and "halted pool_step p" and "workers p \<noteq> []"
  shows "owner_ops p = [] \<and> tasks p = [] \<and> concat (map worker_ops (workers p)) = []"
proof -
  note iv = tp_invD [OF assms(1)]
  note idle = flat_idle [OF assms(1-3)]
  have sema: "sema p = 0" using idle [of "hd (workers p)"] assms(4) by simp
  have "\<forall>w\<in>set (workers p). worker_ops w = []" using idle worker_ops.simps(2) by metis
  then have wo: "concat (map worker_ops (workers p)) = []" by (simp add: concat_eq_Nil_conv)
  then have ops: "all_ops p = owner_ops p" by (simp add: all_ops_def)
  have "cnt (\<lambda>x. x = W_check) (workers p) = 0" "cnt (\<lambda>x. x = W_take) (workers p) = 0" using idle by (auto simp: cnt_zero)
  then have tk: "cnt (\<lambda>x. x = Post) (owner_ops p) = length (tasks p) + cnt is_push (owner_ops p)"
    using iv(3) sema assms(2) by (simp add: tokens_ok_def tokens_def ops flat_ok_def)
  have st: "pool_step Owner p = None" using assms(3) by (rule halted_step)
  have cr: "crash p = None" using iv(1) by (simp add: scalars_ok_def)
  have "owner_ops p = [] \<or> hd (owner_ops p) \<noteq> Post" using st cr by (cases "owner_ops p") (auto simp: pool_step_def)
  moreover have "lean (owner_ops p)" using shapeD(1) [OF iv(5)] by (simp add: ops_ok_def)
  ultimately have "cnt (\<lambda>x. x = Post) (owner_ops p) \<le> cnt is_push (owner_ops p)"
    by (cases "owner_ops p"; cases "hd (owner_ops p)") (auto simp: lean_def)
  with tk have t: "tasks p = []" by simp
  have fin: "cnt (\<lambda>x. x = Fin) (owner_ops p) = 0" using assms(2) by (auto simp: cnt_zero flat_ok_def list_all_iff)
  then have z: "waiting p = 0" "running p = 0" using iv(1) t by (simp_all add: scalars_ok_def ops)
  have "owner_ops p = []"
  proof (rule ccontr)
    assume "owner_ops p \<noteq> []"
    then obtain x xs where o: "owner_ops p = x # xs" by (cases "owner_ops p") auto
    with st cr have x: "op_step x p = None" by (simp add: pool_step_def)
    moreover have f: "list_all flat_op (x # xs)" "calm (x # xs)" using assms(2) o by (simp_all add: flat_ok_def)
    ultimately obtain w where w: "x = Wg_wait w" "wgs p ! w \<noteq> 0" using z by (cases x) (auto split: if_splits)
    have "w < length (wgs p)" using shapeD(1) [OF iv(5)] o w(1) by (simp add: ops_ok_def)
    then have "wgs p ! w = cnt (owes w) xs" using iv(2) [of w] w(1) o t by (simp add: wg_ok_def ops queued_def)
    moreover have "\<not> owes w y" if "y \<in> set xs" for y
    proof -
      have "flat_op y" "\<not> is_push y" using that f w(1) by (auto simp: cnt_zero list_all_iff)
      then show ?thesis by (cases y rule: op.exhaust) simp_all
    qed
    then have "cnt (owes w) xs = 0" by (simp add: cnt_zero)
    ultimately show False using w(2) by simp
  qed
  with t wo show ?thesis by simp
qed



section \<open>When the owner is faster than the workers\<close>

lemma owner_adds:
  "crash p = None \<Longrightarrow> owner_ops p = concat (map (\<lambda>j. pool_add j w) js) @ rest \<Longrightarrow>
     run_labels pool_step (replicate (2 * length js) Owner) p =
       Some (p\<lparr>tasks := tasks p @ map (\<lambda>j. (j, w)) js, waiting := waiting p + length js, sema := sema p + length js, owner_ops := rest\<rparr>)"
proof (induction js arbitrary: p)
  case (Cons j js)
  let ?p2 = "p\<lparr>tasks := tasks p @ [(j, w)], waiting := waiting p + 1, sema := sema p + 1, owner_ops := concat (map (\<lambda>j. pool_add j w) js) @ rest\<rparr>"
  have "pool_step Owner p = Some (p\<lparr>tasks := tasks p @ [(j, w)], waiting := waiting p + 1, owner_ops := Post # concat (map (\<lambda>j. pool_add j w) js) @ rest\<rparr>)"
    using Cons.prems by (simp add: pool_step_def pool_add_def)
  moreover have "pool_step Owner (p\<lparr>tasks := tasks p @ [(j, w)], waiting := waiting p + 1, owner_ops := Post # concat (map (\<lambda>j. pool_add j w) js) @ rest\<rparr>) = Some ?p2"
    using Cons.prems by (simp add: pool_step_def)
  ultimately have "run_labels pool_step (replicate (2 * length (j # js)) Owner) p = run_labels pool_step (replicate (2 * length js) Owner) ?p2"
    by simp
  also have "\<dots> = Some (?p2\<lparr>tasks := tasks ?p2 @ map (\<lambda>j. (j, w)) js, waiting := waiting ?p2 + length js, sema := sema ?p2 + length js, owner_ops := rest\<rparr>)"
    using Cons.prems by (intro Cons.IH) simp_all
  finally show ?case by simp
qed simp

lemma owner_prefix:
  "run_labels pool_step (replicate (2 * length js + 1) Owner) (new_pool n [Par0 js]) =
     Some (new_pool n [Wg_wait 0]\<lparr>wgs := [length js], tasks := map (\<lambda>j. (j, Some 0)) js, waiting := length js, sema := length js\<rparr>)"
proof -
  let ?s1 = "new_pool n (par0 js 0)\<lparr>wgs := [length js]\<rparr>"
  have "pool_step Owner (new_pool n [Par0 js]) = Some ?s1" by (simp add: pool_step_def new_pool_def)
  moreover have "run_labels pool_step (replicate (2 * length js) Owner) ?s1 =
      Some (?s1\<lparr>tasks := tasks ?s1 @ map (\<lambda>j. (j, Some 0)) js, waiting := waiting ?s1 + length js,
        sema := sema ?s1 + length js, owner_ops := [Wg_wait 0]\<rparr>)"
    by (intro owner_adds) (simp_all add: new_pool_def par0_def)
  ultimately show ?thesis by (simp add: new_pool_def)
qed

section \<open>Loops inside jobs\<close>

text \<open>Jobs that run a loop over at least one job.\<close>

fun nested :: "job \<Rightarrow> bool" where
  "nested (Job k gs) = list_ex (\<lambda>g. g \<noteq> []) gs"

text \<open>Operations that cannot get past a wait for jobs nobody runs.\<close>

fun hopeless :: "nat list \<Rightarrow> op list \<Rightarrow> bool" where
  "hopeless ws [] = False"
| "hopeless ws (Par0 g # xs) = (g \<noteq> [] \<or> hopeless ws xs)"
| "hopeless ws (Wg_wait w # xs) = (w < length ws \<and> ws ! w \<noteq> 0 \<or> hopeless ws xs)"
| "hopeless ws (Push j v # xs) = hopeless ws xs"
| "hopeless ws (Post # xs) = hopeless ws xs"
| "hopeless ws (_ # xs) = False"

fun is_run :: "worker \<Rightarrow> bool" where
  "is_run (W_run ops) = True"
| "is_run _ = False"

definition hang_inv :: "nat \<Rightarrow> job list \<Rightarrow> pool \<Rightarrow> bool" where
  "hang_inv n js p \<longleftrightarrow> owner_ops p = [Wg_wait 0] \<and> wgs p \<noteq> [] \<and> wgs p ! 0 = length js \<and> \<not> stopped p \<and> length (workers p) = n \<and>
     (\<exists>kids. tasks p = map (\<lambda>j. (j, Some 0)) (drop (cnt is_run (workers p)) js) @ kids) \<and>
     (\<forall>ops. W_run ops \<in> set (workers p) \<longrightarrow> hopeless (wgs p) ops)"

lemma hopeless_grow: "hopeless ws ops \<Longrightarrow> hopeless (ws @ vs) ops"
  by (induction ws ops rule: hopeless.induct) (auto simp: nth_append)

lemma hopeless_adds: "hopeless ws (concat (map (\<lambda>j. pool_add j w) js) @ xs) = hopeless ws xs"
  by (induction js) (simp_all add: pool_add_def)

lemma hopeless_run_job: "nested j \<Longrightarrow> hopeless ws (run_job j w)"
proof (cases j)
  case (Job k gs)
  assume "nested j"
  then have "list_ex (\<lambda>g. g \<noteq> []) gs" using Job by simp
  then have "hopeless ws (map Par0 gs @ xs)" for xs by (induction gs) auto
  then show ?thesis using Job by (simp add: run_job_def)
qed

lemma hopeless_step:
  assumes "op_step x p = Some (ys, q)" and "hopeless (wgs p) (x # xs)"
  shows "hopeless (wgs q) (ys @ xs) \<and> (\<exists>vs. wgs q = wgs p @ vs) \<and> (\<exists>ts. tasks q = tasks p @ ts) \<and>
    owner_ops q = owner_ops p \<and> stopped q = stopped p \<and> workers q = workers p"
proof (cases x)
  case (Par0 g)
  with assms show ?thesis by (auto simp: par0_def hopeless_adds nth_append intro: hopeless_grow)
qed (use assms in \<open>auto split: if_splits\<close>)

lemma hang_worker:
  assumes h: "hang_inv n js p" and i: "i < length (workers p)" and v: "\<not> is_run (workers p ! i)" "\<not> is_run v"
    and q: "tasks q = tasks p" "owner_ops q = owner_ops p" "wgs q = wgs p" "stopped q = stopped p" "workers q = workers p"
  shows "hang_inv n js (set_worker i v q)"
proof -
  have "cnt is_run ((workers p)[i := v]) = cnt is_run (workers p)"
    using cnt_update1 [OF i, of is_run v] v by simp
  moreover have "W_run ops \<in> set (workers p)" if "W_run ops \<in> set ((workers p)[i := v])" for ops
    using set_update_subset_insert [of "workers p" i v] that v(2) by auto
  ultimately show ?thesis using h q by (auto simp: hang_inv_def)
qed

lemma cnt_less: "i < length xs \<Longrightarrow> \<not> f (xs ! i) \<Longrightarrow> cnt f xs < length xs"
  unfolding cnt_def by (metis length_filter_less nth_mem)

lemma hang_step:
  assumes h: "hang_inv n js p" and st: "pool_step l p = Some p'" and js: "n \<le> length js" "list_all nested js" "js \<noteq> []"
  shows "hang_inv n js p'"
proof (cases l)
  case Owner
  with h st js(3) show ?thesis by (auto simp: pool_step_def hang_inv_def split: if_splits)
next
  case (Worker i)
  then have i: "i < length (workers p)" "worker_step i (workers p ! i) p = Some p'"
    using st by (auto simp: pool_step_def split: if_splits)
  show ?thesis
  proof (cases "workers p ! i")
    case W_sema
    with i hang_worker [OF h i(1), of W_check "p\<lparr>sema := sema p - 1\<rparr>"] show ?thesis by (simp split: if_splits)
  next
    case W_check
    moreover have "\<not> stopped p" using h by (simp add: hang_inv_def)
    ultimately show ?thesis using i hang_worker [OF h i(1), of W_take p] by simp
  next
    case W_take
    let ?c = "cnt is_run (workers p)"
    have "?c < length js" using cnt_less [OF i(1), of is_run] W_take h js(1) by (simp add: hang_inv_def)
    then have d: "drop ?c js = js ! ?c # drop (Suc ?c) js" "nested (js ! ?c)"
      using js(2) by (simp_all add: Cons_nth_drop_Suc list_all_length)
    obtain kids where t: "tasks p = (js ! ?c, Some 0) # map (\<lambda>j. (j, Some 0)) (drop (Suc ?c) js) @ kids"
      using h unfolding hang_inv_def d(1) by auto
    let ?v = "W_run (run_job (js ! ?c) (Some 0))"
    have c: "cnt is_run ((workers p)[i := ?v]) = Suc ?c" using cnt_update1 [OF i(1), of is_run ?v] W_take by simp
    have hop: "hopeless (wgs p) ops" if "W_run ops \<in> set ((workers p)[i := ?v])" for ops
    proof -
      have "W_run ops \<in> set (workers p) \<or> ops = run_job (js ! ?c) (Some 0)"
        using set_update_subset_insert [of "workers p" i ?v] that by auto
      with h hopeless_run_job [OF d(2)] show ?thesis by (auto simp: hang_inv_def)
    qed
    show ?thesis
    proof (cases "waiting p = 0")
      case True
      with W_take i(2) t h show ?thesis by (auto simp: hang_inv_def)
    next
      case False
      with W_take i(2) t have "p' = set_worker i ?v (p\<lparr>tasks := map (\<lambda>j. (j, Some 0)) (drop (Suc ?c) js) @ kids,
          waiting := waiting p - 1, running := running p + 1\<rparr>)" by simp
      with h hop c show ?thesis by (simp add: hang_inv_def set_worker_def)
    qed
  next
    case (W_run ops)
    then obtain x xs ys q where o: "ops = x # xs" "op_step x p = Some (ys, q)" "p' = set_worker i (loop_or_run (ys @ xs)) q"
      using i by (cases ops) auto
    have "W_run (x # xs) \<in> set (workers p)" using nth_mem [OF i(1)] W_run o(1) by simp
    then have "hopeless (wgs p) (x # xs)" using h by (simp add: hang_inv_def)
    note hs = hopeless_step [OF o(2) this]
    then have "ys @ xs \<noteq> []" by (cases "ys @ xs") auto
    then have v: "loop_or_run (ys @ xs) = W_run (ys @ xs)" by (simp add: loop_or_run_def)
    have c: "cnt is_run ((workers p)[i := W_run (ys @ xs)]) = cnt is_run (workers p)"
      using cnt_update1 [OF i(1), of is_run "W_run (ys @ xs)"] W_run by simp
    have "W_run zs \<in> set (workers p) \<or> zs = ys @ xs" if "W_run zs \<in> set ((workers p)[i := W_run (ys @ xs)])" for zs
      using set_update_subset_insert [of "workers p" i "W_run (ys @ xs)"] that by auto
    with h hs o(3) v c show ?thesis
      by (fastforce simp: hang_inv_def nth_append intro: hopeless_grow)
  qed (use i in simp)
qed

lemma nested_hang:
  assumes "n \<le> length js" and "js \<noteq> []" and "list_all nested js"
    and "run_labels pool_step (replicate (2 * length js + 1) Owner @ ls) (new_pool n [Par0 js]) = Some p"
  shows "owner_ops p = [Wg_wait 0] \<and> wgs p ! 0 = length js \<and> crash p = None \<and> length ls \<le> pool_work (new_pool n [Par0 js])"
proof -
  let ?s = "new_pool n [Par0 js]"
  let ?s2 = "new_pool n [Wg_wait 0]\<lparr>wgs := [length js], tasks := map (\<lambda>j. (j, Some 0)) js, waiting := length js, sema := length js\<rparr>"
  have r: "run_labels pool_step ls ?s2 = Some p"
    using assms(4) by (simp only: run_labels_append owner_prefix option.case)
  have "cnt is_run (replicate n W_sema) = 0" by (simp add: cnt_zero)
  then have h: "hang_inv n js ?s2" by (simp add: hang_inv_def new_pool_def)
  have "hang_inv n js s'" if "hang_inv n js s" "pool_step l s = Some s'" for s l s'
    using that assms(1,3,2) by (rule hang_step)
  from run_labels_keep [where P = "hang_inv n js", OF this h r] have "hang_inv n js p" .
  moreover have "tp_inv p \<and> length (replicate (2 * length js + 1) Owner @ ls) + pool_work p \<le> pool_work ?s"
    by (rule tp.run_good [OF new_pool_inv assms(4)]) (simp add: program_def lean_def)
  ultimately show ?thesis using tp_invD(1) [of p] by (simp add: hang_inv_def scalars_ok_def)
qed

text \<open>A loop over at least as many jobs as the pool has workers, each of which runs a loop over the
  same pool, deadlocks on every schedule in which the owner has added all jobs before the workers start:
  the owner never gets past its wait, although the execution is finite.\<close>

theorem nested_loops_deadlock:
  assumes "n \<le> length js" and "js \<noteq> []" and "list_all nested js"
    and "run_labels pool_step (replicate (2 * length js + 1) Owner @ ls) (new_pool n [Par0 js]) = Some p"
  shows "owner_ops p = [Wg_wait 0] \<and> wgs p ! 0 = length js \<and> crash p = None \<and> length ls \<le> pool_work (new_pool n [Par0 js])"
  using assms by (rule nested_hang)

theorem nested_loops_deadlock_witness:
  "\<exists>p. run_labels pool_step (replicate (2 * length [Job 0 [[Job 1 []]]] + 1) Owner @ [Worker 0]) (new_pool 1 [Par0 [Job 0 [[Job 1 []]]]]) = Some p \<and>
    owner_ops p = [Wg_wait 0] \<and> wgs p ! 0 = length [Job 0 [[Job 1 []]]]"
proof -
  let ?js = "[Job 0 [[Job 1 []]]]"
  obtain p where p: "run_labels pool_step (replicate (2 * length ?js + 1) Owner @ [Worker 0]) (new_pool 1 [Par0 ?js]) = Some p"
    by (simp add: pool_step_def new_pool_def par0_def pool_add_def numeral_3_eq_3)
  from nested_loops_deadlock [OF _ _ _ p] p show ?thesis by auto
qed

section \<open>The destructor\<close>

text \<open>A stopped pool: no worker takes a job any more.\<close>

fun parked :: "worker \<Rightarrow> bool" where
  "parked W_take = False"
| "parked (W_run ops) = False"
| "parked _ = True"

lemma list_all_update: "list_all f xs \<Longrightarrow> f v \<Longrightarrow> list_all f (xs[i := v])"
  using set_update_subset_insert [of xs i v] by (auto simp: list_all_iff)

definition dead_inv :: "nat \<Rightarrow> job list \<Rightarrow> op list \<Rightarrow> pool \<Rightarrow> bool" where
  "dead_inv n js rest p \<longleftrightarrow> stopped p \<and> owner_ops p = rest \<and> tasks p = map (\<lambda>j. (j, None)) js \<and> waiting p = length js \<and> ran p = [] \<and>
     list_all parked (workers p) \<and> crash p = None"

lemma dead_step:
  assumes d: "dead_inv n js (Wait # rest) p" and st: "pool_step l p = Some p'" and "js \<noteq> []"
  shows "dead_inv n js (Wait # rest) p'"
proof (cases l)
  case Owner
  with d st assms(3) show ?thesis by (auto simp: pool_step_def dead_inv_def split: if_splits)
next
  case (Worker i)
  then have i: "i < length (workers p)" "worker_step i (workers p ! i) p = Some p'"
    using st by (auto simp: pool_step_def split: if_splits)
  have "parked (workers p ! i)" using i(1) d by (simp add: dead_inv_def list_all_length)
  moreover have "list_all parked ((workers p)[i := W_check])" "list_all parked ((workers p)[i := W_exit])"
    using d by (simp_all add: dead_inv_def list_all_update)
  ultimately show ?thesis using i(2) d by (cases "workers p ! i") (auto simp: dead_inv_def set_worker_def split: if_splits)
qed

lemma owner_wakes:
  "crash p = None \<Longrightarrow> owner_ops p = replicate m Wake @ rest \<Longrightarrow>
     run_labels pool_step (replicate m Owner) p = Some (p\<lparr>sema := sema p + m, owner_ops := rest\<rparr>)"
proof (induction m arbitrary: p)
  case (Suc m)
  let ?p = "p\<lparr>sema := sema p + 1, owner_ops := replicate m Wake @ rest\<rparr>"
  have "pool_step Owner p = Some ?p" using Suc.prems by (simp add: pool_step_def)
  moreover have "run_labels pool_step (replicate m Owner) ?p = Some (?p\<lparr>sema := sema ?p + m, owner_ops := rest\<rparr>)"
    using Suc.prems by (intro Suc.IH) simp_all
  ultimately show ?case by simp
qed simp



end
