(* ===== verification/Channel.thy ===== *)
theory Channel
  imports Registry Address
begin

text \<open>
  Bounded queues between threads (\<open>include/stdml/bits/collective/channel.hpp\<close>) and the mailboxes
  made of them (\<open>mailbox.hpp\<close>). A blocking operation returns \<open>None\<close> while its wait condition is
  false. The two threads that meet on a \<open>queue_pair\<close>, one in \<open>get\<close> and one in \<open>put\<close>, are a transition
  system whose steps are the parts of these functions between two waits.
\<close>

section \<open>Channels\<close>

record 'a channel =
  ch_cap :: nat
  ch_buffer :: "'a list"

definition new_channel :: "nat \<Rightarrow> 'a channel" where
  "new_channel n = \<lparr>ch_cap = n, ch_buffer = []\<rparr>"

definition ch_get :: "'a channel \<Rightarrow> ('a \<times> 'a channel) option" where
  "ch_get c = (case ch_buffer c of [] \<Rightarrow> None | x # xs \<Rightarrow> Some (x, c\<lparr>ch_buffer := xs\<rparr>))"

definition try_get :: "'a channel \<Rightarrow> 'a option \<times> 'a channel" where
  "try_get c = (case ch_buffer c of [] \<Rightarrow> (None, c) | x # xs \<Rightarrow> (Some x, c\<lparr>ch_buffer := xs\<rparr>))"

definition ch_put :: "'a \<Rightarrow> 'a channel \<Rightarrow> 'a channel option" where
  "ch_put x c = (if length (ch_buffer c) < ch_cap c then Some (c\<lparr>ch_buffer := ch_buffer c @ [x]\<rparr>) else None)"

section \<open>Rendezvous on a queue pair\<close>

record queue_pair =
  waitQ :: "nat channel"
  recvQ :: "nat channel"

definition new_queue_pair :: queue_pair where
  "new_queue_pair = \<lparr>waitQ = new_channel 1, recvQ = new_channel 1\<rparr>"

text \<open>
  A thread that calls \<open>get\<close> for each pointer of a list, and a thread that calls \<open>put\<close> with a
  function that writes the next body of a list.
\<close>

datatype getter = Offer "nat list" | Await nat "nat list" | Aborted
datatype putter = Take "byte list list" | Write nat "byte list" "byte list list" | Give nat "byte list list"

record meeting =
  q :: queue_pair
  g_side :: getter
  p_side :: putter
  written :: "(nat \<times> byte list) list"

definition meeting_start :: "nat list \<Rightarrow> byte list list \<Rightarrow> meeting" where
  "meeting_start ps ds = \<lparr>q = new_queue_pair, g_side = Offer ps, p_side = Take ds, written = []\<rparr>"

definition qp_get_step :: "meeting \<Rightarrow> meeting option" where
  "qp_get_step m = (case g_side m of
       Offer [] \<Rightarrow> None
     | Offer (p # ps) \<Rightarrow>
         map_option (\<lambda>w. m\<lparr>q := (q m)\<lparr>waitQ := w\<rparr>, g_side := Await p ps\<rparr>) (ch_put p (waitQ (q m)))
     | Await p ps \<Rightarrow>
         map_option (\<lambda>(x, r). m\<lparr>q := (q m)\<lparr>recvQ := r\<rparr>, g_side := if p = x then Offer ps else Aborted\<rparr>)
           (ch_get (recvQ (q m)))
     | Aborted \<Rightarrow> None)"

definition qp_put_step :: "meeting \<Rightarrow> meeting option" where
  "qp_put_step m = (case p_side m of
       Take [] \<Rightarrow> None
     | Take (d # ds) \<Rightarrow>
         map_option (\<lambda>(p, w). m\<lparr>q := (q m)\<lparr>waitQ := w\<rparr>, p_side := Write p d ds\<rparr>) (ch_get (waitQ (q m)))
     | Write p d ds \<Rightarrow> Some (m\<lparr>p_side := Give p ds, written := written m @ [(p, d)]\<rparr>)
     | Give p ds \<Rightarrow> map_option (\<lambda>r. m\<lparr>q := (q m)\<lparr>recvQ := r\<rparr>, p_side := Take ds\<rparr>) (ch_put p (recvQ (q m))))"

inductive meets :: "meeting \<Rightarrow> meeting \<Rightarrow> bool" for m0 where
  meets_refl: "meets m0 m0"
| meets_get: "meets m0 m \<Longrightarrow> qp_get_step m = Some m' \<Longrightarrow> meets m0 m'"
| meets_put: "meets m0 m \<Longrightarrow> qp_put_step m = Some m' \<Longrightarrow> meets m0 m'"

section \<open>Mailboxes\<close>

record 'b mailbox =
  mb_boxes :: "peer_id \<times> string \<rightharpoonup> nat"
  mb_store :: "'b list"

definition new_mailbox :: "'b mailbox" where
  "new_mailbox = \<lparr>mb_boxes = Map.empty, mb_store = []\<rparr>"

text \<open>\<open>require\<close>, with the box that \<open>new Box\<close> creates.\<close>

definition mb_require :: "'b \<Rightarrow> peer_id \<times> string \<Rightarrow> 'b mailbox \<Rightarrow> nat \<times> 'b mailbox" where
  "mb_require box k mb = (case mb_boxes mb k of
       Some p \<Rightarrow> (p, mb)
     | None \<Rightarrow> (let p = length (mb_store mb) in
         (p, mb\<lparr>mb_boxes := (mb_boxes mb)(k \<mapsto> p), mb_store := mb_store mb @ [box]\<rparr>)))"

definition mb_inv :: "'b mailbox \<Rightarrow> bool" where
  "mb_inv mb \<longleftrightarrow> table_inv (mb_boxes mb) (length (mb_store mb))"

section \<open>First in, first out\<close>

datatype 'x chan_op = Put 'x | Get

fun chan_run :: "('x \<Rightarrow> 'c \<Rightarrow> 'c option) \<Rightarrow> ('c \<Rightarrow> ('x \<times> 'c) option) \<Rightarrow> 'x chan_op list \<Rightarrow> 'c \<Rightarrow> ('x list \<times> 'c) option" where
  "chan_run put get [] c = Some ([], c)"
| "chan_run put get (Put x # os) c = Option.bind (put x c) (chan_run put get os)"
| "chan_run put get (Get # os) c = Option.bind (get c) (\<lambda>(x, c'). map_option (\<lambda>(xs, c''). (x # xs, c'')) (chan_run put get os c'))"

fun puts :: "'x chan_op list \<Rightarrow> 'x list" where
  "puts [] = []"
| "puts (Put x # os) = x # puts os"
| "puts (Get # os) = puts os"

text \<open>The contract of a bounded queue.\<close>

locale bounded_queue =
  fixes put :: "'x \<Rightarrow> 'c \<Rightarrow> 'c option"
    and get :: "'c \<Rightarrow> ('x \<times> 'c) option"
    and content :: "'c \<Rightarrow> 'x list"
    and capacity :: "'c \<Rightarrow> nat"
  assumes put_some: "put x c = Some c' \<Longrightarrow> content c' = content c @ [x] \<and> capacity c' = capacity c"
    and put_none: "put x c = None \<longleftrightarrow> capacity c \<le> length (content c)"
    and get_some: "get c = Some (x, c') \<Longrightarrow> content c = x # content c' \<and> capacity c' = capacity c"
    and get_none: "get c = None \<longleftrightarrow> content c = []"
begin

lemma run_fifo:
  "chan_run put get os c = Some (xs, c') \<Longrightarrow> content c @ puts os = xs @ content c'"
  by (induction os arbitrary: c xs rule: puts.induct) (fastforce simp: bind_eq_Some_conv dest!: put_some get_some)+

lemma run_bound:
  "chan_run put get os c = Some (xs, c') \<Longrightarrow> length (content c) \<le> capacity c \<Longrightarrow>
     length (content c') \<le> capacity c' \<and> capacity c' = capacity c"
proof (induction os arbitrary: c xs rule: puts.induct)
  case (2 x os)
  then obtain c1 where c1: "put x c = Some c1" "chan_run put get os c1 = Some (xs, c')"
    by (auto simp: bind_eq_Some_conv)
  have "length (content c) < capacity c" using put_none [of x c] c1(1) by (simp add: not_le)
  with put_some [OF c1(1)] have "length (content c1) \<le> capacity c1" by simp
  with 2(1) [OF c1(2)] put_some [OF c1(1)] show ?case by simp
next
  case (3 os)
  then obtain x c1 ys where c1: "get c = Some (x, c1)" "chan_run put get os c1 = Some (ys, c')"
    by (auto simp: bind_eq_Some_conv)
  have "length (content c1) \<le> capacity c1" using get_some [OF c1(1)] 3(3) by simp
  with 3(1) [OF c1(2)] get_some [OF c1(1)] show ?case by simp
qed simp

end

section \<open>Channels and mailboxes keep their contracts\<close>

interpretation ch: bounded_queue ch_put ch_get ch_buffer ch_cap
  by unfold_locales (auto simp: ch_put_def ch_get_def split: if_splits list.splits)

interpretation mb: registry mb_boxes "mb_require box" mb_inv for box :: 'b
proof
  fix s :: "'b mailbox" and k p s'
  assume i: "mb_inv s" and r: "mb_require box k s = (p, s')"
  show "mb_inv s'"
    using i r by (auto simp: mb_inv_def mb_require_def Let_def split: option.splits)
  show "mb_boxes s' k' = (if k' = k then Some p else mb_boxes s k')" for k'
    using r by (auto simp: mb_require_def Let_def split: option.splits)
qed (auto simp: mb_require_def mb_inv_def dest: table_inv_inj)

lemma new_mailbox_inv [simp]: "mb_inv new_mailbox"
  by (simp add: mb_inv_def new_mailbox_def)

section \<open>Meetings\<close>

text \<open>
  The phases of a meeting of a getter with the pointers \<open>ps\<close> and a putter with the bodies \<open>ds\<close>: both
  idle; a pointer offered; the pointer taken; the body written; the pointer given back.
\<close>

definition meeting_inv :: "nat list \<Rightarrow> byte list list \<Rightarrow> meeting \<Rightarrow> bool" where
  "meeting_inv ps0 ds0 m \<longleftrightarrow> ch_cap (waitQ (q m)) = 1 \<and> ch_cap (recvQ (q m)) = 1 \<and>
     (\<exists>ps ds. (g_side m = Offer ps \<and> p_side m = Take ds \<and> ch_buffer (waitQ (q m)) = [] \<and> ch_buffer (recvQ (q m)) = [] \<and>
         written m @ zip ps ds = zip ps0 ds0) \<or>
       (\<exists>p. g_side m = Await p ps \<and>
         (p_side m = Take ds \<and> ch_buffer (waitQ (q m)) = [p] \<and> ch_buffer (recvQ (q m)) = [] \<and>
            written m @ zip (p # ps) ds = zip ps0 ds0 \<or>
          (\<exists>d. p_side m = Write p d ds \<and> ch_buffer (waitQ (q m)) = [] \<and> ch_buffer (recvQ (q m)) = [] \<and>
            written m @ (p, d) # zip ps ds = zip ps0 ds0) \<or>
          p_side m = Give p ds \<and> ch_buffer (waitQ (q m)) = [] \<and> ch_buffer (recvQ (q m)) = [] \<and>
            written m @ zip ps ds = zip ps0 ds0 \<or>
          p_side m = Take ds \<and> ch_buffer (waitQ (q m)) = [] \<and> ch_buffer (recvQ (q m)) = [p] \<and>
            written m @ zip ps ds = zip ps0 ds0)))"

lemma meeting_inv_start: "meeting_inv ps ds (meeting_start ps ds)"
  by (simp add: meeting_inv_def meeting_start_def new_queue_pair_def new_channel_def)

lemma meeting_inv_get: "meeting_inv ps ds m \<Longrightarrow> qp_get_step m = Some m' \<Longrightarrow> meeting_inv ps ds m'"
  unfolding meeting_inv_def qp_get_step_def
  by (auto simp: ch_put_def ch_get_def split: getter.splits list.splits if_splits)

lemma meeting_inv_put: "meeting_inv ps ds m \<Longrightarrow> qp_put_step m = Some m' \<Longrightarrow> meeting_inv ps ds m'"
  unfolding meeting_inv_def qp_put_step_def
  by (auto simp: ch_put_def ch_get_def split: putter.splits list.splits if_splits)

lemma meets_inv: "meets (meeting_start ps ds) m \<Longrightarrow> meeting_inv ps ds m"
  by (induction rule: meets.induct) (auto intro: meeting_inv_start meeting_inv_get meeting_inv_put)

text \<open>Steps a meeting can still take.\<close>

definition meeting_work :: "meeting \<Rightarrow> nat" where
  "meeting_work m =
     (case g_side m of Offer ps \<Rightarrow> 2 * length ps | Await p ps \<Rightarrow> 2 * length ps + 1 | Aborted \<Rightarrow> 0) +
     (case p_side m of Take ds \<Rightarrow> 3 * length ds | Write p d ds \<Rightarrow> 3 * length ds + 2 | Give p ds \<Rightarrow> 3 * length ds + 1)"

lemma meeting_work_get: "qp_get_step m = Some m' \<Longrightarrow> meeting_work m' < meeting_work m"
  by (cases "g_side m") (auto simp: qp_get_step_def meeting_work_def split: list.splits)

lemma meeting_work_put: "qp_put_step m = Some m' \<Longrightarrow> meeting_work m' < meeting_work m"
  by (cases "p_side m") (auto simp: qp_put_step_def meeting_work_def split: list.splits)

section \<open>Properties\<close>

text \<open>A channel is first in, first out and never holds more than its capacity: after any sequence of
  operations that did not block, what was put is what was taken, in order, followed by the content. A put
  blocks exactly on a full channel and a get exactly on an empty one, where \<open>try_get\<close> returns nothing.\<close>

theorem channel_fifo:
  assumes "chan_run ch_put ch_get os (new_channel n) = Some (xs, c)"
  shows "puts os = xs @ ch_buffer c \<and> length (ch_buffer c) \<le> n \<and>
    (ch_put x c = None \<longleftrightarrow> length (ch_buffer c) = n) \<and> (ch_get c = None \<longleftrightarrow> xs = puts os) \<and>
    try_get c = (case ch_get c of None \<Rightarrow> (None, c) | Some (y, c') \<Rightarrow> (Some y, c'))"
proof -
  have f: "puts os = xs @ ch_buffer c" using ch.run_fifo [OF assms] by (simp add: new_channel_def)
  have b: "length (ch_buffer c) \<le> n" "ch_cap c = n" using ch.run_bound [OF assms] by (simp_all add: new_channel_def)
  have "try_get c = (case ch_get c of None \<Rightarrow> (None, c) | Some (y, c') \<Rightarrow> (Some y, c'))"
    by (simp add: try_get_def ch_get_def split: list.splits)
  then show ?thesis using f b ch.put_none [of x c] ch.get_none [of c] by auto
qed

theorem channel_fifo_witness:
  "\<exists>xs c. chan_run ch_put ch_get [Put 5, Put 6, Get] (new_channel 2) = Some (xs, c) \<and>
    puts [Put 5, Put 6, Get] = xs @ ch_buffer c \<and> length (ch_buffer c) \<le> 2 \<and>
    (ch_put (7 :: nat) c = None \<longleftrightarrow> length (ch_buffer c) = 2)"
proof -
  have r: "chan_run ch_put ch_get [Put 5, Put 6, Get] (new_channel 2) = Some ([5], \<lparr>ch_cap = 2, ch_buffer = [6 :: nat]\<rparr>)"
    by (simp add: new_channel_def ch_put_def ch_get_def)
  note f = channel_fifo [OF r, of 7]
  show ?thesis by (rule exI [of _ "[5]"], rule exI [of _ "\<lparr>ch_cap = 2, ch_buffer = [6]\<rparr>"]) (use r f in blast)
qed

text \<open>When one thread calls \<open>get\<close> for a list of pointers and one thread calls \<open>put\<close> for a list of
  bodies on the same queue pair, every interleaving ends, the assertion in \<open>get\<close> never fails, each body
  is written to the pointer it belongs to, in order, and the threads only stop when no pair is left.\<close>

theorem queue_pair_rendezvous:
  assumes "meets (meeting_start ps ds) m"
  shows "g_side m \<noteq> Aborted \<and> (\<exists>rest. written m @ rest = zip ps ds) \<and>
    (qp_get_step m = None \<longrightarrow> qp_put_step m = None \<longrightarrow> written m = zip ps ds) \<and>
    (\<forall>m'. qp_get_step m = Some m' \<or> qp_put_step m = Some m' \<longrightarrow> meeting_work m' < meeting_work m)"
proof -
  note inv = meets_inv [OF assms, unfolded meeting_inv_def]
  have "g_side m \<noteq> Aborted \<and> (\<exists>rest. written m @ rest = zip ps ds)" using inv by fastforce
  moreover have "written m = zip ps ds" if "qp_get_step m = None" "qp_put_step m = None"
    using inv that by (auto simp: qp_get_step_def qp_put_step_def ch_put_def ch_get_def split: list.splits)
  ultimately show ?thesis using meeting_work_get meeting_work_put by blast
qed

theorem queue_pair_rendezvous_witness:
  "(let m = \<lparr>q = \<lparr>waitQ = new_channel 1, recvQ = new_channel 1\<rparr>, g_side = Await 7 [], p_side = Write 7 [1, 2] [], written = []\<rparr> in
    g_side m \<noteq> Aborted \<and> (\<exists>rest. written m @ rest = zip [7] [[1, 2]]))"
proof -
  let ?s = "meeting_start [7] [[1, 2]]"
  let ?m = "\<lparr>q = \<lparr>waitQ = new_channel 1, recvQ = new_channel 1\<rparr>, g_side = Await 7 [], p_side = Write 7 [1, 2] [], written = []\<rparr>"
  let ?m1 = "\<lparr>q = \<lparr>waitQ = \<lparr>ch_cap = 1, ch_buffer = [7]\<rparr>, recvQ = new_channel 1\<rparr>, g_side = Await 7 [], p_side = Take [[1, 2]], written = []\<rparr>"
  have "meets ?s ?m1"
    by (rule meets_get [OF meets_refl]) (simp add: qp_get_step_def ch_put_def meeting_start_def new_queue_pair_def new_channel_def)
  then have "meets ?s ?m" by (rule meets_put) (simp add: qp_put_step_def ch_get_def new_channel_def)
  from queue_pair_rendezvous [OF this] show ?thesis unfolding Let_def by blast
qed

text \<open>A mailbox hands out the same box twice exactly for the same peer and name.\<close>

theorem mailbox_require_same_iff:
  assumes "require_all (mb_require box) ks new_mailbox = (ps, mb)" and "i < length ks" and "j < length ks"
  shows "ps ! i = ps ! j \<longleftrightarrow> ks ! i = ks ! j"
  using mb.require_same_iff [OF new_mailbox_inv assms] .

theorem mailbox_require_same_iff_witness:
  "(let a = \<lparr>ipv4 = 1, port = 2\<rparr>; ks = [(a, ''x''), (a, ''y''), (a, ''x'')] in
    \<exists>ps mb. require_all (mb_require (new_channel 1 :: nat channel)) ks new_mailbox = (ps, mb) \<and> (ps ! 0 = ps ! 2 \<longleftrightarrow> ks ! 0 = ks ! 2))"
proof -
  let ?a = "\<lparr>ipv4 = 1, port = 2\<rparr>"
  let ?ks = "[(?a, ''x''), (?a, ''y''), (?a, ''x'')]"
  obtain ps mb where r: "require_all (mb_require (new_channel 1 :: nat channel)) ?ks new_mailbox = (ps, mb)" by fastforce
  from mailbox_require_same_iff [OF r, of 0 2] r show ?thesis unfolding Let_def by (intro exI conjI) simp_all
qed

end
