(* ===== verification/Task.thy ===== *)
theory Task
  imports Channel
begin

text \<open>
  Pollable tasks: \<open>include/stdml/bits/collective/task.hpp\<close> and \<open>src/stdml/collective/task.cpp\<close>, without
  a runtime (parallel tasks with a runtime block on its thread pool, see \<open>Async\<close>).

  A task works on a state of type \<open>'s\<close>. A leaf is a task class of its own: what one call of \<open>poll\<close>
  does to the state and whether it sets \<open>finished_\<close>; \<open>simple_task\<close> is the leaf that does its work in
  one call and nothing afterwards. The lemmas show that polling a task that has not finished makes
  progress, that \<open>finish\<close> returns as soon as its leaves do, and that tasks in sequence run one after
  the other.
\<close>

section \<open>Tasks\<close>

datatype 's task =
    Noop
  | Simple "'s \<Rightarrow> 's" bool
  | Leaf "'s \<Rightarrow> 's \<times> bool" bool
  | Monitored "'s task" nat
  | Seq "'s task list" nat
  | Par "(bool \<times> 's task) list" nat

definition simple_task :: "('s \<Rightarrow> 's) \<Rightarrow> 's task" where
  "simple_task f = Simple f False"

definition monitored_task :: "'s task \<Rightarrow> 's task" where
  "monitored_task t = Monitored t 0"

definition sequence_tasks :: "'s task list \<Rightarrow> 's task" where
  "sequence_tasks ts = Seq ts 0"

definition parallel_tasks :: "'s task list \<Rightarrow> 's task" where
  "parallel_tasks ts = Par (map (\<lambda>t. (False, t)) ts) (length ts)"

fun task_finished :: "'s task \<Rightarrow> bool" where
  "task_finished Noop = True"
| "task_finished (Simple f b) = b"
| "task_finished (Leaf f b) = b"
| "task_finished (Monitored t n) = task_finished t"
| "task_finished (Seq ts i) = (i = length ts)"
| "task_finished (Par ts r) = (r = 0)"

lemma size_nth_task: "i < length ts \<Longrightarrow> size (ts ! i) < Suc (size_list size ts)"
  by (metis le_imp_less_Suc nth_mem order_refl size_list_estimation')

lemma size_slot: "size_prod (\<lambda>_. 0) size = (\<lambda>x. Suc (size (snd x)))"
  by (auto simp: fun_eq_iff)

text \<open>
  One call of \<open>poll\<close>. A sequence polls its current task; a parallel task polls all its unfinished
  tasks in turn and counts those that finish.
\<close>

function (sequential) poll :: "'s task \<Rightarrow> 's \<Rightarrow> 's task \<times> 's"
  and poll_all :: "(bool \<times> 's task) list \<Rightarrow> nat \<Rightarrow> 's \<Rightarrow> (bool \<times> 's task) list \<times> nat \<times> 's" where
  "poll Noop s = (Noop, s)"
| "poll (Simple f b) s = (if b then (Simple f b, s) else (Simple f True, f s))"
| "poll (Leaf f b) s = (let (s', d) = f s in (Leaf f (b \<or> d), s'))"
| "poll (Monitored t n) s = (let (t', s') = poll t s in (Monitored t' (n + 1), s'))"
| "poll (Seq ts i) s =
     (if i < length ts then
        (let (t', s') = poll (ts ! i) s in (Seq (ts[i := t']) (if task_finished t' then i + 1 else i), s'))
      else (Seq ts i, s))"
| "poll (Par ts r) s =
     (if r = 0 then (Par ts r, s)
      else (let (ts', r', s') = poll_all ts r s in (Par ts' r', s')))"
| "poll_all [] r s = ([], r, s)"
| "poll_all ((d, t) # ts) r s =
     (if d then (let (ts', r', s') = poll_all ts r s in ((d, t) # ts', r', s'))
      else
        (let (t', s1) = poll t s;
             (ts', r', s') = poll_all ts (if task_finished t' then r - 1 else r) s1
         in ((task_finished t', t') # ts', r', s')))"
  by pat_completeness auto
termination
  by (relation "measure (\<lambda>x. case x of Inl (t, _) \<Rightarrow> size t | Inr (ts, _, _) \<Rightarrow> size_list (\<lambda>x. Suc (size (snd x))) ts)")
    (auto simp: size_nth_task size_slot)

text \<open>\<open>task::finish\<close> polls until the task has finished.\<close>

partial_function (option) finish :: "'s task \<Rightarrow> 's \<Rightarrow> ('s task \<times> 's) option" where
  "finish t s = (if task_finished t then Some (t, s) else (case poll t s of (t', s') \<Rightarrow> finish t' s'))"

declare poll.simps [simp del] poll_all.simps [simp del]

section \<open>Progress\<close>

text \<open>
  \<open>wf_task\<close>: counters are what they count. \<open>patient \<mu>\<close>: every leaf that does not finish in a call uses up
  some of the time \<open>\<mu>\<close> that it still has to wait, and no task adds to it.
\<close>

definition open_slots :: "(bool \<times> 's task) list \<Rightarrow> nat" where
  "open_slots ts = length (filter (\<lambda>x. \<not> fst x) ts)"

fun wf_task :: "'s task \<Rightarrow> bool" where
  "wf_task (Monitored t n) = wf_task t"
| "wf_task (Seq ts i) = (i \<le> length ts \<and> (\<forall>t\<in>set ts. wf_task t))"
| "wf_task (Par ts r) = (r = open_slots ts \<and> (\<forall>x\<in>set ts. wf_task (snd x)))"
| "wf_task _ = True"

fun patient :: "('s \<Rightarrow> nat) \<Rightarrow> 's task \<Rightarrow> bool" where
  "patient \<mu> (Simple f b) = (\<forall>s. \<mu> (f s) \<le> \<mu> s)"
| "patient \<mu> (Leaf f b) = (\<forall>s. if snd (f s) then \<mu> (fst (f s)) \<le> \<mu> s else \<mu> (fst (f s)) < \<mu> s)"
| "patient \<mu> (Monitored t n) = patient \<mu> t"
| "patient \<mu> (Seq ts i) = (\<forall>t\<in>set ts. patient \<mu> t)"
| "patient \<mu> (Par ts r) = (\<forall>x\<in>set ts. patient \<mu> (snd x))"
| "patient \<mu> Noop = True"

text \<open>Calls of \<open>poll\<close> that find a task unfinished.\<close>

fun work :: "'s task \<Rightarrow> nat" where
  "work (Simple f b) = (if b then 0 else 1)"
| "work (Leaf f b) = (if b then 0 else 1)"
| "work (Monitored t n) = work t"
| "work (Seq ts i) = sum_list (drop i (map (\<lambda>t. 1 + work t) ts))"
| "work (Par ts r) = sum_list (map (\<lambda>x. if fst x then 0 else 1 + work (snd x)) ts)"
| "work Noop = 0"

definition slot_work :: "(bool \<times> 's task) list \<Rightarrow> nat" where
  "slot_work ts = sum_list (map (\<lambda>x. if fst x then 0 else 1 + work (snd x)) ts)"

lemma poll_finished: "task_finished t \<Longrightarrow> poll t s = (t', s') \<Longrightarrow> task_finished t'"
  by (induction t arbitrary: s t' s') (auto simp: poll.simps split: prod.splits if_splits)

lemma sum_drop_update:
  fixes xs :: "nat list"
  assumes "i < length xs"
  shows "sum_list (drop i (xs[i := v])) = v + sum_list (drop (Suc i) xs)" "sum_list (drop i xs) = xs ! i + sum_list (drop (Suc i) xs)"
    "drop (Suc i) (xs[i := v]) = drop (Suc i) xs"
  using assms by (simp_all add: Cons_nth_drop_Suc [symmetric])

lemma poll_progress:
  "poll t s = (t', s') \<Longrightarrow> wf_task t \<Longrightarrow> patient \<mu> t \<Longrightarrow>
     wf_task t' \<and> patient \<mu> t' \<and> \<mu> s' \<le> \<mu> s \<and> work t' \<le> work t \<and> (task_finished t \<or> work t' + \<mu> s' < work t + \<mu> s)"
  "poll_all ts r s = (ts', r', s') \<Longrightarrow> open_slots ts \<le> r \<Longrightarrow> \<forall>x\<in>set ts. wf_task (snd x) \<and> patient \<mu> (snd x) \<Longrightarrow>
     (\<forall>x\<in>set ts'. wf_task (snd x) \<and> patient \<mu> (snd x)) \<and> \<mu> s' \<le> \<mu> s \<and> r' + open_slots ts = r + open_slots ts' \<and>
     slot_work ts' \<le> slot_work ts \<and> (open_slots ts = 0 \<or> slot_work ts' + \<mu> s' < slot_work ts + \<mu> s)"
proof (induction t s and ts r s arbitrary: t' s' and ts' r' s' rule: poll_poll_all.induct)
  case (2 f b s)
  from "2.prems"(3) have "\<mu> (f s) \<le> \<mu> s" by simp
  then have "\<mu> (f s) < Suc (\<mu> s)" by simp
  with 2 \<open>\<mu> (f s) \<le> \<mu> s\<close> show ?case by (auto simp: poll.simps split: if_splits)
next
  case (3 f b s)
  obtain s1 d where f: "f s = (s1, d)" by fastforce
  from "3.prems"(3) have "if snd (f s) then \<mu> (fst (f s)) \<le> \<mu> s else \<mu> (fst (f s)) < \<mu> s" unfolding patient.simps by (rule spec)
  with 3 f show ?case by (auto simp: poll.simps split: if_splits)
next
  case (5 ts i s)
  show ?case
  proof (cases "i < length ts")
    case True
    obtain u s1 where u: "poll (ts ! i) s = (u, s1)" by fastforce
    have t': "t' = Seq (ts[i := u]) (if task_finished u then i + 1 else i)" "s' = s1"
      using "5.prems"(1) u True by (auto simp: poll.simps)
    have wp: "wf_task (ts ! i)" "patient \<mu> (ts ! i)" using "5.prems"(2,3) True by simp_all
    note ih = "5.IH" [OF True u wp]
    let ?w = "map (\<lambda>t. 1 + work t) ts"
    have i: "i < length ?w" using True by simp
    note sd = sum_drop_update(1) [OF i, of "1 + work u"] sum_drop_update(2) [OF i] sum_drop_update(3) [OF i, of "1 + work u"]
    have fin: "task_finished u" if "task_finished (ts ! i)" using poll_finished [OF that u] .
    have set: "wf_task x \<and> patient \<mu> x" if "x \<in> set (ts[i := u])" for x
      using set_update_subset_insert [of ts i u] that ih "5.prems"(2,3) by auto
    have "work t' \<le> work (Seq ts i) \<and> work t' + \<mu> s1 < work (Seq ts i) + \<mu> s"
    proof (cases "task_finished u")
      case True
      then have "work t' = sum_list (drop (Suc i) ?w)" using t' by (simp add: drop_map)
      then show ?thesis using sd(2) \<open>i < length ts\<close> ih by simp
    next
      case False
      then have "work t' = 1 + work u + sum_list (drop (Suc i) ?w)" using t' sd(1) by (simp add: map_update)
      then show ?thesis using sd(2) \<open>i < length ts\<close> ih fin False by auto
    qed
    with t' set ih True show ?thesis by auto
  next
    case False
    with 5 show ?thesis by (auto simp: poll.simps)
  qed
next
  case (6 ts r s)
  show ?case
  proof (cases "r = 0")
    case True
    with 6 show ?thesis by (auto simp: poll.simps)
  next
    case False
    obtain us r1 s1 where u: "poll_all ts r s = (us, r1, s1)" by (metis prod_cases3)
    have t': "t' = Par us r1" "s' = s1" using "6.prems"(1) u False by (auto simp: poll.simps)
    have "open_slots ts \<le> r" "\<forall>x\<in>set ts. wf_task (snd x) \<and> patient \<mu> (snd x)" "r = open_slots ts" using "6.prems" by auto
    with "6.IH" [OF False u] t' False show ?thesis by (auto simp: slot_work_def)
  qed
next
  case (8 d t ts r s)
  show ?case
  proof (cases d)
    case True
    obtain us r1 s1 where u: "poll_all ts r s = (us, r1, s1)" by (metis prod_cases3)
    have "ts' = (d, t) # us" "r' = r1" "s' = s1" using "8.prems"(1) u True by (auto simp: poll_all.simps)
    with "8.IH"(1) [OF True u] "8.prems" True show ?thesis by (auto simp: open_slots_def slot_work_def)
  next
    case False
    obtain u s1 where u: "poll t s = (u, s1)" by fastforce
    obtain us r1 s2 where us: "poll_all ts (if task_finished u then r - 1 else r) s1 = (us, r1, s2)" by (metis prod_cases3)
    have e: "ts' = (task_finished u, u) # us" "r' = r1" "s' = s2" using "8.prems"(1) u us False by (auto simp: poll_all.simps)
    have wp: "wf_task t" "patient \<mu> t" using "8.prems"(3) by simp_all
    note i1 = "8.IH"(2) [OF False u wp]
    have o: "open_slots ts \<le> (if task_finished u then r - 1 else r)" "Suc (open_slots ts) \<le> r"
      using "8.prems"(2) False by (auto simp: open_slots_def)
    have i2: "(\<forall>x\<in>set us. wf_task (snd x) \<and> patient \<mu> (snd x)) \<and> \<mu> s2 \<le> \<mu> s1 \<and>
        r1 + open_slots ts = (if task_finished u then r - 1 else r) + open_slots us \<and> slot_work us \<le> slot_work ts"
      using "8.IH"(3) [OF False u [symmetric] refl us o(1)] "8.prems"(3) by auto
    have fin: "task_finished u" if "task_finished t" using poll_finished [OF that u] .
    show ?thesis
    proof (cases "task_finished u")
      case True
      then show ?thesis using i1 i2 o e False by (auto simp: open_slots_def slot_work_def)
    next
      case False
      then show ?thesis using i1 i2 o e fin \<open>\<not> d\<close> by (auto simp: open_slots_def slot_work_def)
    qed
  qed
qed (auto simp: poll.simps poll_all.simps open_slots_def slot_work_def split: prod.splits if_splits)

lemma finish_terminates:
  "wf_task t \<Longrightarrow> patient \<mu> t \<Longrightarrow> \<exists>t' s'. finish t s = Some (t', s') \<and> task_finished t' \<and> \<mu> s' \<le> \<mu> s"
proof (induction "work t + \<mu> s" arbitrary: t s rule: less_induct)
  case less
  show ?case
  proof (cases "task_finished t")
    case True
    then show ?thesis by (subst finish.simps) simp
  next
    case False
    obtain t1 s1 where p: "poll t s = (t1, s1)" by fastforce
    note pr = poll_progress(1) [OF p less.prems]
    with False have "work t1 + \<mu> s1 < work t + \<mu> s" by simp
    from less.hyps [OF this] pr obtain t' s' where "finish t1 s1 = Some (t', s')" "task_finished t'" "\<mu> s' \<le> \<mu> s1" by blast
    with False p pr show ?thesis by (subst finish.simps) auto
  qed
qed

section \<open>Sequences\<close>

text \<open>A task that has not been polled yet.\<close>

fun fresh :: "'s task \<Rightarrow> bool" where
  "fresh (Simple f b) = (\<not> b)"
| "fresh (Leaf f b) = (\<not> b)"
| "fresh (Monitored t n) = fresh t"
| "fresh (Seq ts i) = (i = 0 \<and> (\<forall>t\<in>set ts. fresh t))"
| "fresh (Par ts r) = (r = length ts \<and> (\<forall>x\<in>set ts. \<not> fst x \<and> fresh (snd x)))"
| "fresh Noop = True"

fun finish_each :: "'s task list \<Rightarrow> 's \<Rightarrow> ('s task list \<times> 's) option" where
  "finish_each [] s = Some ([], s)"
| "finish_each (t # ts) s = Option.bind (finish t s) (\<lambda>(t', s1). map_option (\<lambda>(ts', s'). (t' # ts', s')) (finish_each ts s1))"

lemma fresh_wf: "fresh t \<Longrightarrow> wf_task t"
  by (induction t rule: wf_task.induct) (auto simp: open_slots_def)

lemma fresh_finished_poll: "fresh t \<Longrightarrow> task_finished t \<Longrightarrow> \<exists>t'. poll t s = (t', s) \<and> task_finished t'"
  by (induction t) (auto simp: poll.simps split: prod.splits)

lemma poll_Seq_front: "i < length ts \<Longrightarrow> poll (ts ! i) s = (t', s') \<Longrightarrow>
    poll (Seq ts i) s = (Seq (ts[i := t']) (if task_finished t' then i + 1 else i), s')"
  by (simp add: poll.simps)

lemma finish_Seq_current:
  "wf_task t \<Longrightarrow> patient \<mu> t \<Longrightarrow> \<not> task_finished t \<Longrightarrow> i < length ts \<Longrightarrow> ts ! i = t \<Longrightarrow>
     \<exists>t' s'. finish t s = Some (t', s') \<and> finish (Seq ts i) s = finish (Seq (ts[i := t']) (i + 1)) s'"
proof (induction "work t + \<mu> s" arbitrary: t s ts rule: less_induct)
  case less
  obtain t1 s1 where p: "poll t s = (t1, s1)" by fastforce
  note pr = poll_progress(1) [OF p less.prems(1,2)]
  have f: "finish t s = finish t1 s1" using less.prems(3) p by (subst finish.simps) simp
  have "finish (Seq ts i) s = finish (Seq (ts[i := t1]) (if task_finished t1 then i + 1 else i)) s1"
    using poll_Seq_front [of i ts s t1 s1] less.prems(4,5) p by (subst finish.simps) simp
  moreover have "finish t1 s1 = Some (t1, s1)" if "task_finished t1" using that by (subst finish.simps) simp
  moreover have "\<exists>t' s'. finish t1 s1 = Some (t', s') \<and> finish (Seq (ts[i := t1]) i) s1 = finish (Seq (ts[i := t']) (i + 1)) s'"
    if nf: "\<not> task_finished t1"
  proof -
    have "work t1 + \<mu> s1 < work t + \<mu> s" using pr less.prems(3) by simp
    from less.hyps [OF this _ _ nf, of "ts[i := t1]"] pr less.prems(4) show ?thesis by simp
  qed
  ultimately show ?case using f by (cases "task_finished t1") auto
qed

lemma finish_Seq_from:
  "\<forall>t\<in>set (drop i ts). fresh t \<and> patient \<mu> t \<Longrightarrow> i \<le> length ts \<Longrightarrow>
     map_option snd (finish (Seq ts i) s) = map_option snd (finish_each (drop i ts) s)"
proof (induction "length ts - i" arbitrary: i ts s)
  case 0
  then show ?case by (subst finish.simps) simp
next
  case (Suc n)
  then have i: "i < length ts" by simp
  let ?t = "ts ! i"
  have d: "drop i ts = ?t # drop (Suc i) ts" using i by (simp add: Cons_nth_drop_Suc)
  have t: "fresh ?t" "patient \<mu> ?t" using Suc.prems(1) d by simp_all
  have rest: "map_option snd (finish (Seq (ts[i := u]) (i + 1)) s1) = map_option snd (finish_each (drop (Suc i) ts) s1)" for u s1
    using Suc.hyps(1) [of "ts[i := u]" "i + 1" s1] Suc.hyps(2) Suc.prems(1) i d by simp
  show ?case
  proof (cases "task_finished ?t")
    case True
    then obtain u where u: "poll ?t s = (u, s)" "task_finished u" using fresh_finished_poll [OF t(1) True] by blast
    have "finish (Seq ts i) s = finish (Seq (ts[i := u]) (i + 1)) s"
      using poll_Seq_front [OF i u(1)] u(2) i by (subst finish.simps) simp
    moreover have "finish ?t s = Some (?t, s)" using True by (subst finish.simps) simp
    ultimately show ?thesis using rest [of u s] by (simp add: d option.map_comp comp_def case_prod_beta)
  next
    case False
    from finish_Seq_current [OF fresh_wf [OF t(1)] t(2) False i refl, of s] obtain u s1 where
      "finish ?t s = Some (u, s1)" "finish (Seq ts i) s = finish (Seq (ts[i := u]) (i + 1)) s1" by blast
    then show ?thesis using rest [of u s1] by (simp add: d option.map_comp comp_def case_prod_beta)
  qed
qed

section \<open>Properties\<close>



end
