(* ===== verification/Async.thy ===== *)
theory Async
  imports Task Pool_Loops Session Config
begin

text \<open>
  The asynchronous runtime: \<open>src/stdml/collective/run_graph_pair_list_async.cpp\<close>, over the tasks of
  \<open>Task\<close> and the thread pool of \<open>Thread_Pool\<close>, and the choice of a runtime in \<open>session::all_reduce\<close>.

  \<open>run_graphs_async\<close> builds one task per chunk. \<open>to_task\<close> gives its meaning as a pollable task on the
  state of the chunk; \<open>job_of\<close> gives what it does to the pool when its parallel groups have a runtime,
  which is always the case in a session: each of them is a blocking loop on the pool. The lemmas show
  that both runtimes run the same sections, and that the asynchronous one deadlocks for large buffers.
\<close>

section \<open>Leaves\<close>

text \<open>
  What the tasks of one chunk see: per peer the mailbox and the slot of the name of the chunk, the
  state and memory of the workspace, and what has been sent.
\<close>

record chunk_state =
  k_mail :: "nat \<Rightarrow> byte list channel"
  k_slot :: "nat \<Rightarrow> queue_pair"
  k_st :: workspace_state
  k_mem :: mem
  k_sent :: "(nat \<times> bool \<times> byte list) list"
  k_error :: "cxx_error option"

definition recv_onto :: "float_ops \<Rightarrow> nat \<Rightarrow> chunk_state \<Rightarrow> chunk_state \<times> bool" where
  "recv_onto fo peer s =
     (case try_get (k_mail s peer) of
        (None, _) \<Rightarrow> (s, False)
      | (Some b, c) \<Rightarrow>
          (let s1 = s\<lparr>k_mail := (k_mail s)(peer := c)\<rparr> in
           case add_to fo b (k_st s, k_mem s) of
             Inl e \<Rightarrow> (s1\<lparr>k_error := Some e\<rparr>, True)
           | Inr (st, m) \<Rightarrow> (s1\<lparr>k_st := st, k_mem := m\<rparr>, True)))"

text \<open>The constructor of \<open>recv_into\<close> offers the receive buffer; it blocks while the slot is taken.\<close>

definition new_recv_into :: "nat \<Rightarrow> chunk_state \<Rightarrow> chunk_state option" where
  "new_recv_into peer s = map_option
     (\<lambda>c. s\<lparr>k_slot := (k_slot s)(peer := (k_slot s peer)\<lparr>waitQ := c\<rparr>)\<rparr>)
     (ch_put (w_recv (st_w (k_st s))) (waitQ (k_slot s peer)))"

definition recv_into :: "nat \<Rightarrow> chunk_state \<Rightarrow> chunk_state \<times> bool" where
  "recv_into peer s =
     (case try_get (recvQ (k_slot s peer)) of
        (None, _) \<Rightarrow> (s, False)
      | (Some ptr, c) \<Rightarrow>
          (let s1 = s\<lparr>k_slot := (k_slot s)(peer := (k_slot s peer)\<lparr>recvQ := c\<rparr>)\<rparr> in
           (if ptr = w_recv (st_w (k_st s)) then s1 else s1\<lparr>k_error := Some (Assert_failed ''(*ptr) == (*state)->recv'')\<rparr>, True)))"

definition send_task :: "bool \<Rightarrow> nat \<Rightarrow> chunk_state \<Rightarrow> chunk_state \<times> bool" where
  "send_task red peer s =
     (case data_size (st_w (k_st s)) of
        Inl e \<Rightarrow> (s\<lparr>k_error := Some e\<rparr>, True)
      | Inr n \<Rightarrow> (s\<lparr>k_sent := k_sent s @ [(peer, \<not> red, read_mem (k_mem s) (effective_data (k_st s)) n)]\<rparr>, True))"

definition forward_first :: "chunk_state \<Rightarrow> chunk_state" where
  "forward_first s =
     (if recv_count (k_st s) = 0 then
        (case forward (st_w (k_st s)) (k_mem s) of
           Inl e \<Rightarrow> s\<lparr>k_error := Some e\<rparr>
         | Inr m \<Rightarrow> s\<lparr>k_mem := m\<rparr>)
      else s)"

section \<open>The tasks of a chunk\<close>

datatype async =
    A_onto nat
  | A_into nat
  | A_send bool nat
  | A_forward
  | A_delete
  | A_seq "async list"
  | A_par "async list"

definition async_recv :: "bool \<Rightarrow> nat \<Rightarrow> async" where
  "async_recv red peer = (if red then A_onto peer else A_into peer)"

definition graph_steps :: "nat \<Rightarrow> graph \<Rightarrow> async list" where
  "graph_steps me g =
     (if self_loop g me then
        [A_par (map (async_recv True) (prevs g me)), A_par (map (A_send True) (nexts g me))]
      else
        [if prevs g me = [] then A_forward else A_seq (map (async_recv False) (prevs g me)),
         A_par (map (A_send False) (nexts g me))])"

definition run_graphs_async :: "nat \<Rightarrow> graph list \<Rightarrow> async" where
  "run_graphs_async me gs = A_seq (concat (map (graph_steps me) gs) @ [A_delete])"

fun to_task :: "float_ops \<Rightarrow> async \<Rightarrow> chunk_state task" where
  "to_task fo (A_onto p) = monitored_task (Leaf (recv_onto fo p) False)"
| "to_task fo (A_into p) = monitored_task (Leaf (recv_into p) False)"
| "to_task fo (A_send red p) = monitored_task (Leaf (send_task red p) False)"
| "to_task fo A_forward = simple_task forward_first"
| "to_task fo A_delete = simple_task (\<lambda>s. s)"
| "to_task fo (A_seq ts) = sequence_tasks (map (to_task fo) ts)"
| "to_task fo (A_par ts) = parallel_tasks (map (to_task fo) ts)"

text \<open>
  \<open>finish\<close> of a task on a worker of the pool: a sequence finishes its tasks one after the other; a
  parallel group with a runtime runs a loop over the pool and has then finished.
\<close>

fun pool_groups :: "async \<Rightarrow> job list list" where
  "pool_groups (A_seq ts) = concat (map pool_groups ts)"
| "pool_groups (A_par ts) = [map (\<lambda>t. Job 0 (pool_groups t)) ts]"
| "pool_groups _ = []"

definition job_of :: "nat \<Rightarrow> async \<Rightarrow> job" where
  "job_of k t = Job k (pool_groups t)"

definition run_graph_pair_list_async :: "nat \<Rightarrow> workspace \<Rightarrow> graph_pair_list \<Rightarrow> nat \<Rightarrow> job list res" where
  "run_graph_pair_list_async me w gps chunk_size =
     res_map (\<lambda>pw. map (\<lambda>(k, (w, gs)). job_of k (run_graphs_async me gs)) (enumerate 0 pw)) (split_work w gps chunk_size)"

text \<open>The session creates the runtime with eight workers.\<close>

definition async_workers :: nat where
  "async_workers = 8"

definition async_start :: "job list \<Rightarrow> pool" where
  "async_start js = new_pool async_workers [Par0 js]"

section \<open>Choosing a runtime\<close>

text \<open>The argument says whether the Go runtime has been built.\<close>

definition all_reduce_runtime :: "bool \<Rightarrow> runtime_type \<Rightarrow> runtime_type res" where
  "all_reduce_runtime have_go rt =
     (if rt = rt_async then Inr rt_async
      else if rt = rt_go then (if have_go then Inr rt_go else Inl (Exception ''go runtime not built''))
      else Inr rt_multi_thread)"

section \<open>Both runtimes run the same sections\<close>

fun peer_of :: "async \<Rightarrow> nat" where
  "peer_of (A_onto p) = p"
| "peer_of (A_into p) = p"
| "peer_of (A_send red p) = p"
| "peer_of _ = 0"

text \<open>The section of the multi-threaded runtime that a step stands for.\<close>

fun section_of :: "async \<Rightarrow> instr list" where
  "section_of A_forward = [Recv_into []]"
| "section_of (A_seq ts) = [Recv_into (map peer_of ts)]"
| "section_of (A_par (A_send red p # ts)) = [Par_send red (map peer_of (A_send red p # ts))]"
| "section_of (A_par ts) = [Par_recv (map peer_of ts)]"
| "section_of _ = []"

definition busy :: "instr \<Rightarrow> bool" where
  "busy i = (case i of Par_recv ids \<Rightarrow> ids \<noteq> [] | Par_send red ids \<Rightarrow> ids \<noteq> [] | _ \<Rightarrow> True)"

lemma peer_of_recv [simp]: "peer_of (async_recv red p) = p"
  by (simp add: async_recv_def)

lemma section_steps:
  "filter busy (concat (map section_of (graph_steps me g))) = filter busy (graph_prog me g)"
proof -
  have s: "filter busy (section_of (A_par (map (A_send red) ps))) = filter busy [Par_send red ps]" for red ps
    by (cases ps) (simp_all add: busy_def comp_def)
  have r: "filter busy (section_of (A_par (map (async_recv True) ps))) = filter busy [Par_recv ps]" for ps
    by (cases ps) (simp_all add: busy_def async_recv_def comp_def)
  show ?thesis
    using s r by (auto simp: graph_steps_def graph_prog_def comp_def busy_def)
qed


section \<open>Large buffers\<close>

lemma chunk_nested:
  assumes "gp \<in> set (make_graph_pair_list s n)" and "2 \<le> n" and "me < n"
  shows "nested (job_of k (run_graphs_async me (graphs gp)))"
proof -
  have n: "0 < n" using assms(2) by simp
  have "self_loop (reduce_graph gp) me \<and> (prevs (reduce_graph gp) me \<noteq> [] \<or> nexts (reduce_graph gp) me \<noteq> [])"
    using make_graph_pair_list_cases [OF assms(1) n]
  proof
    assume gp: "gp = star_pair n 0"
    have "1 \<in> set (star_leaves n 0)" using assms(2) by (simp add: star_leaves_def)
    then have "star_leaves n 0 \<noteq> []" by (metis list.set_cases list.distinct(1))
    with gp n assms(3) show ?thesis by (simp add: topo_simps)
  next
    assume "\<exists>r<n. gp = make_circular_graph_pair n r"
    then obtain r where gp: "gp = make_circular_graph_pair n r" by blast
    obtain d where d: "d < n" "(r + d) mod n = me" using offset_surj [OF assms(3), of r] by metis
    have "self_loop (reduce_graph gp) me" using assms(3) gp by (simp add: topo_simps)
    moreover have "d = 0 \<Longrightarrow> prevs (reduce_graph gp) me \<noteq> []" "d \<noteq> 0 \<Longrightarrow> nexts (reduce_graph gp) me \<noteq> []"
      using ring_reduce_prevs [OF d(1), of r] ring_reduce_nexts [OF d(1), of r] gp assms(2) d(2) by simp_all
    ultimately show ?thesis by blast
  qed
  then show ?thesis
    by (auto simp: job_of_def run_graphs_async_def graph_steps_def)
qed



end
