(* ===== verification/Runtimes.thy ===== *)
theory Runtimes
  imports Async Peer
begin

text \<open>
  \<open>session::all_reduce\<close> over all runtimes: the choice in \<open>session.cpp\<close>, with the Go runtime of
  \<open>runtimes/go.cpp\<close>. \<open>session_all_reduce\<close> returns what the process runs: a program of the multi-threaded
  runtime, the jobs of the asynchronous one, or the jobs handed to the Go runtime. The scheduler behind
  \<open>go::sync::runtime\<close> is not part of the repository: it is an argument, of which \<open>go_waits\<close> says that \<open>Wait\<close>
  returns when all jobs given to \<open>Do\<close> have run, in any order.

  The lemmas show when an all-reduce finds a runtime, and that the jobs of the Go runtime do nothing.
\<close>

section \<open>The Go runtime\<close>

text \<open>The body is a \<open>TODO\<close>.\<close>

definition run_graphs_go_rt :: "workspace \<Rightarrow> graph list \<Rightarrow> mem \<Rightarrow> mem" where
  "run_graphs_go_rt w gs m = m"

definition run_graph_pair_list_go_rt :: "workspace \<Rightarrow> graph_pair_list \<Rightarrow> nat \<Rightarrow> (mem \<Rightarrow> mem) list res" where
  "run_graph_pair_list_go_rt w gps chunk_size = res_map (map (\<lambda>(w, gp). run_graphs_go_rt w gp)) (split_work w gps chunk_size)"

definition go_waits :: "((mem \<Rightarrow> mem) list \<Rightarrow> mem \<Rightarrow> mem) \<Rightarrow> bool" where
  "go_waits rt \<longleftrightarrow> (\<forall>js m. \<exists>order. set order = set js \<and> length order = length js \<and> rt js m = fold (\<lambda>j. j) order m)"

section \<open>All-reduce\<close>

datatype runtime_run = Run_threads "instr list" | Run_async "job list" | Run_go "(mem \<Rightarrow> mem) list"

text \<open>The first argument says whether the Go runtime has been built.\<close>

definition session_all_reduce :: "bool \<Rightarrow> session \<Rightarrow> workspace \<Rightarrow> runtime_run res" where
  "session_all_reduce have_go se w =
     res_bind (all_reduce_runtime have_go (sc_rt (se_config se))) (\<lambda>rt.
       if rt = rt_async then res_map Run_async (run_graph_pair_list_async (se_rank se) w (se_topo se) all_reduce_chunk_size)
       else if rt = rt_go then res_map Run_go (run_graph_pair_list_go_rt w (se_topo se) all_reduce_chunk_size)
       else res_map Run_threads (run_graph_pair_list (se_rank se) w (se_topo se) all_reduce_chunk_size))"

lemma session_all_reduce_threads:
  "sc_rt (se_config se) \<in> {rt_multi_thread, rt_thread_pool, rt_coro} \<Longrightarrow>
     session_all_reduce have_go se w = res_map Run_threads (all_reduce_prog (se_topo se) (se_rank se) w)"
  by (auto simp: session_all_reduce_def all_reduce_runtime_def all_reduce_prog_def)

lemma session_all_reduce_runs:
  assumes "0 < w_count w" and "dtype_size (w_dt w) = Inr s" and "0 < s" and "se_topo se \<noteq> []"
    and "sc_rt (se_config se) = rt_go \<longrightarrow> have_go"
  shows "\<exists>r. session_all_reduce have_go se w = Inr r"
proof -
  have "0 < all_reduce_chunk_size" by (simp add: all_reduce_chunk_size_def)
  then obtain pw where "split_work w (se_topo se) all_reduce_chunk_size = Inr pw"
    by (rule split_work_chunks [OF assms(1-3) _ assms(4)])
  with assms(5) show ?thesis
    by (simp add: session_all_reduce_def all_reduce_runtime_def run_graph_pair_list_async_def run_graph_pair_list_go_rt_def run_graph_pair_list_def)
qed

lemma session_all_reduce_empty:
  assumes "w_count w = 0" and "dtype_size (w_dt w) = Inr s" and "sc_rt (se_config se) = rt_go \<longrightarrow> have_go"
  shows "session_all_reduce have_go se w = Inl (Undefined_behaviour ''division by zero'')"
  using assms(3) split_work_empty [OF assms(1,2)]
  by (simp add: session_all_reduce_def all_reduce_runtime_def run_graph_pair_list_async_def run_graph_pair_list_go_rt_def run_graph_pair_list_def)

lemma idle_jobs: "\<forall>j\<in>set js. j = (\<lambda>m. m) \<Longrightarrow> fold (\<lambda>j. j) js m = m"
  by (induction js) auto

text \<open>An all-reduce on the Go runtime, when it has been built, returns without having communicated or written
  anything: the receive buffer keeps what it held before the call.\<close>

theorem go_runtime_idle:
  assumes "go_waits rt" and "sc_rt (se_config se) = rt_go" and "se_topo se \<noteq> []"
    and "0 < w_count w" and "dtype_size (w_dt w) = Inr s" and "0 < s"
  shows "\<exists>js. session_all_reduce True se w = Inr (Run_go js) \<and> length js = ceil_div (w_count w * s) (2 ^ 20) \<and> (\<forall>m. rt js m = m)"
proof -
  have c: "0 < all_reduce_chunk_size" by (simp add: all_reduce_chunk_size_def)
  obtain ps where
    ps: "split_work w (se_topo se) all_reduce_chunk_size =
      Inr (map (\<lambda>p. (slice_of w p, graphs (pair_of (se_topo se) (w_name (slice_of w p))))) ps)"
      "length ps = ceil_div (w_count w * s) all_reduce_chunk_size"
    by (rule split_work_chunks [OF assms(4-6) c assms(3)])
  define js where "js = map (\<lambda>p. run_graphs_go_rt (slice_of w p) (graphs (pair_of (se_topo se) (w_name (slice_of w p))))) ps"
  have "session_all_reduce True se w = Inr (Run_go js)"
    using assms(2) ps(1) by (simp add: session_all_reduce_def all_reduce_runtime_def run_graph_pair_list_go_rt_def js_def)
  moreover have "rt js m = m" for m
  proof -
    from assms(1) obtain order where o: "set order = set js" "rt js m = fold (\<lambda>j. j) order m" unfolding go_waits_def by blast
    have "\<forall>j\<in>set order. j = (\<lambda>m. m)" unfolding o(1) by (auto simp: js_def run_graphs_go_rt_def)
    with o(2) show ?thesis by (simp add: idle_jobs)
  qed
  ultimately show ?thesis using ps(2) by (intro exI [of _ js]) (simp add: js_def all_reduce_chunk_size_def)
qed

text \<open>A scheduler that runs the jobs in the order in which they were given; the configuration is read from the environment.\<close>

theorem go_runtime_idle_witness:
  "(let a = \<lparr>ipv4 = 1, port = 2\<rparr>; b = \<lparr>ipv4 = 1, port = 3\<rparr>;
        cfg = parse_system_config_from_env 4 [''STDML_COLLECTIVE_USE_GO_RUNTIME'' \<mapsto> ''1''];
        se = join_session 4 (new_peer cfg 0 a [a, b] [] star);
        w = \<lparr>w_send = 0, w_recv = 8, w_count = 2, w_dt = u32, w_op = sum_op, w_name = ''x''\<rparr> in
    \<exists>js. session_all_reduce True se w = Inr (Run_go js) \<and> length js = ceil_div (2 * 4) (2 ^ 20) \<and>
      (\<forall>m. fold (\<lambda>j. j) js m = m))"
proof -
  let ?a = "\<lparr>ipv4 = 1, port = 2\<rparr> :: peer_id" and ?b = "\<lparr>ipv4 = 1, port = 3\<rparr> :: peer_id"
  let ?cfg = "parse_system_config_from_env 4 [''STDML_COLLECTIVE_USE_GO_RUNTIME'' \<mapsto> ''1'']"
  let ?se = "join_session 4 (new_peer ?cfg 0 ?a [?a, ?b] [] star)"
  let ?w = "\<lparr>w_send = 0, w_recv = 8, w_count = 2, w_dt = u32, w_op = sum_op, w_name = ''x''\<rparr>"
  have "go_waits (fold (\<lambda>j. j))" unfolding go_waits_def by blast
  moreover have "sc_rt ?cfg = rt_go"
    by (simp add: parse_system_config_from_env_def Let_def parse_env_bool_def safe_getenv_def tolower_def)
  then have "sc_rt (se_config ?se) = rt_go" by (simp add: join_session_def new_session_def new_peer_def)
  moreover have "se_topo ?se \<noteq> []"
    using make_graph_pair_list_nonempty [of "Suc (Suc 0)" star] by (simp add: join_session_def new_session_def new_peer_def)
  moreover have "dtype_size (w_dt ?w) = Inr 4" by simp
  ultimately show ?thesis unfolding Let_def using go_runtime_idle [of "fold (\<lambda>j. j)" ?se ?w 4] by simp
qed

end
