(* ===== verification/Mpi.thy ===== *)
theory Mpi
  imports Runtimes
begin

text \<open>
  The MPI interface: \<open>include/stdml/mpi.h\<close> and \<open>src/stdml/collective/mpi.cpp\<close>. Two global pointers hold the peer
  and the session of the process; a call before \<open>MPI_Init\<close> or after \<open>MPI_Finalize\<close> dereferences a null pointer.
  \<open>MPI_Init\<close> ends with the barrier of the session, here what the process runs for it. The header declares one
  datatype and one operator, and \<open>MPI_Allreduce\<close> reads neither of its arguments.

  The lemmas show that the processes started by \<open>mpirun\<close> on one host get the rank and size they were given.
\<close>

section \<open>Definitions\<close>

datatype mpi_comm = MPI_COMM_WORLD

datatype mpi_datatype = MPI_FLOAT

datatype mpi_op = MPI_SUM

record mpi_state =
  default_peer :: "peer option"
  default_session :: "session option"

definition mpi_unset :: mpi_state where
  "mpi_unset = \<lparr>default_peer = None, default_session = None\<rparr>"

text \<open>\<open>x\<close> and \<open>y\<close> are the addresses of the locals of the barrier.\<close>

definition MPI_Init :: "bool \<Rightarrow> nat \<Rightarrow> env \<Rightarrow> nat \<Rightarrow> nat \<Rightarrow> mpi_state \<Rightarrow> (mpi_state \<times> runtime_run) res" where
  "MPI_Init have_go hc env x y st =
     res_bind (from_ompi_env hc env) (\<lambda>p.
       (let se = join_session hc p in
        res_map (\<lambda>barrier. (st\<lparr>default_peer := Some p, default_session := Some se\<rparr>, barrier))
          (session_all_reduce have_go se (barrier_ws x y))))"

definition MPI_Finalize :: "mpi_state \<Rightarrow> mpi_state" where
  "MPI_Finalize st = st\<lparr>default_session := None, default_peer := None\<rparr>"

definition the_session :: "mpi_state \<Rightarrow> session res" where
  "the_session st = (case default_session st of Some se \<Rightarrow> Inr se | None \<Rightarrow> Inl (Undefined_behaviour ''null pointer''))"

text \<open>A \<open>size_t\<close> stored in an \<open>int\<close>.\<close>

definition narrow_int :: "nat \<Rightarrow> int" where
  "narrow_int k = sint (word_of_nat k :: 32 word)"

definition MPI_Comm_rank :: "mpi_comm \<Rightarrow> mpi_state \<Rightarrow> int res" where
  "MPI_Comm_rank comm st = res_map (\<lambda>se. narrow_int (se_rank se)) (the_session st)"

definition MPI_Comm_size :: "mpi_comm \<Rightarrow> mpi_state \<Rightarrow> int res" where
  "MPI_Comm_size comm st = res_map (\<lambda>se. narrow_int (length (se_peers se))) (the_session st)"

text \<open>The \<open>int\<close> \<open>count\<close> becomes a \<open>size_t\<close>.\<close>

definition MPI_Allreduce :: "bool \<Rightarrow> nat \<Rightarrow> nat \<Rightarrow> int \<Rightarrow> mpi_datatype \<Rightarrow> mpi_op \<Rightarrow> mpi_comm \<Rightarrow> mpi_state \<Rightarrow> runtime_run res" where
  "MPI_Allreduce have_go sendbuf recvbuf elems datatype mpi_op comm st =
     res_bind (the_session st) (\<lambda>se.
       session_all_reduce have_go se (typed_ws sendbuf recvbuf (unat (word_of_int elems :: Prelude.u64)) f32 sum_op []))"

section \<open>The world of mpirun\<close>

definition mpirun :: "env \<Rightarrow> nat \<Rightarrow> nat \<Rightarrow> bool" where
  "mpirun env n i \<longleftrightarrow> env ''OMPI_COMM_WORLD_SIZE'' = Some (to_string n) \<and> env ''OMPI_COMM_WORLD_RANK'' = Some (to_string i) \<and>
     i < n \<and> n + 10000 \<le> 2 ^ 16"

lemma narrow_small: "k < 2 ^ 31 \<Longrightarrow> narrow_int k = int k"
  by (simp add: narrow_int_def signed_of_nat signed_take_bit_int_eq_self)

lemma from_ompi_mpirun:
  assumes "mpirun env n i" and "gen n = Inr ps" and "length ps = n"
  shows "from_ompi_env hc env = Inr (peer_start (new_peer (parse_system_config_from_env hc env) 0 (ps ! i) ps [] star))"
proof -
  have r: "parse_env_int env ''OMPI_COMM_WORLD_SIZE'' = Inr (Some (int n))" "parse_env_int env ''OMPI_COMM_WORLD_RANK'' = Inr (Some (int i))"
    using assms(1) by (auto simp: mpirun_def intro!: parse_env_nat)
  have u: "unat (word_of_nat k :: Prelude.u64) = k" if "k \<le> n" for k
    using that assms(1) by (simp add: mpirun_def unat_of_nat)
  show ?thesis using assms u [of n] u [of i] by (simp add: from_ompi_env_def r peers_at_def mpirun_def)
qed

text \<open>C33: In process \<open>i\<close> of \<open>n\<close> started by \<open>mpirun\<close>, \<open>MPI_Init\<close> succeeds, whatever runtime is chosen, and the process
  then has rank \<open>i\<close> in a world of size \<open>n\<close>; an \<open>MPI_Allreduce\<close> of some elements runs, one of none divides by zero.
  After \<open>MPI_Finalize\<close> the same calls dereference a null pointer.\<close>

theorem mpi_world:
  assumes "mpirun env n i" and "sc_rt (parse_system_config_from_env hc env) = rt_go \<longrightarrow> have_go"
  shows "\<exists>st barrier. MPI_Init have_go hc env x y mpi_unset = Inr (st, barrier) \<and>
    MPI_Comm_rank comm st = Inr (int i) \<and> MPI_Comm_size comm st = Inr (int n) \<and>
    (\<forall>elems. 0 < elems \<and> elems < 2 ^ 31 \<longrightarrow> (\<exists>r. MPI_Allreduce have_go a b elems dt oper comm st = Inr r)) \<and>
    MPI_Allreduce have_go a b 0 dt oper comm st = Inl (Undefined_behaviour ''division by zero'') \<and>
    MPI_Comm_rank comm (MPI_Finalize st) = Inl (Undefined_behaviour ''null pointer'') \<and>
    MPI_Allreduce have_go a b more_elems dt oper comm (MPI_Finalize st) = Inl (Undefined_behaviour ''null pointer'')"
proof -
  have n: "i < n" "n + 10000 \<le> 2 ^ 16" using assms(1) by (simp_all add: mpirun_def)
  from gen_loopback [OF n(2)] obtain ps where ps: "gen n = Inr ps" "length ps = n" "distinct ps" by blast
  define p where "p = peer_start (new_peer (parse_system_config_from_env hc env) 0 (ps ! i) ps [] star)"
  define se where "se = join_session hc p"
  have se: "se_rank se = i" "se_peers se = ps" "se_topo se \<noteq> []" "sc_rt (se_config se) = rt_go \<longrightarrow> have_go"
    using assms(2) n ps rank_distinct [OF ps(3), of i] make_graph_pair_list_nonempty [of n star]
    by (auto simp: se_def p_def join_session_def new_session_def peer_start_def new_peer_def)
  have f: "dtype_size f32 = Inr 4" "dtype_size u32 = Inr 4" by simp_all
  have "\<exists>r. session_all_reduce have_go se (barrier_ws x y) = Inr r"
    by (rule session_all_reduce_runs [OF _ _ _ se(3,4), of _ 4]) (simp_all add: barrier_ws_def)
  then obtain r where r: "session_all_reduce have_go se (barrier_ws x y) = Inr r" ..
  let ?st = "\<lparr>default_peer = Some p, default_session = Some se\<rparr>"
  have init: "MPI_Init have_go hc env x y mpi_unset = Inr (?st, r)"
    using r from_ompi_mpirun [OF assms(1) ps(1,2), of hc, folded p_def]
    by (simp add: MPI_Init_def Let_def se_def mpi_unset_def)
  have t: "the_session ?st = Inr se" "the_session (MPI_Finalize ?st) = Inl (Undefined_behaviour ''null pointer'')"
    by (simp_all add: the_session_def MPI_Finalize_def)
  have run: "\<exists>r. MPI_Allreduce have_go a b c dt oper comm ?st = Inr r" if c: "0 < c" "c < 2 ^ 31" for c
  proof -
    have "unat (word_of_int c :: Prelude.u64) = nat c" using c by (simp add: unat_eq_nat_uint uint_word_of_int)
    with c show ?thesis unfolding MPI_Allreduce_def t(1) res_bind.simps
      by (intro session_all_reduce_runs [OF _ _ _ se(3,4), of _ 4]) (simp_all add: typed_ws_def)
  qed
  have zero: "MPI_Allreduce have_go a b 0 dt oper comm ?st = Inl (Undefined_behaviour ''division by zero'')"
    unfolding MPI_Allreduce_def t(1) res_bind.simps by (rule session_all_reduce_empty [OF _ _ se(4), of _ 4]) (simp_all add: typed_ws_def)
  show ?thesis
    using init run zero t n ps(2) se(1,2)
    by (intro exI [of _ ?st] exI [of _ r]) (simp add: MPI_Comm_rank_def MPI_Comm_size_def MPI_Allreduce_def narrow_small)
qed

theorem mpi_world_witness:
  "(let env = [''OMPI_COMM_WORLD_SIZE'' \<mapsto> to_string 4, ''OMPI_COMM_WORLD_RANK'' \<mapsto> to_string 2] in
    \<exists>st barrier. MPI_Init False 8 env 0 8 mpi_unset = Inr (st, barrier) \<and>
      MPI_Comm_rank MPI_COMM_WORLD st = Inr 2 \<and> MPI_Comm_size MPI_COMM_WORLD st = Inr 4 \<and>
      (\<exists>r. MPI_Allreduce False 16 64 10 MPI_FLOAT MPI_SUM MPI_COMM_WORLD st = Inr r))"
proof -
  let ?env = "[''OMPI_COMM_WORLD_SIZE'' \<mapsto> to_string 4, ''OMPI_COMM_WORLD_RANK'' \<mapsto> to_string 2]"
  have m: "mpirun ?env 4 2" by (simp add: mpirun_def)
  have g: "sc_rt (parse_system_config_from_env 8 ?env) = rt_go \<longrightarrow> False"
    by (simp add: parse_system_config_from_env_def Let_def parse_env_bool_def safe_getenv_def)
  from mpi_world [OF m g, of 0 8 MPI_COMM_WORLD 16 64 MPI_FLOAT MPI_SUM 0] obtain st barrier where
    r: "MPI_Init False 8 ?env 0 8 mpi_unset = Inr (st, barrier)" "MPI_Comm_rank MPI_COMM_WORLD st = Inr (int 2)"
      "MPI_Comm_size MPI_COMM_WORLD st = Inr (int 4)"
      "\<forall>elems. 0 < elems \<and> elems < 2 ^ 31 \<longrightarrow> (\<exists>r. MPI_Allreduce False 16 64 elems MPI_FLOAT MPI_SUM MPI_COMM_WORLD st = Inr r)" by blast
  have "\<exists>r. MPI_Allreduce False 16 64 10 MPI_FLOAT MPI_SUM MPI_COMM_WORLD st = Inr r" using r(4) by simp
  with r(1-3) show ?thesis unfolding Let_def by (intro exI [of _ st] exI [of _ barrier]) simp
qed

end
