(* ===== verification/Programs.thy ===== *)
theory Programs
  imports Consistent_Ring Mpi
begin

text \<open>
  Whole programs: \<open>examples/example_collective.cpp\<close>, \<open>example-1.cpp\<close> and \<open>example_fork.cpp\<close>. A process makes its peer,
  joins a session, whose constructor ends with a barrier, fills two vectors of ten \<open>int\<close>, all-reduces one into
  the other and looks at the result. The first program compares it with the right answer and exits with 1 when
  they differ. The vectors are filled in the initial memory: the barrier works on variables of its own.

  The lemmas compose the environment (\<open>Peer\<close>), the runtime (\<open>Runtimes\<close>) and the collectives on both strategies
  (\<open>Consistent\<close>, \<open>Consistent_Ring\<close>) to what every schedule of the processes of a cluster leads to.
\<close>

section \<open>Definitions\<close>

text \<open>The addresses of the variables of the barrier and of the data of the vectors \<open>x\<close> and \<open>y\<close>.\<close>

record example_vars =
  ex_bx :: nat
  ex_by :: nat
  ex_x :: nat
  ex_y :: nat

definition ints :: "32 word list \<Rightarrow> byte list" where
  "ints vs = concat (map (bytes_of_word 4) vs)"

definition int_at :: "mem \<Rightarrow> nat \<Rightarrow> nat \<Rightarrow> int" where
  "int_at m p k = sint (word_of_bytes (read_mem m (p + k * 4) 4) :: 32 word)"

definition example_mem :: "example_vars \<Rightarrow> 32 word list \<Rightarrow> 32 word \<Rightarrow> mem \<Rightarrow> mem" where
  "example_mem vs xs y m = write_mem (write_mem (write_mem m (ex_bx vs) (ints [1])) (ex_x vs) (ints xs)) (ex_y vs) (ints (replicate 10 y))"

definition example_ws :: "example_vars \<Rightarrow> workspace" where
  "example_ws vs = all_reduce_range_ws 4 (ex_x vs) (ex_x vs + 10 * 4) (ex_y vs) i32 sum_op []"

text \<open>The rank and size of the session and what the process runs for the barrier and the all-reduce.\<close>

definition example_calls :: "bool \<Rightarrow> session \<Rightarrow> example_vars \<Rightarrow> (nat \<times> nat \<times> runtime_run \<times> runtime_run) res" where
  "example_calls have_go se vs =
     res_bind (session_all_reduce have_go se (barrier_ws (ex_bx vs) (ex_by vs))) (\<lambda>b.
     res_map (\<lambda>a. (se_rank se, length (se_peers se), b, a)) (session_all_reduce have_go se (example_ws vs)))"

definition example_program :: "bool \<Rightarrow> nat \<Rightarrow> env \<Rightarrow> example_vars \<Rightarrow> (nat \<times> nat \<times> runtime_run \<times> runtime_run) res" where
  "example_program have_go hc env vs = res_bind (from_env hc env) (\<lambda>p. example_calls have_go (join_session hc p) vs)"

text \<open>\<open>example_collective.cpp\<close>: ten times the rank, and -10.\<close>

definition filled_mem :: "example_vars \<Rightarrow> nat \<Rightarrow> mem \<Rightarrow> mem" where
  "filled_mem vs me = example_mem vs (replicate 10 (word_of_nat me)) (- 10)"

definition example_check :: "nat \<Rightarrow> example_vars \<Rightarrow> mem \<Rightarrow> string res" where
  "example_check sz vs m =
     (let np = narrow_int sz in
      if 2 ^ 31 \<le> np * (np - 1) then Inl (Undefined_behaviour ''signed integer overflow'')
      else if int_at m (ex_y vs) 0 \<noteq> np * (np - 1) div 2 then Inl (Exit 1)
      else Inr (''answer is correct'' @ [CHR 0x0A]))"

text \<open>\<open>example-1.cpp\<close> prints both vectors.\<close>

fun pprint_from :: "nat \<Rightarrow> int list \<Rightarrow> string" where
  "pprint_from i [] = [CHR 0x0A]"
| "pprint_from i (x # xs) = (if i \<noteq> 0 then '', '' else []) @ to_string_int x @ pprint_from (i + 1) xs"

definition pprint :: "int list \<Rightarrow> string" where
  "pprint xs = pprint_from 0 xs"

definition example_1_output :: "example_vars \<Rightarrow> mem \<Rightarrow> string" where
  "example_1_output vs m = pprint (map (int_at m (ex_x vs)) [0..<10]) @ pprint (map (int_at m (ex_y vs)) [0..<10])"

text \<open>\<open>example_fork.cpp\<close>: the processes are forked, \<open>x\<close> is 1, 2, ..., 10, and the first result is printed.\<close>

definition fork_program :: "bool \<Rightarrow> nat \<Rightarrow> env \<Rightarrow> nat \<Rightarrow> nat \<Rightarrow> example_vars \<Rightarrow> (nat \<times> nat \<times> runtime_run \<times> runtime_run) res" where
  "fork_program have_go hc env me n vs = res_bind (from_fork hc env me n) (\<lambda>p. example_calls have_go (join_session hc p) vs)"

definition iota_mem :: "example_vars \<Rightarrow> mem \<Rightarrow> mem" where
  "iota_mem vs = example_mem vs (map word_of_nat [1..<11]) 0"

definition fork_output :: "example_vars \<Rightarrow> mem \<Rightarrow> string" where
  "fork_output vs m = to_string_int (int_at m (ex_y vs) 0) @ [CHR 0x0A]"

section \<open>Vectors of integers\<close>

definition vars_ok :: "example_vars \<Rightarrow> bool" where
  "vars_ok vs \<longleftrightarrow> sorted_wrt apart [(ex_bx vs, 4), (ex_by vs, 4), (ex_x vs, 40), (ex_y vs, 40)]"

lemma length_ints [simp]: "length (ints vs) = 4 * length vs"
  by (induction vs) (simp_all add: ints_def)

lemma elem_ints: "k < length vs \<Longrightarrow> elem 4 k (ints vs) = vs ! k"
proof -
  assume k: "k < length vs"
  have "chunks 4 (length vs) (ints vs) = map (bytes_of_word 4) vs" unfolding ints_def by (rule chunks_concat) auto
  with k have "take 4 (drop (k * 4) (ints vs)) = bytes_of_word 4 (vs ! k)" using chunks_nth [OF k, of 4 "ints vs"] by simp
  then show ?thesis by (simp add: elem_def word_bytes_word)
qed

lemma int_at_elem: "k < n \<Longrightarrow> int_at m p k = sint (elem 4 k (read_mem m p (n * 4)) :: 32 word)"
proof -
  assume "k < n"
  then have "n * 4 = k * 4 + (4 + (n - Suc k) * 4)" by simp
  then have "read_mem m p (n * 4) = read_mem m p (k * 4) @ read_mem m (p + k * 4) 4 @ read_mem m (p + k * 4 + 4) ((n - Suc k) * 4)"
    by (simp only: read_mem_append)
  then have "take 4 (drop (k * 4) (read_mem m p (n * 4))) = read_mem m (p + k * 4) 4" by simp
  then show ?thesis by (simp add: int_at_def elem_def)
qed

lemma fold_plus_sum: "fold (+) xs (a :: 'b::comm_monoid_add) = a + sum_list xs"
  by (induction xs arbitrary: a) (simp_all add: ac_simps)

lemma total_plus: "xs \<noteq> [] \<Longrightarrow> total (+) xs = sum_list (xs :: 'b::comm_monoid_add list)"
  by (cases xs) (simp_all add: total_def fold_plus_sum)

lemma elem_total_sum:
  assumes "k < 10" and "0 < n"
  shows "(elem 4 k (total (combine fo 10 i32 sum_op) (map b [0..<n])) :: 32 word) = (\<Sum>j<n. elem 4 k (b j))"
proof -
  have c: "combine fo 10 i32 sum_op = transform 4 10 ((+) :: 32 word \<Rightarrow> _)"
    by (intro ext) (simp add: combine_simps transform_def)
  have "(elem 4 k (total (combine fo 10 i32 sum_op) (map b [0..<n])) :: 32 word) = total (+) (map (elem 4 k) (map b [0..<n]))"
    unfolding c using assms by (intro total_hom elem_transform) simp_all
  also have "\<dots> = sum_list (map (\<lambda>j. elem 4 k (b j)) [0..<n])" using assms(2) by (simp add: total_plus comp_def)
  finally show ?thesis by (simp add: interv_sum_list_conv_sum_set_nat atLeast0LessThan)
qed

section \<open>Runs of a cluster\<close>

text \<open>The two calls of all processes.\<close>

definition example_call_list :: "(nat \<Rightarrow> example_vars) \<Rightarrow> call list" where
  "example_call_list vs = [both (ex_bx \<circ> vs) (ex_by \<circ> vs) 1 u32 sum_op, both (ex_x \<circ> vs) (ex_y \<circ> vs) 10 i32 sum_op]"

lemma example_call_ws:
  "map (\<lambda>x. snd x i) (example_call_list vs) = [barrier_ws (ex_bx (vs i)) (ex_by (vs i)), example_ws (vs i)]"
  by (simp add: example_call_list_def both_def barrier_ws_def example_ws_def all_reduce_range_ws_def typed_ws_def)

lemma vars_apart:
  assumes "vars_ok v"
  shows "ex_bx v \<noteq> ex_by v" "ex_x v \<noteq> ex_y v" "apart (ex_bx v, 4) (ex_by v, 4)" "apart (ex_x v, 40) (ex_y v, 40)"
    "ex_by v + 4 \<le> ex_x v \<or> ex_x v + 40 \<le> ex_by v" "ex_y v + 40 \<le> ex_x v \<or> ex_x v + 40 \<le> ex_y v"
  using assms by (auto simp: vars_ok_def apart_def)

lemma example_call_ok:
  assumes "\<And>i. i < n \<Longrightarrow> vars_ok (vs i)" and "x \<in> set (example_call_list vs)"
  shows "agree n (fst x) (snd x)" "0 < w_count (fst x)" "w_count (fst x) * elem_size (w_dt (fst x)) \<le> all_reduce_chunk_size"
proof -
  have d: "disjoint_or_same (ex_by (vs i)) (ex_bx (vs i)) 4" "disjoint_or_same (ex_y (vs i)) (ex_x (vs i)) 40" if "i < n" for i
    using vars_apart(3,4) [OF assms(1) [OF that]] by (auto simp: disjoint_or_same_def apart_def)
  then show "agree n (fst x) (snd x)" "0 < w_count (fst x)" "w_count (fst x) * elem_size (w_dt (fst x)) \<le> all_reduce_chunk_size"
    using assms(2) by (auto simp: example_call_list_def both_def agree_def wf_ws_def elem_size_def all_reduce_chunk_size_def)
qed

text \<open>
  What an all-reduce stores, on both strategies: a process that is \<open>right\<close> gets the reduction, the others the
  contribution of one process.
\<close>

definition call_values :: "float_ops \<Rightarrow> nat \<Rightarrow> strategy \<Rightarrow> call \<Rightarrow> (nat \<Rightarrow> mem) \<Rightarrow> nat \<Rightarrow> byte list" where
  "call_values fo n s x M i = (if s = ring then ring_values fo n x M i else result_of fo n (fst x) (snd x) M)"

definition right :: "strategy \<Rightarrow> nat \<Rightarrow> nat \<Rightarrow> dtype \<Rightarrow> nat \<Rightarrow> bool" where
  "right s n k dt i \<longleftrightarrow> s = star \<or> ring_pos n (both_rot n k dt) i \<le> 1"

lemma both_call_values:
  assumes "0 < n" and "\<And>j. j < n \<Longrightarrow> inp j \<noteq> out j" and "\<And>j. j < n \<Longrightarrow> read_mem (M j) (inp j) (k * elem_size dt) = b j"
  shows "call_values fo n s (both inp out k dt oper) M i =
    (if right s n k dt i then total (combine fo k dt oper) (map b [0..<n]) else b ((both_rot n k dt + 1) mod n))"
proof (cases s)
  case ring
  then show ?thesis using both_values [OF assms] by (simp add: call_values_def ring_out_def right_def)
next
  case star
  let ?x = "both inp out k dt oper"
  have "contrib (snd ?x j) (M j) = b j" if "j < n" for j using assms(3) [OF that] by (simp add: both_def contrib_def bytes_def)
  then have "result_of fo n (fst ?x) (snd ?x) M = total (combine fo k dt oper) (map b [0..<n])"
    using result_of_eq [of n "snd ?x" M b fo "fst ?x"] by (simp add: both_def)
  then show ?thesis using star by (simp add: call_values_def right_def)
qed

lemma stores_both: "i < n \<Longrightarrow> stores n (snd (both inp out k dt oper)) v M i = write_mem (M i) (out i) (v i)"
  by (simp add: stores_def both_def)

lemma example_calls_run:
  assumes "0 < n" and "\<And>i. i < n \<Longrightarrow> vars_ok (vs i)"
  shows "list_all (runs_call fo n (make_graph_pair_list s n) (call_values fo n s)) (example_call_list vs)"
proof -
  have "runs_call fo n (make_graph_pair_list s n) (call_values fo n s) x" if "x \<in> set (example_call_list vs)" for x
  proof (cases s)
    case ring
    have "call_values fo n ring = ring_values fo n" by (intro ext) (simp add: call_values_def)
    with ring ring_call [OF example_call_ok(1) [OF assms(2) that] assms(1) example_call_ok(2,3) [OF assms(2) that]] show ?thesis by simp
  next
    case star
    have "call_values fo n star = (\<lambda>x M _. result_of fo n (fst x) (snd x) M)" by (intro ext) (simp add: call_values_def)
    with star star_call [OF example_call_ok(1) [OF assms(2) that] assms(1) example_call_ok(2) [OF assms(2) that]] show ?thesis by simp
  qed
  then show ?thesis by (simp add: list_all_iff)
qed

text \<open>The vector \<open>x\<close> of process \<open>j\<close> holds \<open>xs j\<close>: the barrier does not touch it, and the all-reduce sums over it.\<close>

lemma example_results:
  assumes n: "0 < n" and ok: "\<And>i. i < n \<Longrightarrow> vars_ok (vs i)" and len: "\<And>i. i < n \<Longrightarrow> length (xs i) = 10"
    and M: "\<And>i. i < n \<Longrightarrow> M i = example_mem (vs i) (xs i) y0 (m i)" and i: "i < n" and k: "k < 10"
    and M'_def: "M' = after_calls n (call_values fo n s) (example_call_list vs) M"
  shows "int_at (M' i) (ex_y (vs i)) k =
      sint (if right s n 10 i32 i then \<Sum>j<n. xs j ! k else xs ((both_rot n 10 i32 + 1) mod n) ! k)"
    and "int_at (M' i) (ex_x (vs i)) k = sint (xs i ! k)"
proof -
  let ?c1 = "both (ex_bx \<circ> vs) (ex_by \<circ> vs) 1 u32 sum_op" and ?c2 = "both (ex_x \<circ> vs) (ex_y \<circ> vs) 10 i32 sum_op"
  let ?M1 = "stores n (snd ?c1) (call_values fo n s ?c1 M) M" and ?v = "call_values fo n s ?c2"
  note ap = vars_apart [OF ok]
  have l1: "length (call_values fo n s ?c1 M j) = 4" if "j < n" for j
  proof -
    have "length (total (combine fo 1 u32 sum_op) (map (\<lambda>j. read_mem (M j) (ex_bx (vs j)) 4) [0..<n])) = 1 * elem_size u32"
      using n by (intro length_total_combine) (simp_all add: elem_size_def)
    then show ?thesis
      using both_call_values [of n "ex_bx \<circ> vs" "ex_by \<circ> vs" M 1 u32 "\<lambda>j. read_mem (M j) (ex_bx (vs j)) 4" fo s sum_op j] n ap(1)
      by (simp add: elem_size_def)
  qed
  have x: "read_mem (?M1 j) (ex_x (vs j)) 40 = ints (xs j)" if "j < n" for j
    using ap(5,6) [OF that] l1 [OF that] M [OF that] len [OF that] that
    by (simp add: stores_both read_apart example_mem_def)
  have v: "?v ?M1 i = (if right s n 10 i32 i then total (combine fo 10 i32 sum_op) (map (ints \<circ> xs) [0..<n])
      else (ints \<circ> xs) ((both_rot n 10 i32 + 1) mod n))"
    using n ap(2) x by (intro both_call_values) (simp_all add: elem_size_def)
  have lv: "length (?v ?M1 i) = 40"
    using length_total_combine [of i32 n "ints \<circ> xs" 10 fo sum_op] n len unfolding v by (simp add: elem_size_def)
  have M': "M' i = write_mem (?M1 i) (ex_y (vs i)) (?v ?M1 i)"
    using i unfolding M'_def after_calls_def example_call_list_def by (simp add: stores_both [OF i, of "ex_x \<circ> vs"])
  have "elem 4 k (ints (xs j)) = xs j ! k" if "j < n" for j using elem_ints [of k "xs j"] len [OF that] k by simp
  then have e: "elem 4 k (?v ?M1 i) = (if right s n 10 i32 i then \<Sum>j<n. xs j ! k else xs ((both_rot n 10 i32 + 1) mod n) ! k)"
    using n elem_total_sum [OF k n, of fo "ints \<circ> xs"] unfolding v by simp
  show "int_at (M' i) (ex_y (vs i)) k =
      sint (if right s n 10 i32 i then \<Sum>j<n. xs j ! k else xs ((both_rot n 10 i32 + 1) mod n) ! k)"
    using int_at_elem [OF k, of "M' i" "ex_y (vs i)"] lv unfolding M' e [symmetric] by simp
  have "read_mem (M' i) (ex_x (vs i)) 40 = ints (xs i)" using ap(6) [OF i] lv x [OF i] unfolding M' by (simp add: read_apart)
  then show "int_at (M' i) (ex_x (vs i)) k = sint (xs i ! k)"
    using int_at_elem [OF k, of "M' i" "ex_x (vs i)"] elem_ints [of k "xs i"] len [OF i] k by simp
qed

section \<open>From sessions to schedules\<close>

definition example_session :: "nat \<Rightarrow> strategy \<Rightarrow> nat \<Rightarrow> session \<Rightarrow> bool" where
  "example_session n s i se \<longleftrightarrow> se_rank se = i \<and> length (se_peers se) = n \<and> se_topo se = make_graph_pair_list s n \<and>
     sc_rt (se_config se) \<notin> {rt_async, rt_go}"

lemma start_cluster_cong: "(\<And>i. i < n \<Longrightarrow> prog i = prog' i) \<Longrightarrow> start_cluster n M prog = start_cluster n M prog'"
  by (auto simp: start_cluster_def fun_eq_iff)

lemma example_cluster:
  assumes "0 < n" and "\<And>i. i < n \<Longrightarrow> vars_ok (vs i)" and se: "\<And>i. i < n \<Longrightarrow> example_session n s i (se i)"
  shows "\<exists>b a. (\<forall>i<n. example_calls have_go (se i) (vs i) = Inr (i, n, Run_threads (b i), Run_threads (a i))) \<and>
    every_schedule fo (start_cluster n M (\<lambda>i. b i @ a i)) (after_calls n (call_values fo n s) (example_call_list vs) M)"
proof -
  let ?t = "make_graph_pair_list s n" and ?w1 = "\<lambda>i. barrier_ws (ex_bx (vs i)) (ex_by (vs i))" and ?w2 = "\<lambda>i. example_ws (vs i)"
  have "list_all (runs_call fo n ?t (call_values fo n s)) (example_call_list vs)"
    by (rule example_calls_run) (use assms(1,2) in auto)
  from calls_every_schedule [OF this, of M] obtain prog where
    p: "\<And>i. i < n \<Longrightarrow> all_reduce_progs ?t i [?w1 i, ?w2 i] = Inr (prog i)"
      "every_schedule fo (start_cluster n M prog) (after_calls n (call_values fo n s) (example_call_list vs) M)"
    unfolding example_call_ws by blast
  define b a where "b i = projr (all_reduce_prog ?t i (?w1 i))" and "a i = projr (all_reduce_prog ?t i (?w2 i))" for i
  have ba: "all_reduce_prog ?t i (?w1 i) = Inr (b i) \<and> all_reduce_prog ?t i (?w2 i) = Inr (a i) \<and> prog i = b i @ a i" if "i < n" for i
    using p(1) [OF that] by (cases "all_reduce_prog ?t i (?w1 i)"; cases "all_reduce_prog ?t i (?w2 i)") (simp_all add: all_reduce_progs_def b_def a_def)
  have "example_calls have_go (se i) (vs i) = Inr (i, n, Run_threads (b i), Run_threads (a i))" if "i < n" for i
  proof -
    have "sc_rt (se_config (se i)) \<in> {rt_multi_thread, rt_thread_pool, rt_coro}"
      using se [OF that] by (cases "sc_rt (se_config (se i))") (simp_all add: example_session_def)
    then show ?thesis using ba [OF that] se [OF that]
      by (simp add: example_calls_def example_session_def session_all_reduce_threads)
  qed
  moreover have "start_cluster n M prog = start_cluster n M (\<lambda>i. b i @ a i)" using ba by (intro start_cluster_cong) simp
  ultimately show ?thesis using p(2) by auto
qed

text \<open>What the launcher prepares for process \<open>i\<close>.\<close>

definition example_env :: "nat \<Rightarrow> peer_list \<Rightarrow> peer_list \<Rightarrow> nat \<Rightarrow> string \<Rightarrow> nat \<Rightarrow> env \<Rightarrow> bool" where
  "example_env hc ps rs v val i env \<longleftrightarrow> launched env (ps ! i) ps rs v \<and> env ''KUNGFU_ALLREDUCE_STRATEGY'' = Some val \<and>
     sc_rt (parse_system_config_from_env hc env) \<notin> {rt_async, rt_go}"

lemma example_env_session:
  assumes "example_env hc ps rs v val i env" and "distinct ps" and "i < length ps"
  shows "\<exists>p. from_env hc env = Inr p \<and> example_session (length ps) (if val = ''RING'' then ring else star) i (join_session hc p)"
  using assms from_env_launched [of env "ps ! i" ps rs v hc] rank_distinct [OF assms(2,3)]
  by (auto simp: example_env_def example_session_def parse_kungfu_startegy_def kf_strategy_def join_session_def new_session_def
      peer_start_def new_peer_def)

section \<open>Properties\<close>

lemma sint_of_nat: "k < 2 ^ 31 \<Longrightarrow> sint (word_of_nat k :: 32 word) = int k"
  using narrow_small [of k] by (simp add: narrow_int_def)

lemma sum_ranks: "(\<Sum>j<n. word_of_nat j :: 32 word) = word_of_nat (n * (n - 1) div 2)"
  using Sum_Ico_nat [of 0 n] by (simp add: atLeast0LessThan flip: of_nat_sum)

lemma pairs_bound: "n \<le> 46341 \<Longrightarrow> n * (n - 1) < (2 ^ 31 :: nat)"
proof -
  assume n: "n \<le> 46341"
  then have "n - 1 \<le> 46340" by simp
  from mult_le_mono [OF n this] show ?thesis by simp
qed

lemma example_check_value:
  assumes "0 < n" and "n \<le> 46341" and "int_at m (ex_y vs) 0 = int k"
  shows "example_check n vs m = (if k = n * (n - 1) div 2 then Inr (''answer is correct'' @ [CHR 0x0A]) else Inl (Exit 1))"
proof -
  have n: "narrow_int n = int n" using assms(2) by (simp add: narrow_small)
  have "int n * (int n - 1) = int (n * (n - 1))" using assms(1) by (simp add: of_nat_diff)
  moreover have "int (n * (n - 1)) < 2 ^ 31" using pairs_bound [OF assms(2)] by (metis of_nat_less_numeral_power_cancel_iff)
  moreover have "int k = int (n * (n - 1)) div 2 \<longleftrightarrow> k = n * (n - 1) div 2" by (metis of_nat_eq_iff zdiv_int of_nat_numeral)
  ultimately show ?thesis unfolding example_check_def Let_def n assms(3) by (simp only: not_le [symmetric] if_False simp_thms split: if_split) blast
qed

lemma card_relayed:
  assumes "0 < n"
  shows "card {i. i < n \<and> \<not> ring_pos n r i \<le> 1} = n - 2"
proof -
  have "{i. i < n \<and> \<not> ring_pos n r i \<le> 1} = ring_vertex n r ` {2..<n}"
  proof (intro equalityI subsetI)
    fix i
    assume "i \<in> {i. i < n \<and> \<not> ring_pos n r i \<le> 1}"
    moreover from this have "ring_vertex n r (ring_pos n r i) = i" "ring_pos n r i < n"
      using ring_vertex_pos [of i n r] by (auto simp: ring_pos_def [of n r i])
    ultimately show "i \<in> ring_vertex n r ` {2..<n}" by (metis (mono_tags) atLeastLessThan_iff imageI mem_Collect_eq not_less_eq_eq numeral_2_eq_2 One_nat_def)
  qed (use assms ring_pos_vertex [of _ n r] in \<open>auto simp: ring_vertex_def\<close>)
  moreover have "inj_on (ring_vertex n r) {2..<n}" by (rule inj_on_inverseI [of _ "ring_pos n r"]) (simp add: ring_pos_vertex)
  ultimately show ?thesis by (simp add: card_image)
qed

text \<open>The vectors after a run that started with \<open>filled_mem\<close>.\<close>

lemma filled_results:
  assumes "0 < n" and "n \<le> 46341" and "\<And>i. i < n \<Longrightarrow> vars_ok (vs i)" and "i < n" and "k < 10"
    and M': "M' = after_calls n (call_values fo n s) (example_call_list vs) (\<lambda>i. filled_mem (vs i) i (M i))"
  shows "int_at (M' i) (ex_y (vs i)) k = int (if right s n 10 i32 i then n * (n - 1) div 2 else (both_rot n 10 i32 + 1) mod n)"
    and "int_at (M' i) (ex_x (vs i)) k = int i"
proof -
  let ?r = "both_rot n 10 i32" and ?M = "\<lambda>i. filled_mem (vs i) i (M i)"
  let ?k = "if right s n 10 i32 i then n * (n - 1) div 2 else (?r + 1) mod n"
  have b: "n * (n - 1) div 2 < 2 ^ 31" "(?r + 1) mod n < n" using pairs_bound [OF assms(2)] assms(1) by simp_all
  have x: "int_at (M' i) (ex_y (vs i)) k =
      sint (if right s n 10 i32 i then \<Sum>j<n. replicate 10 (word_of_nat j :: 32 word) ! k else replicate 10 (word_of_nat ((?r + 1) mod n)) ! k)"
    "int_at (M' i) (ex_x (vs i)) k = sint (replicate 10 (word_of_nat i :: 32 word) ! k)"
    by (rule example_results [where xs = "\<lambda>j. replicate 10 (word_of_nat j)" and M = ?M and s = s and fo = fo and n = n];
        use assms in \<open>simp add: filled_mem_def\<close>)+
  note x(1)
  also have "sint (if right s n 10 i32 i then \<Sum>j<n. replicate 10 (word_of_nat j :: 32 word) ! k else replicate 10 (word_of_nat ((?r + 1) mod n)) ! k) =
      sint (word_of_nat ?k :: 32 word)" using assms(5) by (simp add: sum_ranks del: of_nat_mod)
  also have "\<dots> = int ?k" by (rule sint_of_nat) (use b assms(2) in auto)
  finally show "int_at (M' i) (ex_y (vs i)) k = int ?k" .
  show "int_at (M' i) (ex_x (vs i)) k = int i" using x(2) assms(2,4,5) by (simp add: sint_of_nat)
qed

lemma filled_check:
  assumes "0 < n" and "n \<le> 46341" and "\<And>i. i < n \<Longrightarrow> vars_ok (vs i)" and i: "i < n"
  shows "example_check n (vs i) (after_calls n (call_values fo n s) (example_call_list vs) (\<lambda>i. filled_mem (vs i) i (M i)) i) =
    (if right s n 10 i32 i then Inr (''answer is correct'' @ [CHR 0x0A]) else Inl (Exit 1))"
proof -
  let ?r = "both_rot n 10 i32"
  have "(?r + 1) mod n \<noteq> n * (n - 1) div 2" if nr: "\<not> right s n 10 i32 i"
  proof -
    have "ring_pos n ?r i < n" using assms(1) by (simp add: ring_pos_def)
    with nr have "2 \<le> n - 1" by (auto simp: right_def)
    then have "n * 2 \<le> n * (n - 1)" by (intro mult_le_mono2)
    moreover have "(?r + 1) mod n < n" using assms(1) by simp
    ultimately show ?thesis by linarith
  qed
  moreover have "int_at (after_calls n (call_values fo n s) (example_call_list vs) (\<lambda>i. filled_mem (vs i) i (M i)) i) (ex_y (vs i)) 0 =
      int (if right s n 10 i32 i then n * (n - 1) div 2 else (?r + 1) mod n)"
    by (rule filled_results(1)) (use assms in auto)
  ultimately show ?thesis using example_check_value [OF assms(1,2)] by auto
qed

text \<open>What \<open>example-1.cpp\<close> prints after the same run.\<close>

lemma example_1_printed:
  assumes "0 < n" and "n \<le> 46341" and "\<And>i. i < n \<Longrightarrow> vars_ok (vs i)" and "i < n" and "right s n 10 i32 i"
    and "M' = after_calls n (call_values fo n s) (example_call_list vs) (\<lambda>i. filled_mem (vs i) i (M i))"
  shows "example_1_output (vs i) (M' i) = pprint (replicate 10 (int i)) @ pprint (replicate 10 (int (n * (n - 1) div 2)))"
proof -
  have "map (int_at (M' i) (ex_x (vs i))) [0..<10] = replicate 10 (int i)"
    "map (int_at (M' i) (ex_y (vs i))) [0..<10] = replicate 10 (int (n * (n - 1) div 2))"
    using filled_results [OF assms(1-4) _ assms(6)] assms(5) by (auto intro!: nth_equalityI)
  then show ?thesis by (simp only: example_1_output_def)
qed

text \<open>C4: The program \<open>example_collective.cpp\<close>, started by the launcher in up to 46341 processes with a multi-threaded
  runtime: every schedule ends with all processes returned from the barrier and the all-reduce. When the launcher
  asks for the strategy \<open>RING\<close> all but two processes find a wrong answer and exit with 1; with any other strategy every
  process finds the right answer.\<close>

theorem example_collective_answers:
  assumes "n = length ps" and "distinct ps" and "0 < n" and "n \<le> 46341"
    and "\<forall>i<n. example_env hc ps rs v val i (env i) \<and> vars_ok (vs i)"
  shows "\<exists>b a M'. (\<forall>i<n. example_program have_go hc (env i) (vs i) = Inr (i, n, Run_threads (b i), Run_threads (a i))) \<and>
    every_schedule fo (start_cluster n (\<lambda>i. filled_mem (vs i) i (M i)) (\<lambda>i. b i @ a i)) M' \<and>
    (\<forall>i<n. example_check n (vs i) (M' i) \<in> {Inr (''answer is correct'' @ [CHR 0x0A]), Inl (Exit 1)}) \<and>
    card {i. i < n \<and> example_check n (vs i) (M' i) = Inl (Exit 1)} = (if val = ''RING'' then n - 2 else 0)"
proof -
  let ?s = "if val = ''RING'' then ring else star" and ?M = "\<lambda>i. filled_mem (vs i) i (M i)" and ?r = "both_rot n 10 i32"
  define p where "p i = projr (from_env hc (env i))" for i
  have p: "from_env hc (env i) = Inr (p i) \<and> example_session n ?s i (join_session hc (p i))" if "i < n" for i
    using example_env_session [of hc ps rs v val i "env i"] assms that by (auto simp: p_def)
  from example_cluster [of n vs ?s "\<lambda>i. join_session hc (p i)" have_go fo ?M] assms(3,5) p obtain b a where
    ba: "\<forall>i<n. example_calls have_go (join_session hc (p i)) (vs i) = Inr (i, n, Run_threads (b i), Run_threads (a i))"
      "every_schedule fo (start_cluster n ?M (\<lambda>i. b i @ a i)) (after_calls n (call_values fo n ?s) (example_call_list vs) ?M)" by blast
  let ?M' = "after_calls n (call_values fo n ?s) (example_call_list vs) ?M"
  have chk: "example_check n (vs i) (?M' i) = (if right ?s n 10 i32 i then Inr (''answer is correct'' @ [CHR 0x0A]) else Inl (Exit 1))"
    if "i < n" for i using filled_check [OF assms(3,4) _ that] assms(5) by blast
  have "{i. i < n \<and> example_check n (vs i) (?M' i) = Inl (Exit 1)} = {i. i < n \<and> \<not> right ?s n 10 i32 i}" using chk by auto
  then have "card {i. i < n \<and> example_check n (vs i) (?M' i) = Inl (Exit 1)} = (if val = ''RING'' then n - 2 else 0)"
    using card_relayed [OF assms(3), of ?r] by (simp add: right_def)
  moreover have "\<forall>i<n. example_program have_go hc (env i) (vs i) = Inr (i, n, Run_threads (b i), Run_threads (a i))"
    using ba(1) p by (simp add: example_program_def)
  moreover have "\<forall>i<n. example_check n (vs i) (?M' i) \<in> {Inr (''answer is correct'' @ [CHR 0x0A]), Inl (Exit 1)}" using chk by auto
  ultimately show ?thesis using ba(2) by blast
qed

text \<open>Three processes on the ring: one of them exits with 1.\<close>

theorem example_collective_answers_witness:
  "(let ps = [\<lparr>ipv4 = 1, port = 2\<rparr>, \<lparr>ipv4 = 1, port = 3\<rparr>, \<lparr>ipv4 = 1, port = 4\<rparr>]; rs = [\<lparr>ipv4 = 1, port = 9\<rparr>];
        vs = \<lparr>ex_bx = 0, ex_by = 4, ex_x = 8, ex_y = 48\<rparr>;
        env = (\<lambda>i. [''KUNGFU_SELF_SPEC'' \<mapsto> peer_string (ps ! i), ''KUNGFU_INIT_PEERS'' \<mapsto> join '','' (map peer_string ps),
          ''KUNGFU_INIT_RUNNERS'' \<mapsto> join '','' (map peer_string rs), ''KUNGFU_INIT_CLUSTER_VERSION'' \<mapsto> to_string 0,
          ''KUNGFU_ALLREDUCE_STRATEGY'' \<mapsto> ''RING'']) in
    \<exists>b a M'. (\<forall>i<3. example_program False 4 (env i) vs = Inr (i, 3, Run_threads (b i), Run_threads (a i))) \<and>
      every_schedule first_operand (start_cluster 3 (\<lambda>i. filled_mem vs i (\<lambda>_. 0)) (\<lambda>i. b i @ a i)) M' \<and>
      card {i. i < 3 \<and> example_check 3 vs (M' i) = Inl (Exit 1)} = 1)"
proof -
  let ?ps = "[\<lparr>ipv4 = 1, port = 2\<rparr>, \<lparr>ipv4 = 1, port = 3\<rparr>, \<lparr>ipv4 = 1, port = 4\<rparr>] :: peer_list" and ?rs = "[\<lparr>ipv4 = 1, port = 9\<rparr>] :: peer_list"
  let ?vs = "\<lparr>ex_bx = 0, ex_by = 4, ex_x = 8, ex_y = 48\<rparr>"
  let ?env = "\<lambda>i. [''KUNGFU_SELF_SPEC'' \<mapsto> peer_string (?ps ! i), ''KUNGFU_INIT_PEERS'' \<mapsto> join '','' (map peer_string ?ps),
    ''KUNGFU_INIT_RUNNERS'' \<mapsto> join '','' (map peer_string ?rs), ''KUNGFU_INIT_CLUSTER_VERSION'' \<mapsto> to_string 0,
    ''KUNGFU_ALLREDUCE_STRATEGY'' \<mapsto> ''RING''] :: env"
  have l: "3 = length ?ps" "distinct ?ps" "0 < (3 :: nat)" "3 \<le> (46341 :: nat)" by simp_all
  have "sc_rt (parse_system_config_from_env 4 (?env i)) = rt_multi_thread" for i
    by (simp add: parse_system_config_from_env_def Let_def parse_env_bool_def safe_getenv_def)
  moreover have "launched (?env i) (?ps ! i) ?ps ?rs 0" for i by (simp add: launched_def)
  ultimately have e: "\<forall>i<3. example_env 4 ?ps ?rs 0 ''RING'' i (?env i) \<and> vars_ok ?vs"
    by (simp add: example_env_def vars_ok_def apart_def del: join.simps)
  from example_collective_answers [OF l e, of False first_operand "\<lambda>_ _. 0"] obtain b a M' where
    r: "\<forall>i<3. example_program False 4 (?env i) ?vs = Inr (i, 3, Run_threads (b i), Run_threads (a i))"
    "every_schedule first_operand (start_cluster 3 (\<lambda>i. filled_mem ?vs i (\<lambda>_. 0)) (\<lambda>i. b i @ a i)) M'"
    "card {i. i < 3 \<and> example_check 3 ?vs (M' i) = Inl (Exit 1)} = (if ''RING'' = ''RING'' then 3 - 2 else 0)" by blast
  have c: "(if ''RING'' = ''RING'' then 3 - 2 else 0) = (1 :: nat)" by simp
  show ?thesis unfolding Let_def by (intro exI conjI) (rule r(1), rule r(2), rule trans [OF r(3) c])
qed

text \<open>In \<open>example_fork.cpp\<close>, run by \<open>prun\<close> in \<open>n\<close> processes, every process prints \<open>n\<close>.\<close>

lemma forked_answers:
  assumes n: "0 < n" "n + 10000 \<le> 2 ^ 16" and "sc_rt (parse_system_config_from_env hc env) \<notin> {rt_async, rt_go}"
    and vs: "\<And>i. i < n \<Longrightarrow> vars_ok (vs i)"
  shows "\<exists>b a M'. (\<forall>i<n. fork_program have_go hc env i n (vs i) = Inr (i, n, Run_threads (b i), Run_threads (a i))) \<and>
    every_schedule fo (start_cluster n (\<lambda>i. iota_mem (vs i) (M i)) (\<lambda>i. b i @ a i)) M' \<and>
    (\<forall>i<n. fork_output (vs i) (M' i) = to_string n @ [CHR 0x0A])"
proof -
  from gen_loopback [OF n(2)] obtain ps where ps: "gen n = Inr ps" "length ps = n" "distinct ps" by blast
  define p where "p i = peer_start (new_peer (parse_system_config_from_env hc env) 0 (ps ! i) ps [] star)" for i
  have p: "from_fork hc env i n = Inr (p i) \<and> example_session n star i (join_session hc (p i))" if "i < n" for i
    using that ps assms(3) rank_distinct [OF ps(3), of i]
    by (simp add: from_fork_def p_def example_session_def join_session_def new_session_def peer_start_def new_peer_def)
  let ?M = "\<lambda>i. iota_mem (vs i) (M i)" let ?M' = "after_calls n (call_values fo n star) (example_call_list vs) ?M"
  from example_cluster [of n vs star "\<lambda>i. join_session hc (p i)" have_go fo ?M] n(1) vs p obtain b a where
    ba: "\<forall>i<n. example_calls have_go (join_session hc (p i)) (vs i) = Inr (i, n, Run_threads (b i), Run_threads (a i))"
      "every_schedule fo (start_cluster n ?M (\<lambda>i. b i @ a i)) ?M'" by blast
  have "int_at (?M' i) (ex_y (vs i)) 0 = int n" if "i < n" for i
  proof -
    let ?xs = "map word_of_nat [1..<11] :: 32 word list"
    have "int_at (?M' i) (ex_y (vs i)) 0 = sint (if right star n 10 i32 i then \<Sum>j<n. ?xs ! 0 else ?xs ! 0)"
      by (rule example_results(1) [where xs = "\<lambda>_. ?xs" and M = ?M]) (use n vs that in \<open>auto simp: iota_mem_def\<close>)
    then show ?thesis using n(2) by (simp add: right_def sint_of_nat)
  qed
  moreover have "\<forall>i<n. fork_program have_go hc env i n (vs i) = Inr (i, n, Run_threads (b i), Run_threads (a i))"
    using ba(1) p by (simp add: fork_program_def)
  ultimately show ?thesis using ba(2) by (intro exI [of _ b] exI [of _ a] exI [of _ ?M']) (simp add: fork_output_def to_string_int_def)
qed

end
