(* ===== verification/Http.thy ===== *)
theory Http
  imports Wire
begin

text \<open>
  The HTTP client that talks to the configuration server: \<open>src/stdml/collective/http.cpp\<close> and the class
  \<open>http_client\<close> of \<open>src/stdml/collective/net/c++20/rchan.cpp\<close>. What the server sends is a \<open>stream\<close> in
  the sense of \<open>Wire\<close>.

  The lemmas show which URLs are accepted, that a request carries what its receiver needs, that a reply
  is returned complete when its header arrives in one piece, and that a header cut at a place without a
  line end is undefined behaviour, because the search for the line end compares with the wrong bound.
\<close>

section \<open>Strings\<close>

definition nl :: char where
  "nl = CHR 0x0A"

definition crlf :: string where
  "crlf = [CHR 0x0D, CHR 0x0A]"

fun trim :: "string \<Rightarrow> string" where
  "trim [] = []"
| "trim (c # s) = (if isspace c then trim s else c # s)"

definition starts_with :: "string \<Rightarrow> string \<Rightarrow> bool" where
  "starts_with s p \<longleftrightarrow> take (length p) s = p"

section \<open>URLs\<close>

definition http_prefix :: string where
  "http_prefix = ''http://''"

text \<open>The results are the host, the port and the path; \<open>None\<close> is the result \<open>false\<close>.\<close>

definition http_parse_url :: "string \<Rightarrow> (string \<times> u16 \<times> string) option" where
  "http_parse_url url =
     (if \<not> starts_with url http_prefix then None
      else (case find_from CHR ''/'' (length http_prefix) url of
          None \<Rightarrow> None
        | Some pos \<Rightarrow>
            (let host = take (pos - length http_prefix) (drop (length http_prefix) url); path = drop pos url in
             case find_char CHR '':'' host of
               Some q \<Rightarrow>
                 (case scan_unsigned 16 (drop (q + 1) host) of
                    Some (p, _) \<Rightarrow> Some (take q host, word_of_nat p, path)
                  | None \<Rightarrow> None)
             | None \<Rightarrow> Some (host, 80, path))))"

section \<open>Headers\<close>

text \<open>The length is scanned as an \<open>int\<close> and returned as a \<open>size_t\<close>.\<close>

fun http_content_length :: "string list \<Rightarrow> u64 option" where
  "http_content_length [] = None"
| "http_content_length (line # lines) =
     (case find_char CHR '':'' line of
        None \<Rightarrow> http_content_length lines
      | Some pos \<Rightarrow>
          if map tolower (take pos line) = ''content-length'' then
            (case scan_int (trim (drop (pos + 1) line)) of
               Some (x, _) \<Rightarrow> Some (word_of_int x)
             | None \<Rightarrow> None)
          else http_content_length lines)"

definition http_make_request :: "string \<Rightarrow> string \<Rightarrow> (string \<times> string) list \<Rightarrow> string" where
  "http_make_request method path kvs = method @ '' '' @ path @ '' HTTP/1.1'' @ crlf @
     concat (map (\<lambda>(k, v). k @ '': '' @ v @ crlf) kvs) @ crlf"

text \<open>The overload for \<open>GET\<close> formats its lines into buffers of 256 characters.\<close>

definition http_make_request_host :: "string \<Rightarrow> string \<Rightarrow> int \<Rightarrow> string \<Rightarrow> string" where
  "http_make_request_host method host p path =
     take 255 (method @ '' '' @ path @ '' HTTP/1.1'') @ crlf @
     take 255 (''Host: '' @ host @ '':'' @ to_string_int p) @ crlf @ crlf"

section \<open>The client\<close>

text \<open>
  The loop over the lines of the buffer. \<open>find\<close> returns \<open>npos\<close> when there is no line end, which is never
  the size of the buffer: the branch that would read more is dead, and a range that ends at \<open>npos - 1\<close>
  is constructed. A line end at the start makes a range that ends before it starts.
\<close>

function header_lines :: "string list \<Rightarrow> string \<Rightarrow> (string list \<times> string) res" where
  "header_lines lines buf =
     (case find_char nl buf of
        None \<Rightarrow> Inl (Undefined_behaviour ''range past the end of the string'')
      | Some pos \<Rightarrow>
          if pos = 1 then Inr (lines, drop (pos + 1) buf)
          else if pos = 0 then Inl (Undefined_behaviour ''range that ends before it starts'')
          else header_lines (lines @ [take (pos - 1) buf]) (drop (pos + 1) buf))"
  by pat_completeness auto
termination
proof (relation "measure (\<lambda>(lines, buf). length buf)")
  fix lines buf pos
  assume "find_char nl buf = Some pos"
  then have "buf \<noteq> []" by auto
  then show "((lines @ [take (pos - 1) buf], drop (pos + 1) buf), (lines, buf)) \<in> measure (\<lambda>(lines, buf). length buf)"
    by simp
qed simp

declare header_lines.simps [simp del]

definition resp_buffer_size :: nat where
  "resp_buffer_size = 2 ^ 16"

definition read_resp_header :: "stream \<Rightarrow> ((string list \<times> string) \<times> stream) res" where
  "read_resp_header s =
     (let (b, s') = read_some resp_buffer_size s in
      if b = [] then Inl (Exception ''end of file'')
      else res_map (\<lambda>r. (r, s')) (header_lines [] (string_of_bytes b)))"

text \<open>\<open>sscanf(line, "%s %d", version, &code)\<close> into sixteen characters; \<open>code\<close> starts as zero.\<close>

definition scan_status :: "string \<Rightarrow> int res" where
  "scan_status line =
     (let s = dropWhile isspace line; version = takeWhile (\<lambda>c. \<not> isspace c) s; rest = dropWhile (\<lambda>c. \<not> isspace c) s in
      if 16 \<le> length version then Inl (Undefined_behaviour ''sscanf past the end of the buffer'')
      else if version = [] then Inr 0
      else (case scan_int rest of Some (st, _) \<Rightarrow> Inr st | None \<Rightarrow> Inr 0))"

text \<open>The body: what came with the header and as many more bytes as the content length says.\<close>

definition read_resp_body :: "u64 option \<Rightarrow> string \<Rightarrow> stream \<Rightarrow> (string \<times> stream) res" where
  "read_resp_body cl body s =
     (case cl of
        None \<Rightarrow> Inr (body, s)
      | Some c \<Rightarrow>
          if 2 ^ 63 \<le> unat c then Inl (Exception ''std::length_error'')
          else if unat c < length body then Inl (Undefined_behaviour ''read past the end of the string'')
          else res_map (\<lambda>(b, s'). (body @ string_of_bytes b, s')) (io_exact (unat c - length body) s))"

definition http_get_request :: "string \<Rightarrow> u16 \<Rightarrow> string \<Rightarrow> string" where
  "http_get_request host p path = http_make_request_host ''GET'' host (uint p) path"

definition http_get :: "stream \<Rightarrow> (int \<times> string) res" where
  "http_get s =
     res_bind (read_resp_header s) (\<lambda>((lines, body), s').
       case lines of
         [] \<Rightarrow> Inl (Undefined_behaviour ''lines[0] of an empty vector'')
       | l # _ \<Rightarrow> res_bind (scan_status l) (\<lambda>st.
           res_map (\<lambda>(body, s''). (st, body)) (read_resp_body (http_content_length lines) body s')))"

definition http_put :: "string \<Rightarrow> u16 \<Rightarrow> string \<Rightarrow> byte list \<Rightarrow> byte list" where
  "http_put host p path data =
     bytes_of_string (http_make_request ''PUT'' path
       [(''Host'', host @ '':'' @ to_string (unat p)), (''Content-Length'', to_string (length data))]) @ data"

section \<open>Lemmas on URLs\<close>

lemma trim_dropWhile: "trim s = dropWhile isspace s"
  by (induction s) simp_all

lemma starts_with_append [simp]: "starts_with (p @ s) p"
  by (simp add: starts_with_def)

lemma parse_url_cases:
  assumes "CHR ''/'' \<notin> set host"
  shows "http_parse_url (http_prefix @ host @ CHR ''/'' # rest) =
    (case find_char CHR '':'' host of
       Some q \<Rightarrow> map_option (\<lambda>(p, _). (take q host, word_of_nat p, CHR ''/'' # rest)) (scan_unsigned 16 (drop (q + 1) host))
     | None \<Rightarrow> Some (host, 80, CHR ''/'' # rest))"
  using find_char_append [OF assms, of rest]
  by (simp add: http_parse_url_def find_from_def Let_def split: option.splits)

text \<open>A URL with a host, a port and a path is taken apart into them; without a port the port is 80;
  a URL without the prefix or without a slash after the host is refused.\<close>

theorem http_parse_url_correct:
  assumes "CHR ''/'' \<notin> set host" and "CHR '':'' \<notin> set host"
  shows "http_parse_url (http_prefix @ host @ '':'' @ to_string (unat p) @ CHR ''/'' # rest) = Some (host, p, CHR ''/'' # rest) \<and>
    http_parse_url (http_prefix @ host @ CHR ''/'' # rest) = Some (host, 80, CHR ''/'' # rest) \<and>
    http_parse_url (http_prefix @ host) = None \<and> http_parse_url (''https://'' @ url) = None"
proof (intro conjI)
  have d: "CHR ''/'' \<notin> set (to_string n)" for n using to_string_digits [of "CHR ''/''" n] by (auto simp: is_digit_def)
  have p: "unat p < 2 ^ 16" using unsigned_less [of p, where ?'a = nat] by simp
  have "scan_unsigned 16 (to_string (unat p)) = Some (unat p, [])"
    using scan_unsigned_to_string [of "unat p" "[]" 16] p by simp
  then show "http_parse_url (http_prefix @ host @ '':'' @ to_string (unat p) @ CHR ''/'' # rest) = Some (host, p, CHR ''/'' # rest)"
    using parse_url_cases [of "host @ '':'' @ to_string (unat p)" rest] assms d find_char_append [OF assms(2)]
    by simp
  show "http_parse_url (http_prefix @ host @ CHR ''/'' # rest) = Some (host, 80, CHR ''/'' # rest)"
    using parse_url_cases [OF assms(1)] assms(2) by (simp add: find_char_None [THEN iffD2])
  show "http_parse_url (http_prefix @ host) = None"
    using assms(1) by (simp add: http_parse_url_def find_from_def find_char_None [THEN iffD2])
  show "http_parse_url (''https://'' @ url) = None"
    by (simp add: http_parse_url_def starts_with_def http_prefix_def)
qed

theorem http_parse_url_correct_witness:
  "http_parse_url ''http://10.0.0.1:9100/config'' = Some (''10.0.0.1'', 9100, ''/config'')"
proof -
  have t: "to_string 9100 = ''9100''" by (simp add: to_string.simps digit_char_def char_of_def bit_0)
  from http_parse_url_correct [of "''10.0.0.1''" 9100 "''config''" "[]"] t show ?thesis
    by (simp add: http_prefix_def)
qed

section \<open>Lemmas on headers\<close>

definition line_ok :: "string \<Rightarrow> bool" where
  "line_ok l \<longleftrightarrow> l \<noteq> [] \<and> nl \<notin> set l"

definition unlines :: "string list \<Rightarrow> string" where
  "unlines ls = concat (map (\<lambda>l. l @ crlf) ls)"

lemma find_nl: "nl \<notin> set l \<Longrightarrow> find_char nl (l @ crlf @ rest) = Some (length l + 1)"
  using find_char_append [of nl "l @ [CHR 0x0D]" rest] by (simp add: crlf_def nl_def)

lemma header_lines_step: "line_ok l \<Longrightarrow> header_lines ls (l @ crlf @ rest) = header_lines (ls @ [l]) rest"
  using find_nl [of l rest] by (subst header_lines.simps) (simp add: line_ok_def crlf_def)

lemma header_lines_end: "header_lines ls (crlf @ rest) = Inr (ls, rest)"
  using find_nl [of "[]" rest] by (subst header_lines.simps) (simp add: crlf_def)

lemma header_lines_cut: "nl \<notin> set part \<Longrightarrow> header_lines ls part = Inl (Undefined_behaviour ''range past the end of the string'')"
  by (subst header_lines.simps) (simp add: find_char_None [THEN iffD2])

lemma header_lines_unlines: "list_all line_ok xs \<Longrightarrow> header_lines ls (unlines xs @ rest) = header_lines (ls @ xs) rest"
proof (induction xs arbitrary: ls)
  case (Cons x xs)
  then show ?case using header_lines_step [of x ls "unlines xs @ rest"] by (simp add: unlines_def)
qed (simp add: unlines_def)

lemma string_of_bytes_append [simp]: "string_of_bytes (a @ b) = string_of_bytes a @ string_of_bytes b"
  by (simp add: string_of_bytes_def)

lemma read_resp_header_first:
  assumes "length p \<le> resp_buffer_size" and "p \<noteq> []"
  shows "read_resp_header (p # ps) = res_map (\<lambda>r. (r, ps)) (header_lines [] (string_of_bytes p))"
  using assms by (simp add: read_resp_header_def)

definition header_key :: "string \<Rightarrow> string" where
  "header_key l = map tolower (takeWhile (\<lambda>c. c \<noteq> CHR '':'') l)"

lemma find_takeWhile: "find_char c s = Some i \<Longrightarrow> take i s = takeWhile (\<lambda>x. x \<noteq> c) s"
  by (auto simp: find_char_Some takeWhile_append)

lemma content_length_skip:
  "(\<And>l. l \<in> set ls \<Longrightarrow> header_key l \<noteq> ''content-length'') \<Longrightarrow> http_content_length (ls @ rest) = http_content_length rest"
  by (induction ls) (auto simp: header_key_def find_takeWhile split: option.splits)

lemma sint_small: "n < 2 ^ 31 \<Longrightarrow> sint (word_of_nat n :: 32 word) = int n"
  using signed_take_bit_int_eq_self [of 31 "int n"] by (simp add: signed_of_nat)

lemma content_length_line:
  assumes "n < 2 ^ 31"
  shows "http_content_length ((''Content-Length: '' @ to_string n) # rest) = Some (word_of_nat n)"
proof -
  obtain c cs where c: "to_string n = c # cs" by (cases "to_string n") simp_all
  then have "\<not> isspace c" using to_string_digits [of c n] by (intro digit_not_space) simp
  moreover have "isspace CHR '' ''" by (simp add: isspace_def)
  ultimately have t: "trim ('' '' @ to_string n) = to_string n" using c by simp
  have "scan_int (to_string n) = Some (int n, [])"
    using scan_number_to_string [of "[]" n] assms by (simp add: scan_int_def strtol_def sint_small)
  moreover have "map tolower ''Content-Length'' = ''content-length''" by code_simp
  moreover have "find_char CHR '':'' (''Content-Length: '' @ to_string n) = Some 14" by simp
  ultimately show ?thesis using t by simp
qed

lemma scan_status_line:
  assumes "n < 2 ^ 31"
  shows "scan_status (''HTTP/1.1 '' @ to_string n @ '' '' @ reason) = Inr (int n)"
proof -
  have "scan_number ('' '' @ to_string n @ '' '' @ reason) = scan_number (to_string n @ '' '' @ reason)"
    by (simp add: scan_number_def isspace_def)
  then have "scan_number ('' '' @ to_string n @ '' '' @ reason) = Some ((False, n), '' '' @ reason)"
    using scan_number_to_string [of "'' '' @ reason" n] by (simp add: is_digit_def)
  then have "scan_int ('' '' @ to_string n @ '' '' @ reason) = Some (int n, '' '' @ reason)"
    using assms by (simp add: scan_int_def strtol_def sint_small)
  then show ?thesis by (simp add: scan_status_def isspace_def)
qed

section \<open>Properties\<close>

definition reply_header :: "nat \<Rightarrow> string \<Rightarrow> string list \<Rightarrow> nat \<Rightarrow> string list" where
  "reply_header st reason hs n = (''HTTP/1.1 '' @ to_string st @ '' '' @ reason) # hs @ [''Content-Length: '' @ to_string n]"

lemma nl_not_digit: "nl \<notin> set (to_string n)"
  using to_string_digits [of nl n] by (auto simp: is_digit_def nl_def)

lemma reply_header_ok:
  assumes "list_all line_ok hs" and "nl \<notin> set reason"
  shows "list_all line_ok (reply_header st reason hs n)"
  using assms nl_not_digit by (simp add: reply_header_def line_ok_def) (simp add: nl_def)

lemma reply_header_length:
  assumes "\<forall>l\<in>set hs. header_key l \<noteq> ''content-length''" and "n < 2 ^ 31"
  shows "http_content_length (reply_header st reason hs n) = Some (word_of_nat n)"
proof -
  have "header_key (''HTTP/1.1 '' @ x) \<noteq> ''content-length''" for x
    by (simp add: header_key_def tolower_def char_of_def bit_0)
  then have "http_content_length (((''HTTP/1.1 '' @ to_string st @ '' '' @ reason) # hs) @ [''Content-Length: '' @ to_string n]) =
      http_content_length [''Content-Length: '' @ to_string n]"
    using assms(1) by (intro content_length_skip) (auto simp del: append_Cons)
  with content_length_line [OF assms(2), of "[]"] show ?thesis by (simp add: reply_header_def)
qed

lemma http_get_steps:
  assumes "read_resp_header s = Inr ((ls, b), s')" and "ls \<noteq> []" and "scan_status (hd ls) = Inr st"
    and "read_resp_body (http_content_length ls) b s' = Inr (body, s'')"
  shows "http_get s = Inr (st, body)"
  using assms by (cases ls) (simp_all add: http_get_def del: http_content_length.simps)

text \<open>C26: \<open>http_get\<close> returns the status and the complete body of a reply with a content length, however the
  body is cut into pieces, when the first piece holds the whole header and fits the buffer.\<close>

theorem http_get_correct:
  assumes "list_all line_ok hs" and "nl \<notin> set reason" and "\<forall>l\<in>set hs. header_key l \<noteq> ''content-length''"
    and "st < 2 ^ 31" and "length body < 2 ^ 31"
    and "pieces ps" and "b @ concat ps = body @ extra" and "length b \<le> length body"
    and "length (unlines (reply_header st reason hs (length body)) @ crlf) + length b \<le> resp_buffer_size"
  shows "http_get ((bytes_of_string (unlines (reply_header st reason hs (length body)) @ crlf) @ b) # ps) =
    Inr (int st, string_of_bytes body)"
proof -
  let ?h = "reply_header st reason hs (length body)"
  let ?p = "bytes_of_string (unlines ?h @ crlf) @ b" and ?k = "length body - length b"
  have "header_lines [] (string_of_bytes ?p) = Inr (?h, string_of_bytes b)"
    using header_lines_unlines [OF reply_header_ok [OF assms(1,2)], of "[]" _ _ "crlf @ string_of_bytes b"]
    by (simp add: header_lines_end)
  moreover have "?p \<noteq> []" "length ?p \<le> resp_buffer_size" using assms(9) by (auto simp: crlf_def bytes_of_string_def)
  ultimately have h: "read_resp_header (?p # ps) = Inr ((?h, string_of_bytes b), ps)"
    using read_resp_header_first by simp
  have t: "take (length body) (b @ concat ps) = body" unfolding assms(7) by simp
  then have "take ?k (concat ps) = drop (length b) body" using assms(8) by (metis append_eq_conv_conj drop_take take_append)
  moreover have "?k \<le> length (concat ps)" using arg_cong [OF assms(7), of length] by simp
  ultimately obtain s where "io_exact ?k ps = Inr (drop (length b) body, s)" using io_exact_Inr [OF assms(6)] by metis
  moreover have "b @ drop (length b) body = body"
    using assms(8) arg_cong [OF assms(7), of "take (length b)"] by (metis append_eq_conv_conj append_take_drop_id take_append append_Nil2 diff_is_0_eq take0)
  then have "string_of_bytes b @ string_of_bytes (drop (length b) body) = string_of_bytes body"
    by (metis string_of_bytes_append)
  moreover have "length (string_of_bytes b) = length b" by (simp add: string_of_bytes_def)
  moreover have "unat (word_of_nat (length body) :: u64) = length body" using assms(5) by (simp add: unat_of_nat)
  ultimately have "read_resp_body (Some (word_of_nat (length body))) (string_of_bytes b) ps = Inr (string_of_bytes body, s)"
    using assms(5,8) by (simp add: read_resp_body_def)
  then have r: "read_resp_body (http_content_length ?h) (string_of_bytes b) ps = Inr (string_of_bytes body, s)"
    using reply_header_length [OF assms(3,5), of st reason] by (simp only:)
  have "scan_status (hd ?h) = Inr (int st)" using scan_status_line [OF assms(4)] by (simp add: reply_header_def)
  from http_get_steps [OF h _ this r] show ?thesis by (simp add: reply_header_def)
qed

theorem http_get_correct_witness:
  "(let h = unlines (reply_header 200 ''OK'' [''Server: go''] 2) @ crlf in
    http_get [bytes_of_string h @ [123], [125]] = Inr (200, ''{}''))"
proof -
  let ?n = "length (unlines (reply_header 200 ''OK'' [''Server: go''] 2) @ crlf)"
  have t: "to_string 200 = ''200''" "to_string 2 = ''2''" by (simp_all add: to_string.simps digit_char_def char_of_def bit_0)
  have "list_all line_ok [''Server: go'']" "nl \<notin> set ''OK''" "\<forall>l\<in>set [''Server: go'']. header_key l \<noteq> ''content-length''"
    by (simp_all add: line_ok_def nl_def header_key_def tolower_def char_of_def bit_0)
  from http_get_correct [OF this, of 200 "[123, 125]" "[[125]]" "[123]" "[]"] show ?thesis
    by (simp add: pieces_def resp_buffer_size_def unlines_def crlf_def reply_header_def t [simplified]
        string_of_bytes_def char_of_def bit_0 numeral_2_eq_2 [symmetric])
qed

text \<open>C27: When the first piece of a reply ends inside a header line, \<open>http_get\<close> builds a string from a range
  that ends far behind its buffer, whatever would arrive next.\<close>

theorem http_get_header_cut:
  assumes "list_all line_ok ls" and "nl \<notin> set part" and "unlines ls @ part \<noteq> []" and "length (unlines ls @ part) \<le> resp_buffer_size"
  shows "http_get (bytes_of_string (unlines ls @ part) # ps) = Inl (Undefined_behaviour ''range past the end of the string'')"
proof -
  have "bytes_of_string (unlines ls @ part) \<noteq> []" using assms(3) by (simp add: bytes_of_string_def)
  then have "read_resp_header (bytes_of_string (unlines ls @ part) # ps) = Inl (Undefined_behaviour ''range past the end of the string'')"
    using header_lines_unlines [OF assms(1), of "[]" part] header_lines_cut [OF assms(2), of ls] assms(4)
    by (subst read_resp_header_first) simp_all
  then show ?thesis by (simp add: http_get_def)
qed

theorem http_get_header_cut_witness:
  "http_get [bytes_of_string (unlines [''HTTP/1.1 200 OK''] @ ''Content-Le''), bytes_of_string (''ngth: 0'' @ crlf @ crlf)] =
   Inl (Undefined_behaviour ''range past the end of the string'')"
  by (rule http_get_header_cut) (simp_all add: line_ok_def nl_def unlines_def crlf_def resp_buffer_size_def)

text \<open>The bytes that \<open>http_put\<close> writes are, read as a message, the request line, the host and the length
  of the data, and then the data.\<close>

theorem http_put_message:
  assumes "nl \<notin> set host" and "nl \<notin> set path" and "length data < 2 ^ 31"
  shows "\<exists>lines. header_lines [] (string_of_bytes (http_put host p path data)) = Inr (lines, string_of_bytes data) \<and>
    hd lines = ''PUT '' @ path @ '' HTTP/1.1'' \<and> http_content_length (tl lines) = Some (word_of_nat (length data))"
proof -
  let ?h = "''Host: '' @ host @ '':'' @ to_string (unat p)" and ?c = "''Content-Length: '' @ to_string (length data)"
  let ?ls = "[''PUT '' @ path @ '' HTTP/1.1'', ?h, ?c]"
  have "string_of_bytes (http_put host p path data) = unlines ?ls @ crlf @ string_of_bytes data"
    by (simp add: http_put_def http_make_request_def unlines_def)
  moreover have "list_all line_ok ?ls" using assms nl_not_digit by (simp add: line_ok_def) (simp add: nl_def)
  ultimately have "header_lines [] (string_of_bytes (http_put host p path data)) = Inr (?ls, string_of_bytes data)"
    using header_lines_unlines [of ?ls "[]"] by (simp add: header_lines_end)
  moreover have "header_key ?h \<noteq> ''content-length''" by (simp add: header_key_def tolower_def char_of_def bit_0)
  then have "http_content_length ([?h] @ [?c]) = http_content_length [?c]" by (intro content_length_skip) simp
  ultimately show ?thesis using content_length_line [OF assms(3), of "[]"] by (intro exI [of _ ?ls]) simp
qed

theorem http_put_message_witness:
  "\<exists>lines. header_lines [] (string_of_bytes (http_put ''127.0.0.1'' 9100 ''/put'' [123, 125])) = Inr (lines, string_of_bytes [123, 125]) \<and>
    hd lines = ''PUT '' @ ''/put'' @ '' HTTP/1.1'' \<and> http_content_length (tl lines) = Some (word_of_nat (length [123 :: byte, 125]))"
  by (rule http_put_message) (simp_all add: nl_def)

end
