(* ===== verification/Waiting.thy ===== *)
theory Waiting
  imports Schedules
begin

text \<open>
  A process that takes part in a collective alone. When a peer has been detached from a cluster,
  \<open>elastic_state::should_stop\<close> still calls \<open>sync\<close>, which runs an all-reduce in the session the other
  peers have left (\<open>src/stdml/collective/elastic_state.cpp\<close>, lines 37 to 50 and 58 to 67). The lemmas
  show on the transition system of \<open>Collective\<close> that a process other than the root of the star never
  returns from an all-reduce as long as nobody sends to it.
\<close>

section \<open>Nobody sends\<close>

definition silent :: "nat \<Rightarrow> proc \<Rightarrow> bool" where
  "silent d p \<longleftrightarrow> (\<forall>red. T_send red d \<notin> set (p_threads p)) \<and>
     (\<forall>red ids. Par_send red ids \<in> set (p_rest p) \<longrightarrow> d \<notin> set ids)"

definition waits :: "proc \<Rightarrow> bool" where
  "waits p \<longleftrightarrow> (\<exists>src ids. Recv_into (src # ids) \<in> set (p_rest p)) \<or>
     (\<exists>src ids. p_threads p = [T_into (src # ids)]) \<or> (\<exists>src ids. p_threads p = [T_await src ids])"

definition alone :: "nat \<Rightarrow> cluster \<Rightarrow> bool" where
  "alone d c \<longleftrightarrow> (\<forall>i. wire c i d = [] \<and> silent d (procs c i)) \<and> p_recvq (procs c d) = (\<lambda>_. []) \<and> waits (procs c d)"

lemma waits_rest: "Recv_into (src # ids) \<in> set (p_rest p) \<Longrightarrow> waits p"
  by (auto simp: waits_def)

lemma silent_set_thread:
  assumes "silent d p" and "\<And>red. t \<noteq> T_send red d"
  shows "silent d (set_thread k t p)"
  using assms set_update_subset_insert [of "p_threads p" k t] by (auto simp: silent_def set_thread_def)

lemma silent_upd [simp]: "silent d (p\<lparr>p_mail := x\<rparr>) = silent d p" "silent d (p\<lparr>p_waitq := y\<rparr>) = silent d p"
  "silent d (p\<lparr>p_recvq := z\<rparr>) = silent d p" "silent d (p\<lparr>p_st := st\<rparr>) = silent d p" "silent d (fault e p) = silent d p"
  "silent d (p\<lparr>p_mem := m\<rparr>) = silent d p"
  by (simp_all add: silent_def fault_def)

lemma fault_upd [simp]: "waits (fault e p) = waits p" "p_recvq (fault e p) = p_recvq p"
  by (simp_all add: waits_def fault_def)

lemma silent_thread_step: "thread_step fo k t p = Some q \<Longrightarrow> silent d p \<Longrightarrow> silent d q"
  by (cases "(fo, k, t, p)" rule: thread_step.cases)
    (auto simp: Let_def intro!: silent_set_thread split: list.splits sum.splits if_splits)

lemma silent_start: "silent d p \<Longrightarrow> p_rest p = ins # rest \<Longrightarrow> silent d (start ins (p\<lparr>p_rest := rest\<rparr>))"
  by (auto simp: silent_def start_def fault_def split: instr.splits sum.splits)

lemma silent_handle: "handle s m p = Some q \<Longrightarrow> silent d p \<Longrightarrow> silent d q"
  by (auto simp: silent_def handle_def Let_def split: if_splits list.splits)

lemma waits_thread_step:
  assumes "thread_step fo k (p_threads p ! k) p = Some q" and "k < length (p_threads p)"
    and "p_recvq p = (\<lambda>_. [])" and "waits p"
  shows "p_recvq q = (\<lambda>_. []) \<and> waits q"
proof -
  consider src ids where "Recv_into (src # ids) \<in> set (p_rest p)" | src ids where "p_threads p = [T_into (src # ids)]"
    | src ids where "p_threads p = [T_await src ids]" using assms(4) by (auto simp: waits_def)
  then show ?thesis
  proof cases
    case 1
    have "p_recvq q = p_recvq p \<and> p_rest q = p_rest p"
      using assms(1,3) by (cases "(fo, k, p_threads p ! k, p)" rule: thread_step.cases)
        (auto simp: set_thread_def fault_def Let_def split: list.splits sum.splits if_splits)
    with 1 assms(3) show ?thesis by (auto intro: waits_rest)
  next
    case 2
    with assms(1,2,3) show ?thesis by (auto simp: waits_def set_thread_def split: if_splits)
  next
    case 3
    with assms show ?thesis by simp
  qed
qed

lemma waits_start:
  assumes "waits p" and "list_all finished (p_threads p)" and "p_rest p = ins # rest"
  shows "waits (start ins (p\<lparr>p_rest := rest\<rparr>))"
proof -
  obtain src ids where "Recv_into (src # ids) \<in> set (ins # rest)" using assms by (auto simp: waits_def)
  then show ?thesis by (cases ins) (auto simp: waits_def start_def fault_def split: sum.splits)
qed

lemma recvq_start [simp]: "p_recvq (start ins p) = p_recvq p"
  by (auto simp: start_def fault_def split: instr.splits sum.splits)

lemma alone_step: "alone d c \<Longrightarrow> exec fo l c = Some c' \<Longrightarrow> alone d c'"
proof (cases l)
  case (Thr i k)
  assume a: "alone d c" and e: "exec fo l c = Some c'"
  let ?p = "procs c i"
  from e Thr have k: "k < length (p_threads ?p)" by (auto simp: Let_def split: if_splits)
  have s: "silent d ?p" using a by (simp add: alone_def)
  show ?thesis
  proof (cases "\<exists>red x. p_threads ?p ! k = T_send red x")
    case True
    then obtain red x where t: "p_threads ?p ! k = T_send red x" by blast
    then have "x \<noteq> d" using s k nth_mem [OF k] by (auto simp: silent_def)
    moreover have "waits (set_thread k T_done ?p)" if "i = d"
      using a that t k by (auto simp: alone_def waits_def set_thread_def)
    moreover have "p_recvq (set_thread k T_done ?p) = p_recvq ?p" by (simp add: set_thread_def)
    ultimately show ?thesis
      using a e Thr t s silent_set_thread [OF s, of T_done k]
      by (auto simp: alone_def Let_def set_proc_def enqueue_def split: if_splits sum.splits)
  next
    case False
    then obtain q where q: "thread_step fo k (p_threads ?p ! k) ?p = Some q" "c' = set_proc i q c"
      using e Thr by (auto simp: Let_def split: if_splits thread.splits)
    have "silent d q" using silent_thread_step [OF q(1) s] .
    moreover have "p_recvq q = (\<lambda>_. []) \<and> waits q" if "i = d"
      using waits_thread_step [OF q(1) k] a that by (simp add: alone_def)
    ultimately show ?thesis using a q(2) by (auto simp: alone_def set_proc_def)
  qed
next
  case (Join i)
  assume a: "alone d c" and e: "exec fo l c = Some c'"
  then obtain ins rest where r: "p_rest (procs c i) = ins # rest" "list_all finished (p_threads (procs c i))"
      "c' = set_proc i (start ins ((procs c i)\<lparr>p_rest := rest\<rparr>)) c"
    using Join by (auto simp: Let_def split: if_splits list.splits)
  then show ?thesis
    using a silent_start [of d "procs c i" ins rest] waits_start [of "procs c i" ins rest]
    by (auto simp: alone_def set_proc_def)
next
  case (Hand s x)
  assume a: "alone d c" and e: "exec fo l c = Some c'"
  then obtain m ms q where r: "wire c s x = m # ms" "handle s m (procs c x) = Some q" "c' = dequeue s x (set_proc x q c)"
    using Hand by (auto simp: Let_def split: if_splits list.splits)
  then have "x \<noteq> d" using a by (auto simp: alone_def)
  with a r silent_handle [OF r(2)] show ?thesis by (auto simp: alone_def set_proc_def dequeue_def)
qed

lemma alone_run: "alone d c \<Longrightarrow> run_labels (exec fo) ls c = Some c' \<Longrightarrow> alone d c'"
  by (induction ls arbitrary: c) (auto split: option.splits intro: alone_step)

section \<open>The program of a leaf\<close>

lemma star_leaf_prog:
  assumes "0 < d" and "d < n" and "0 < w_count w" and "is_integer (w_dt w)"
    and "all_reduce_prog (make_graph_pair_list star n) d w = Inr prog"
  shows "Recv_into [0] \<in> set prog" "Par_send red ids \<in> set prog \<Longrightarrow> d \<notin> set ids"
proof -
  let ?g = "make_graph_pair_list star n"
  have n: "0 < n" using assms by simp
  have ne: "?g \<noteq> []" using n by (rule make_graph_pair_list_nonempty)
  have c: "0 < all_reduce_chunk_size" by (simp add: all_reduce_chunk_size_def)
  obtain ps where
    ps: "split_work w ?g all_reduce_chunk_size = Inr (map (\<lambda>p. (slice_of w p, graphs (pair_of ?g (w_name (slice_of w p))))) ps)"
      "length ps = ceil_div (w_count w * elem_size (w_dt w)) all_reduce_chunk_size"
    by (rule split_work_chunks [OF assms(3) dtype_size_integer [OF assms(4)] elem_size_pos [OF assms(4)] c ne])
  have pr: "pair_of ?g x = star_pair n 0" for x using pair_of_in [OF ne, of x] by (simp add: make_graph_pair_list_def make_star)
  have "0 < length ps" unfolding ps(2) using assms(3) elem_size_pos [OF assms(4)] by (intro ceil_div_pos c) simp
  then obtain p0 ps' where p0: "ps = p0 # ps'" by (cases ps) auto
  have prog: "prog = concat (map (\<lambda>p. run_graphs_prog d (slice_of w p) (graphs (star_pair n 0))) ps)"
    using assms(5) ps(1) pr by (simp add: all_reduce_prog_def run_graph_pair_list_def comp_def)
  have g: "run_graphs_prog d v (graphs (star_pair n 0)) =
      [New_state v, Par_recv [], Par_send True [0], Recv_into [0], Par_send False []]" for v
    using graph_prog_star_reduce [OF n assms(2)] graph_prog_star_bcast [OF n assms(2)] assms(1) by (simp add: run_graphs_prog_def)
  show "Recv_into [0] \<in> set prog" unfolding prog g p0 by simp
  show "d \<notin> set ids" if "Par_send red ids \<in> set prog" using that assms(1) unfolding prog g by auto
qed

end
