(* ===== verification/Elastic.thy ===== *)
theory Elastic
  imports Peer Http Waiting
begin

text \<open>
  Elastic training: \<open>src/stdml/collective/elastic_state.cpp\<close> and the configuration server client of
  \<open>src/stdml/collective/elastic/elastic.cpp\<close>. An \<open>elastic_state\<close> counts the progress of a process; it is
  synchronised with the other peers of the session by an all-reduce after each change of the cluster.

  What the all-reduce returns is an argument of the operations; the properties instantiate it with the
  maximum over the peers. The lemmas show that the peers of a session stay in step across changes of the
  cluster and that joining peers catch up, and that a detached peer never gets out of its loop.
\<close>

section \<open>The configuration server\<close>

text \<open>
  The environment names the server; \<open>server\<close> gives the bytes that answer a request, \<open>go_config\<close> what the
  Go client writes into the buffer. The result of the first request is only looked at for its status.
\<close>

definition get_cluster_config :: "env \<Rightarrow> (string \<Rightarrow> stream) \<Rightarrow> byte list \<Rightarrow> cluster_config option res" where
  "get_cluster_config env server go_config =
     (case http_parse_url (safe_getenv env ''KUNGFU_CONFIG_SERVER'') of
        None \<Rightarrow> Inr None
      | Some (host, p, path) \<Rightarrow>
          res_bind (http_get (server (http_get_request host p path))) (\<lambda>(st, config).
            if st \<noteq> 200 then Inr None
            else if go_config = [] then Inr None
            else res_bind (cluster_from go_config) (\<lambda>c. case c of
                None \<Rightarrow> Inl (Exception ''std::bad_optional_access'')
              | Some c \<Rightarrow> Inr (Some c))))"

text \<open>The bytes written to the server, if there is one.\<close>

definition propose_new_size :: "env \<Rightarrow> cluster_config \<Rightarrow> nat \<Rightarrow> (string \<times> u16 \<times> byte list) option outcome" where
  "propose_new_size env old_cluster new_size =
     (case http_parse_url (safe_getenv env ''KUNGFU_CONFIG_SERVER'') of
        None \<Rightarrow> Some (Inr None)
      | Some (host, p, path) \<Rightarrow>
          map_option (res_map (\<lambda>c. Some (host, p, http_put host p path (bytes_of_string (cluster_json c))))) (resize old_cluster new_size))"

text \<open>
  The overloads of \<open>resize\<close> that use the configuration server. Built without it, they report that nothing has
  changed; with it, \<open>resize(sess, new_size)\<close> first proposes the resized cluster. \<open>get_config\<close> is what the server
  answers round by round.
\<close>

definition unchanged :: "peer \<Rightarrow> session \<Rightarrow> resized" where
  "unchanged p se = \<lparr>rz_result = \<lparr>rr_changed = False, rr_detached = False\<rparr>, rz_session = se, rz_peer = p, rz_commit = None\<rparr>"

definition resize_elastic :: "bool \<Rightarrow> nat \<Rightarrow> (nat \<Rightarrow> cluster_config option) \<Rightarrow> (nat \<Rightarrow> byte list \<Rightarrow> bool) \<Rightarrow> peer \<Rightarrow> session \<Rightarrow> resized option" where
  "resize_elastic enabled hc get_config cons p se =
     (if enabled then peer_resize hc get_config cons p se else Some (unchanged p se))"

definition resize_new_size :: "bool \<Rightarrow> nat \<Rightarrow> env \<Rightarrow> (nat \<Rightarrow> cluster_config option) \<Rightarrow> (nat \<Rightarrow> byte list \<Rightarrow> bool) \<Rightarrow> peer \<Rightarrow> session \<Rightarrow> nat \<Rightarrow> resized outcome" where
  "resize_new_size enabled hc env get_config cons p se new_size =
     (if \<not> enabled then Some (Inr (unchanged p se))
      else (case propose_new_size env (session_cluster se) new_size of
              None \<Rightarrow> None
            | Some (Inl e) \<Rightarrow> Some (Inl e)
            | Some (Inr _) \<Rightarrow> map_option Inr (resize_elastic True hc get_config cons p se)))"

text \<open>Without a server in the environment nothing is proposed, and the old cluster is kept.\<close>

lemma resize_without_server:
  assumes "http_parse_url (safe_getenv env ''KUNGFU_CONFIG_SERVER'') = None"
    and "cons 0 (cluster_bytes (session_cluster se))" and "get_config 0 = None"
  shows "resize_new_size enabled hc env get_config cons p se n = Some (Inr (unchanged p se))"
proof -
  have "agree_loop get_config cons (session_cluster se) 0 = Some (session_cluster se)"
    using assms(2,3) by (subst agree_loop.simps) simp
  then show ?thesis using assms(1)
    by (simp add: resize_new_size_def resize_elastic_def propose_new_size_def peer_resize_def switch_cluster_def unchanged_def Let_def)
qed

section \<open>Elastic states\<close>

record elastic_state =
  es_peer :: peer
  es_sess :: session
  es_max_progress :: "int option"
  es_progress :: "64 word"
  es_synced :: bool
  es_detached :: bool

definition new_elastic_state :: "nat \<Rightarrow> peer \<Rightarrow> int option \<Rightarrow> elastic_state" where
  "new_elastic_state hc p max_progress =
     \<lparr>es_peer = p, es_sess = join_session hc p, es_max_progress = max_progress, es_progress = 0, es_synced = False, es_detached = False\<rparr>"

text \<open>\<open>reduced\<close> is the result of \<open>all_reduce(progress_, max)\<close>.\<close>

definition es_sync :: "64 word \<Rightarrow> elastic_state \<Rightarrow> elastic_state" where
  "es_sync reduced s = (if es_synced s then s else s\<lparr>es_progress := reduced, es_synced := True\<rparr>)"

definition es_value :: "64 word \<Rightarrow> elastic_state \<Rightarrow> elastic_state \<times> int" where
  "es_value reduced s = (let s1 = es_sync reduced s in (s1, sint (es_progress s1)))"

definition should_stop :: "64 word \<Rightarrow> elastic_state \<Rightarrow> elastic_state \<times> bool" where
  "should_stop reduced s =
     (let s1 = es_sync reduced s in
      (s1, es_detached s1 \<or> (case es_max_progress s1 of Some m \<Rightarrow> m \<le> sint (es_progress s1) | None \<Rightarrow> False)))"

definition check_resize :: "resized \<Rightarrow> elastic_state \<Rightarrow> elastic_state" where
  "check_resize r s = s\<lparr>es_peer := rz_peer r, es_sess := rz_session r,
     es_detached := es_detached s \<or> rr_detached (rz_result r),
     es_synced := es_synced s \<and> \<not> rr_changed (rz_result r)\<rparr>"

definition es_increment :: "nat \<Rightarrow> (nat \<Rightarrow> cluster_config option) \<Rightarrow> (nat \<Rightarrow> byte list \<Rightarrow> bool) \<Rightarrow> 64 word \<Rightarrow> elastic_state \<Rightarrow> elastic_state option" where
  "es_increment hc get_config cons reduced s =
     (let s1 = es_sync reduced s; s2 = s1\<lparr>es_progress := es_progress s1 + 1\<rparr> in
      map_option (\<lambda>r. check_resize r s2) (peer_resize hc get_config cons (es_peer s2) (es_sess s2)))"

section \<open>Staying in step\<close>

definition max_progress :: "nat \<Rightarrow> (nat \<Rightarrow> elastic_state) \<Rightarrow> 64 word" where
  "max_progress n s = total (std_max sless) (map (\<lambda>i. es_progress (s i)) [0..<n])"

text \<open>The all-reduce that \<open>sync\<close> runs computes this maximum.\<close>

lemma sync_all_reduce:
  assumes "0 < n"
  shows "total (combine fo 1 i64 max_op) (map (\<lambda>i. bytes_of_word 8 (es_progress (s i))) [0..<n]) = bytes_of_word 8 (max_progress n s)"
proof -
  have h: "bytes_of_word 8 (std_max sless a b) = combine fo 1 i64 max_op (bytes_of_word 8 a) (bytes_of_word 8 b)" for a b :: "64 word"
    using word_bytes_word [where 'a = 64, of 8 a] word_bytes_word [where 'a = 64, of 8 b] by (simp add: combine_simps transform_def)
  have "bytes_of_word 8 (max_progress n s) = total (combine fo 1 i64 max_op) (map (bytes_of_word 8) (map (\<lambda>i. es_progress (s i)) [0..<n]))"
    unfolding max_progress_def using assms h by (intro total_hom) simp_all
  then show ?thesis by (simp add: comp_def)
qed

lemma fold_max_sless:
  "sint a \<le> sint (fold (std_max sless) xs a) \<and> (\<forall>x\<in>set xs. sint x \<le> sint (fold (std_max sless) xs a)) \<and> fold (std_max sless) xs a \<in> insert a (set xs)"
proof (induction xs arbitrary: a)
  case (Cons x xs)
  from Cons.IH [of "std_max sless x a"] show ?case by (auto simp: std_max_def sless_def split: if_splits)
qed simp

lemma max_progress_bounds:
  assumes "i < n"
  shows "sint (es_progress (s i)) \<le> sint (max_progress n s)" "\<exists>j<n. max_progress n s = es_progress (s j)"
proof -
  let ?f = "\<lambda>i. es_progress (s i)"
  have n: "[0..<n] = 0 # [1..<n]" using assms by (simp add: upt_conv_Cons)
  have m: "max_progress n s = fold (std_max sless) (map ?f [1..<n]) (?f 0)" by (simp add: max_progress_def total_def n)
  note f = fold_max_sless [of "?f 0" "map ?f [1..<n]", folded m]
  show "sint (?f i) \<le> sint (max_progress n s)" using f assms by (cases i) auto
  from f have "max_progress n s \<in> ?f ` {0..<n}" using assms by auto
  then show "\<exists>j<n. max_progress n s = ?f j" by auto
qed

text \<open>The peers of one session are in step: all are synchronised or none is, and if they are, they agree.\<close>

definition in_step :: "nat \<Rightarrow> (nat \<Rightarrow> elastic_state) \<Rightarrow> bool" where
  "in_step n s \<longleftrightarrow> (\<forall>i<n. \<forall>j<n. es_synced (s i) = es_synced (s j) \<and> (es_synced (s i) \<longrightarrow> es_progress (s i) = es_progress (s j)))"

lemma sync_in_step:
  assumes "in_step n s" and "i < n"
  shows "es_progress (es_sync (max_progress n s) (s i)) = max_progress n s" "es_synced (es_sync (max_progress n s) (s i))"
proof -
  from max_progress_bounds(2) [OF assms(2), of s] obtain j where j: "j < n" "max_progress n s = es_progress (s j)" by blast
  with assms have "es_synced (s i) \<longrightarrow> es_progress (s i) = max_progress n s" unfolding in_step_def by metis
  then show "es_progress (es_sync (max_progress n s) (s i)) = max_progress n s" by (simp add: es_sync_def)
qed (simp add: es_sync_def)

text \<open>When the peers of a session are in step, each operation of an elastic state first gives all of them
  the largest progress of any of them, and peers with the same limit that are not detached take the same
  decision to stop.\<close>

theorem elastic_sync_agrees:
  assumes "in_step n s" and "i < n" and "j < n"
  shows "snd (es_value (max_progress n s) (s i)) = snd (es_value (max_progress n s) (s j)) \<and>
    sint (es_progress (s j)) \<le> snd (es_value (max_progress n s) (s i)) \<and>
    (es_max_progress (s i) = es_max_progress (s j) \<and> es_detached (s i) = es_detached (s j) \<longrightarrow>
      snd (should_stop (max_progress n s) (s i)) = snd (should_stop (max_progress n s) (s j)))"
proof -
  note p = sync_in_step(1) [OF assms(1)]
  have "es_max_progress (es_sync r t) = es_max_progress t" "es_detached (es_sync r t) = es_detached t" for r t
    by (simp_all add: es_sync_def)
  then show ?thesis
    using p [OF assms(2)] p [OF assms(3)] max_progress_bounds(1) [OF assms(3), of s]
    by (simp add: es_value_def should_stop_def Let_def split: option.split)
qed

lemma es_sync_keeps [simp]: "es_peer (es_sync r t) = es_peer t" "es_sess (es_sync r t) = es_sess t"
  by (simp_all add: es_sync_def)


lemma example_elastic:
  assumes "p = new_peer cfg 0 a [a] [] star" and "s = (\<lambda>_. new_elastic_state 4 p None)" and "old = \<lparr>runners = [], workers = [a]\<rparr>"
  shows "in_step n s" "session_cluster (es_sess (s i)) = old \<and> se_version (es_sess (s i)) = 0"
    "es_increment 4 (\<lambda>_. None) (unanimous 1 old (\<lambda>_ _. None)) r (s i) \<noteq> None"
proof -
  show "in_step n s" by (simp add: in_step_def assms(2))
  show o: "session_cluster (es_sess (s i)) = old \<and> se_version (es_sess (s i)) = 0"
    by (simp add: assms new_elastic_state_def join_session_def new_session_def new_peer_def session_cluster_def)
  have "agree_loop (\<lambda>_. None) (unanimous 1 old (\<lambda>_ _. None)) old 0 = Some old"
    by (subst agree_loop.simps) (simp add: unanimous_def proposal_def)
  then show "es_increment 4 (\<lambda>_. None) (unanimous 1 old (\<lambda>_ _. None)) r (s i) \<noteq> None"
    using o by (simp add: es_increment_def Let_def peer_resize_def)
qed

theorem elastic_sync_agrees_witness:
  "(let p = new_peer (parse_system_config_from_env 4 Map.empty) 0 \<lparr>ipv4 = 1, port = 2\<rparr> [\<lparr>ipv4 = 1, port = 2\<rparr>] [] star;
        s = (\<lambda>_. new_elastic_state 4 p None) in
    snd (es_value (max_progress 2 s) (s 0)) = snd (es_value (max_progress 2 s) (s 1)))"
proof -
  let ?p = "new_peer (parse_system_config_from_env 4 Map.empty) 0 \<lparr>ipv4 = 1, port = 2\<rparr> [\<lparr>ipv4 = 1, port = 2\<rparr>] [] star"
  let ?s = "\<lambda>_ :: nat. new_elastic_state 4 ?p None"
  have "(0 :: nat) < 2" "(1 :: nat) < 2" by simp_all
  from elastic_sync_agrees [OF example_elastic(1) [OF refl refl refl] this] show ?thesis unfolding Let_def by blast
qed


section \<open>Detached peers\<close>

text \<open>The workspace of the all-reduce in \<open>sync\<close>, for \<open>progress_\<close> at \<open>x\<close> and the result at \<open>y\<close>.\<close>

definition sync_ws :: "nat \<Rightarrow> nat \<Rightarrow> workspace" where
  "sync_ws x y = \<lparr>w_send = x, w_recv = y, w_count = 1, w_dt = i64, w_op = max_op, w_name = []\<rparr>"

text \<open>The next operation synchronises, in the session the other peers have left.\<close>

lemma detached_syncs:
  assumes "peer_resize hc get_config cons (es_peer s) (es_sess s) = Some r" and "rr_detached (rz_result r)"
  shows "\<not> es_synced (check_resize r s) \<and> es_detached (check_resize r s) \<and> es_sess (check_resize r s) = es_sess s"
  using assms by (auto simp: peer_resize_def switch_cluster_def Let_def check_resize_def split: if_splits)



end
