(* ===== verification/Training.thy ===== *)
theory Training
  imports Peer
begin

text \<open>
  Elastic training as the example \<open>examples/example-elastic-state.cpp\<close> does it, over the clusters of \<open>Cluster\<close> and the
  results of \<open>peer::resize\<close>: the arguments of the program, the state of one process, and the loop of all processes of
  the cluster. Every iteration starts with an all-reduce of the session, so that the processes of a session go through
  the loop together; \<open>training_loop\<close> runs one iteration of all of them at a time. It stops when all processes leave
  the loop; when some leave it and others enter the all-reduce, these wait for ever. A process that the new cluster
  adds starts from the beginning, in the new session.

  The lemmas show that every step is trained exactly once, across all changes of the cluster, and that processes which
  join after the last step never return.
\<close>

section \<open>Arguments\<close>

type_synonym schedule = "int \<rightharpoonup> int"

text \<open>The literal start of a \<open>sscanf\<close> format.\<close>

fun scan_prefix :: "string \<Rightarrow> string \<Rightarrow> string option" where
  "scan_prefix [] s = Some s"
| "scan_prefix (c # cs) s = (case scan_lit c s of None \<Rightarrow> None | Some rest \<Rightarrow> scan_prefix cs rest)"

text \<open>\<open>max_step\<close> is 0 unless the argument has the right form; \<open>k\<close> and \<open>v\<close> are not initialised.\<close>

definition parse_max_step :: "string \<Rightarrow> int" where
  "parse_max_step arg = (case scan_prefix ''--max-step='' arg of None \<Rightarrow> 0
     | Some rest \<Rightarrow> (case scan_int rest of None \<Rightarrow> 0 | Some (v, _) \<Rightarrow> v))"

definition parse_entry :: "string \<Rightarrow> (int \<times> int) res" where
  "parse_entry arg = (case scan_int arg of None \<Rightarrow> Inl (Undefined_behaviour ''uninitialised variable'')
     | Some (k, rest) \<Rightarrow> (case scan_lit CHR '':'' rest of None \<Rightarrow> Inl (Undefined_behaviour ''uninitialised variable'')
     | Some rest \<Rightarrow> (case scan_int rest of None \<Rightarrow> Inl (Undefined_behaviour ''uninitialised variable'')
     | Some (v, _) \<Rightarrow> Inr (k, v))))"

definition parse_schedule :: "string list \<Rightarrow> (int \<times> schedule) res" where
  "parse_schedule argv = (case argv of
       [] \<Rightarrow> Inl (Undefined_behaviour ''std::string from a null pointer'')
     | [_] \<Rightarrow> Inl (Exception ''std::invalid_argument'')
     | _ # arg # args \<Rightarrow> res_map (\<lambda>kvs. (parse_max_step arg, fold (\<lambda>(k, v) s. s(k \<mapsto> v)) kvs Map.empty)) (res_mapM parse_entry args))"

section \<open>The state of a process\<close>

record trainer =
  global_step :: Prelude.u64
  synced :: bool
  detached :: bool

definition new_trainer :: trainer where
  "new_trainer = \<lparr>global_step = 0, synced = False, detached = False\<rparr>"

definition trainer_next :: "trainer \<Rightarrow> trainer" where
  "trainer_next t = t\<lparr>global_step := global_step t + 1\<rparr>"

definition trainer_stops :: "Prelude.u64 \<Rightarrow> trainer \<Rightarrow> bool" where
  "trainer_stops max_step t \<longleftrightarrow> detached t \<or> max_step \<le> global_step t"

text \<open>\<open>j\<close> is the result of \<open>all_reduce(global_step_, max)\<close>.\<close>

definition trainer_sync :: "Prelude.u64 \<Rightarrow> trainer \<Rightarrow> trainer" where
  "trainer_sync j t = t\<lparr>global_step := j, synced := True\<rparr>"

definition trainer_resize :: "resize_result \<Rightarrow> trainer \<Rightarrow> trainer" where
  "trainer_resize r t = t\<lparr>detached := detached t \<or> rr_detached r, synced := synced t \<and> \<not> rr_changed r\<rparr>"

text \<open>The schedule is looked up at the step as an \<open>int\<close>; the new size becomes a \<open>size_t\<close>.\<close>

definition scheduled :: "schedule \<Rightarrow> Prelude.u64 \<Rightarrow> nat option" where
  "scheduled s i = map_option (\<lambda>v. unat (word_of_int v :: Prelude.u64)) (s (sint (ucast i :: 32 word)))"

text \<open>\<open>answer v\<close> is what \<open>peer::resize\<close> returns for the new size \<open>v\<close>.\<close>

definition adapt :: "schedule \<Rightarrow> (nat \<Rightarrow> resize_result) \<Rightarrow> trainer \<Rightarrow> trainer" where
  "adapt s answer t = (case scheduled s (global_step t) of None \<Rightarrow> t | Some v \<Rightarrow> trainer_resize (answer v) t)"

section \<open>The loop of all processes\<close>

definition max_global_step :: "trainer list \<Rightarrow> Prelude.u64" where
  "max_global_step ts = total max (map global_step ts)"

text \<open>The result for the peer \<open>p\<close> when all peers of \<open>c\<close> agree on \<open>c'\<close>.\<close>

definition resize_answer :: "cluster_config \<Rightarrow> cluster_config \<Rightarrow> peer_id \<Rightarrow> resize_result" where
  "resize_answer c c' p = \<lparr>rr_changed = (c \<noteq> c'), rr_detached = (c \<noteq> c' \<and> p \<notin> set (workers c'))\<rparr>"

text \<open>One iteration of a process of cluster \<open>c\<close>, up to the next test; a process that is not in \<open>c\<close> has just been created.\<close>

definition trainer_step :: "schedule \<Rightarrow> Prelude.u64 \<Rightarrow> cluster_config \<Rightarrow> cluster_config \<Rightarrow> (peer_id \<Rightarrow> trainer) \<Rightarrow> peer_id \<Rightarrow> trainer" where
  "trainer_step s j c c' st p =
     (if p \<in> set (workers c) then trainer_next (adapt s (\<lambda>_. resize_answer c c' p) (trainer_sync j (st p))) else new_trainer)"

text \<open>The new cluster that the configuration server hands out is the old one, resized.\<close>

definition next_cluster :: "schedule \<Rightarrow> Prelude.u64 \<Rightarrow> cluster_config \<Rightarrow> cluster_config outcome" where
  "next_cluster s j c = (case scheduled s j of None \<Rightarrow> Some (Inr c) | Some v \<Rightarrow> resize c v)"

datatype training_result = Finished "nat list" | Stuck "nat list" | Failed cxx_error

fun training_loop :: "nat \<Rightarrow> schedule \<Rightarrow> Prelude.u64 \<Rightarrow> cluster_config \<Rightarrow> (peer_id \<Rightarrow> trainer) \<Rightarrow> nat list \<Rightarrow> training_result option" where
  "training_loop 0 s max_step c st steps = None"
| "training_loop (Suc fuel) s max_step c st steps =
     (let ts = map st (workers c) in
      if list_all (trainer_stops max_step) ts then Some (Finished steps)
      else if list_ex (trainer_stops max_step) ts then Some (Stuck steps)
      else (let j = max_global_step ts in
        case next_cluster s j c of
          None \<Rightarrow> None
        | Some (Inl e) \<Rightarrow> Some (Failed e)
        | Some (Inr c') \<Rightarrow> training_loop fuel s max_step c' (trainer_step s j c c' st) (steps @ [unat j])))"

lemma resize_answer_switch: "session_cluster se = c \<Longrightarrow> rz_result (switch_cluster hc p se c') = resize_answer c c' (pr_self p)"
  using switch_cluster_effect(1,2) [OF refl refl, of hc p se c']
  by (intro resize_result.equality) (auto simp: resize_answer_def)

section \<open>Arguments that were printed\<close>

lemma scan_prefix_append: "scan_prefix p (p @ s) = Some s"
  by (induction p) (simp_all add: scan_lit_def)

lemma scan_int_to_string: "n < 2 ^ 31 \<Longrightarrow> no_digit rest \<Longrightarrow> scan_int (to_string n @ rest) = Some (int n, rest)"
  by (simp add: scan_int_def scan_number_to_string strtol_def signed_of_nat signed_take_bit_int_eq_self)

lemma parse_entry_printed:
  assumes "k < 2 ^ 31" and "v < 2 ^ 31"
  shows "parse_entry (to_string k @ '':'' @ to_string v) = Inr (int k, int v)"
  using assms scan_int_to_string [OF assms(2), of "[]"]
  by (simp add: parse_entry_def scan_int_to_string scan_lit_def is_digit_def)

definition printed_schedule :: "(nat \<times> nat) list \<Rightarrow> string list" where
  "printed_schedule kvs = map (\<lambda>(k, v). to_string k @ '':'' @ to_string v) kvs"

lemma parse_schedule_printed:
  assumes "m < 2 ^ 31" and "\<forall>(k, v)\<in>set kvs. k < 2 ^ 31 \<and> v < 2 ^ 31"
  shows "parse_schedule (prog # (''--max-step='' @ to_string m) # printed_schedule kvs) =
    Inr (int m, fold (\<lambda>(k, v) s. s(int k \<mapsto> int v)) kvs Map.empty)"
proof -
  have "parse_max_step (''--max-step='' @ to_string m) = int m"
    using scan_prefix_append [of "''--max-step=''" "to_string m"] scan_int_to_string [OF assms(1), of "[]"]
    by (simp add: parse_max_step_def)
  moreover have "res_mapM parse_entry (printed_schedule kvs) = Inr (map (\<lambda>(k, v). (int k, int v)) kvs)"
    using assms(2) by (induction kvs) (auto simp: printed_schedule_def parse_entry_printed [simplified])
  moreover have "fold (\<lambda>(k, v) s. s(k \<mapsto> v)) (map (\<lambda>(k, v). (int k, int v)) kvs) s0 = fold (\<lambda>(k, v) s. s(int k \<mapsto> int v)) kvs s0" for s0 :: schedule
    by (induction kvs arbitrary: s0) auto
  ultimately show ?thesis by (simp add: parse_schedule_def)
qed

section \<open>Clusters on one host\<close>

definition on_host :: "u32 \<Rightarrow> cluster_config \<Rightarrow> bool" where
  "on_host h c \<longleftrightarrow> runners c \<noteq> [] \<and> workers c \<noteq> [] \<and> distinct (workers c) \<and> (\<forall>p\<in>set (runners c) \<union> set (workers c). ipv4 p = h)"

lemma resize_on_host:
  assumes "on_host h c" and "1 \<le> n" and "n \<le> 2 ^ 16"
  obtains c' where "resize c n = Some (Inr c')" and "on_host h c'" and "length (workers c') = n"
    and "n \<le> length (workers c) \<Longrightarrow> set (workers c') \<subseteq> set (workers c)"
    and "hd (workers c) \<in> set (workers c')"
    and "length (workers c) < n \<Longrightarrow> \<exists>p\<in>set (workers c'). p \<notin> set (workers c)"
proof -
  have c: "runners c \<noteq> []" "workers c \<noteq> []" "ipv4 ` set (runners c) = {h}" "ipv4 ` set (workers c) = {h}"
    using assms(1) hd_in_set [of "runners c"] hd_in_set [of "workers c"] by (auto simp: on_host_def image_iff simp del: hd_in_set)
  then obtain vs where vs: "resize c n = Some (Inr \<lparr>runners = runners c, workers = vs\<rparr>)" "length vs = n"
      "n \<le> length (workers c) \<longrightarrow> vs = take n (workers c)"
      "length (workers c) \<le> n \<longrightarrow> take (length (workers c)) vs = workers c \<and> ipv4 ` set (drop (length (workers c)) vs) \<subseteq> ipv4 ` set (runners c)"
      "distinct (workers c) \<longrightarrow> distinct vs"
    using resize_workers [of c n] assms(3) by auto
  have d: "distinct vs" using vs(5) assms(1) by (simp add: on_host_def)
  have hv: "\<forall>p\<in>set vs. ipv4 p = h"
  proof (cases "n \<le> length (workers c)")
    case True
    then show ?thesis using vs(3) assms(1) by (auto simp: on_host_def dest: in_set_takeD)
  next
    case False
    then have t: "take (length (workers c)) vs = workers c" "ipv4 ` set (drop (length (workers c)) vs) \<subseteq> {h}" using vs(4) c(3) by auto
    have "set vs = set (workers c) \<union> set (drop (length (workers c)) vs)"
      using t(1) by (metis append_take_drop_id set_append)
    then show ?thesis using t(2) assms(1) by (auto simp: on_host_def)
  qed
  have "vs \<noteq> []" using vs(2) assms(2) by auto
  then have o: "on_host h \<lparr>runners = runners c, workers = vs\<rparr>" using hv d assms(1) by (auto simp: on_host_def)
  have "hd (workers c) = hd vs"
  proof (cases "n \<le> length (workers c)")
    case True
    then have "vs = take n (workers c)" using vs(3) by blast
    then show ?thesis using assms(2) c(2) by (cases "workers c"; cases n) auto
  next
    case False
    then have "take (length (workers c)) vs = workers c" using vs(4) by simp
    then show ?thesis using c(2) \<open>vs \<noteq> []\<close> by (cases vs; cases "workers c") auto
  qed
  then have "hd (workers c) \<in> set vs" using \<open>vs \<noteq> []\<close> by simp
  moreover have "\<exists>p\<in>set vs. p \<notin> set (workers c)" if "length (workers c) < n"
  proof (rule ccontr)
    assume "\<not> ?thesis"
    then have "card (set vs) \<le> card (set (workers c))" by (intro card_mono) auto
    moreover have "card (set vs) = n" using d vs(2) by (simp add: distinct_card)
    moreover have "card (set (workers c)) \<le> length (workers c)" by (rule card_length)
    ultimately show False using that by simp
  qed
  ultimately show thesis using that [OF vs(1) o] vs(2,3) by (auto dest: in_set_takeD)
qed

section \<open>One step after the other\<close>

text \<open>The number of workers before step \<open>k\<close>, and whether step \<open>k - 1\<close> has added some.\<close>

primrec size_at :: "schedule \<Rightarrow> nat \<Rightarrow> nat \<Rightarrow> nat" where
  "size_at s n0 0 = n0"
| "size_at s n0 (Suc k) = (case s (int k) of None \<Rightarrow> size_at s n0 k | Some v \<Rightarrow> nat v)"

definition grown_at :: "schedule \<Rightarrow> nat \<Rightarrow> nat \<Rightarrow> bool" where
  "grown_at s n0 k \<longleftrightarrow> 0 < k \<and> size_at s n0 (k - 1) < size_at s n0 k"

text \<open>Before step \<open>k\<close> all workers have counted \<open>k\<close> steps, except those that have just joined.\<close>

definition at_step :: "u32 \<Rightarrow> schedule \<Rightarrow> nat \<Rightarrow> nat \<Rightarrow> cluster_config \<Rightarrow> (peer_id \<Rightarrow> trainer) \<Rightarrow> bool" where
  "at_step h s n0 k c st \<longleftrightarrow> on_host h c \<and> length (workers c) = size_at s n0 k \<and>
     (\<forall>p\<in>set (workers c). \<not> detached (st p) \<and> global_step (st p) \<in> {0, word_of_nat k}) \<and>
     (\<exists>p\<in>set (workers c). global_step (st p) = word_of_nat k) \<and>
     (grown_at s n0 k \<longleftrightarrow> (\<exists>p\<in>set (workers c). global_step (st p) \<noteq> word_of_nat k))"

definition schedule_ok :: "schedule \<Rightarrow> nat \<Rightarrow> bool" where
  "schedule_ok s m \<longleftrightarrow> (\<forall>k<m. \<forall>v. s (int k) = Some v \<longrightarrow> 1 \<le> v \<and> v \<le> 2 ^ 16)"

lemma total_max:
  fixes xs :: "'a::linorder list"
  shows "xs \<noteq> [] \<Longrightarrow> total max xs = Max (set xs)"
  using Max.set_eq_fold [of "hd xs" "tl xs"] by (cases xs) (simp_all add: total_def)

lemma max_global_step_eq:
  assumes "at_step h s n0 k c st"
  shows "max_global_step (map st (workers c)) = word_of_nat k"
proof -
  have "workers c \<noteq> []" using assms by (simp add: at_step_def on_host_def)
  then have "max_global_step (map st (workers c)) = Max (set (map global_step (map st (workers c))))"
    unfolding max_global_step_def by (intro total_max) simp
  also have "\<dots> = word_of_nat k"
    using assms by (intro Max_eqI) (auto simp: at_step_def intro: rev_image_eqI)
  finally show ?thesis .
qed

lemma scheduled_eq: "k < 2 ^ 31 \<Longrightarrow> scheduled s (word_of_nat k) = map_option (\<lambda>v. unat (word_of_int v :: Prelude.u64)) (s (int k))"
proof -
  assume "k < 2 ^ 31"
  then have "sint (ucast (word_of_nat k :: Prelude.u64) :: 32 word) = int k"
    by (simp add: unsigned_of_nat signed_of_nat signed_take_bit_int_eq_self take_bit_nat_eq_self)
  then show ?thesis by (simp add: scheduled_def)
qed

lemma next_cluster_ok:
  assumes "on_host h c" and "length (workers c) = size_at s n0 k" and "k < 2 ^ 31" and "\<forall>v. s (int k) = Some v \<longrightarrow> 1 \<le> v \<and> v \<le> 2 ^ 16"
  obtains c' where "next_cluster s (word_of_nat k) c = Some (Inr c')" and "on_host h c'" and "length (workers c') = size_at s n0 (Suc k)"
    and "size_at s n0 (Suc k) \<le> size_at s n0 k \<Longrightarrow> set (workers c') \<subseteq> set (workers c)"
    and "\<exists>p\<in>set (workers c). p \<in> set (workers c')"
    and "size_at s n0 k < size_at s n0 (Suc k) \<Longrightarrow> \<exists>p\<in>set (workers c'). p \<notin> set (workers c)"
proof -
  have c: "on_host h c" "length (workers c) = size_at s n0 k" "workers c \<noteq> []" using assms(1,2) by (simp_all add: on_host_def)
  show thesis
  proof (cases "s (int k)")
    case None
    then show ?thesis using c(1,2) hd_in_set [OF c(3)]
      by (intro that [of c]) (auto simp: next_cluster_def scheduled_eq [OF assms(3)] simp del: hd_in_set)
  next
    case (Some v)
    then have v: "1 \<le> v" "v \<le> 2 ^ 16" using assms(4) by auto
    then have u: "unat (word_of_int v :: Prelude.u64) = nat v" by (simp add: unat_eq_nat_uint uint_word_of_int)
    have n: "1 \<le> nat v" "nat v \<le> 2 ^ 16" using v by auto
    from resize_on_host [OF c(1) n] obtain c' where
      c': "resize c (nat v) = Some (Inr c')" "on_host h c'" "length (workers c') = nat v"
        "nat v \<le> length (workers c) \<Longrightarrow> set (workers c') \<subseteq> set (workers c)" "hd (workers c) \<in> set (workers c')"
        "length (workers c) < nat v \<Longrightarrow> \<exists>p\<in>set (workers c'). p \<notin> set (workers c)" by blast
    have "next_cluster s (word_of_nat k) c = Some (Inr c')"
      using c'(1) Some u by (simp add: next_cluster_def scheduled_eq [OF assms(3)])
    then show ?thesis using c' c(2) hd_in_set [OF c(3)] Some by (intro that [of c']) auto
  qed
qed

lemma trainer_step_fields:
  "p \<in> set (workers c) \<Longrightarrow> p \<in> set (workers c') \<Longrightarrow> \<not> detached (st p) \<Longrightarrow>
     global_step (trainer_step s j c c' st p) = j + 1 \<and> \<not> detached (trainer_step s j c c' st p)"
  "p \<notin> set (workers c) \<Longrightarrow> trainer_step s j c c' st p = new_trainer"
  by (auto simp: trainer_step_def trainer_next_def adapt_def trainer_sync_def trainer_resize_def resize_answer_def split: option.split)

lemma u64_of_nat_neq: "0 < k \<Longrightarrow> k < 2 ^ 31 \<Longrightarrow> (0 :: Prelude.u64) \<noteq> word_of_nat k" "m < 2 ^ 31 \<Longrightarrow> k < 2 ^ 31 \<Longrightarrow> (word_of_nat m :: Prelude.u64) \<le> word_of_nat k \<longleftrightarrow> m \<le> k"
proof -
  have u: "unat (word_of_nat i :: Prelude.u64) = i" if "i < 2 ^ 31" for i using that by (simp add: unat_of_nat)
  show "(0 :: Prelude.u64) \<noteq> word_of_nat k" if "0 < k" "k < 2 ^ 31" using u [OF that(2)] that(1) by (metis less_irrefl unat_0)
  show "(word_of_nat m :: Prelude.u64) \<le> word_of_nat k \<longleftrightarrow> m \<le> k" if "m < 2 ^ 31" "k < 2 ^ 31"
    using u that by (simp only: word_le_nat_alt)
qed

lemma at_step_Suc:
  assumes "at_step h s n0 k c st" and "Suc k < 2 ^ 31" and "on_host h c'" and "length (workers c') = size_at s n0 (Suc k)"
    and "size_at s n0 (Suc k) \<le> size_at s n0 k \<Longrightarrow> set (workers c') \<subseteq> set (workers c)"
    and "\<exists>p\<in>set (workers c). p \<in> set (workers c')"
    and "size_at s n0 k < size_at s n0 (Suc k) \<Longrightarrow> \<exists>p\<in>set (workers c'). p \<notin> set (workers c)"
  shows "at_step h s n0 (Suc k) c' (trainer_step s (word_of_nat k) c c' st)"
proof -
  let ?st = "trainer_step s (word_of_nat k) c c' st"
  have d: "\<not> detached (st p)" if "p \<in> set (workers c)" for p using assms(1) that by (simp add: at_step_def)
  have old: "global_step (?st p) = word_of_nat (Suc k)" "\<not> detached (?st p)" if "p \<in> set (workers c)" "p \<in> set (workers c')" for p
    using trainer_step_fields(1) [of p c c' st s] that d by (simp_all add: add.commute)
  have new: "global_step (?st p) = 0" "\<not> detached (?st p)" if "p \<notin> set (workers c)" for p
    using trainer_step_fields(2) [OF that] by (simp_all add: new_trainer_def)
  have ne: "(0 :: Prelude.u64) \<noteq> word_of_nat (Suc k)" using assms(2) by (intro u64_of_nat_neq) simp_all
  have g: "grown_at s n0 (Suc k) \<longleftrightarrow> (\<exists>p\<in>set (workers c'). p \<notin> set (workers c))"
    using assms(5,7) by (auto simp: grown_at_def simp del: size_at.simps) (metis not_less subsetD)
  show ?thesis
    unfolding at_step_def g
  proof (intro conjI ballI)
    fix p
    assume p: "p \<in> set (workers c')"
    show "\<not> detached (?st p)" "global_step (?st p) \<in> {0, word_of_nat (Suc k)}"
      using old [OF _ p] new [of p] by (cases "p \<in> set (workers c)"; simp)+
  next
    show "\<exists>p\<in>set (workers c'). global_step (?st p) = word_of_nat (Suc k)" using assms(6) old(1) by blast
    show "(\<exists>p\<in>set (workers c'). p \<notin> set (workers c)) \<longleftrightarrow> (\<exists>p\<in>set (workers c'). global_step (?st p) \<noteq> word_of_nat (Suc k))"
      using old(1) new(1) ne by metis
  qed (rule assms(3,4))+
qed

lemma training_step:
  assumes "at_step h s n0 k c st" and "k < m" and "m < 2 ^ 31" and "schedule_ok s m"
  obtains c' st' where "at_step h s n0 (Suc k) c' st'"
    and "training_loop (Suc f) s (word_of_nat m) c st steps = training_loop f s (word_of_nat m) c' st' (steps @ [k])"
proof -
  have k: "k < 2 ^ 31" "Suc k < 2 ^ 31" "\<forall>v. s (int k) = Some v \<longrightarrow> 1 \<le> v \<and> v \<le> 2 ^ 16"
    using assms(2-4) by (auto simp: schedule_ok_def)
  have c: "on_host h c" "length (workers c) = size_at s n0 k" using assms(1) by (simp_all add: at_step_def)
  obtain c' where c': "next_cluster s (word_of_nat k) c = Some (Inr c')"
      "at_step h s n0 (Suc k) c' (trainer_step s (word_of_nat k) c c' st)"
    using next_cluster_ok [OF c k(1,3)] at_step_Suc [OF assms(1) k(2)] by metis
  have "\<not> trainer_stops (word_of_nat m) (st p)" if "p \<in> set (workers c)" for p
  proof -
    have "\<not> detached (st p)" "global_step (st p) = word_of_nat 0 \<or> global_step (st p) = word_of_nat k"
      using assms(1) that by (auto simp: at_step_def)
    then show ?thesis using u64_of_nat_neq(2) [OF assms(3), of 0] u64_of_nat_neq(2) [OF assms(3) k(1)] assms(2)
      by (auto simp: trainer_stops_def simp del: of_nat_0)
  qed
  moreover have "workers c \<noteq> []" using assms(1) by (simp add: at_step_def on_host_def)
  ultimately have n: "\<not> list_all (trainer_stops (word_of_nat m)) (map st (workers c))" "\<not> list_ex (trainer_stops (word_of_nat m)) (map st (workers c))"
    by (auto simp: list_all_iff list_ex_iff neq_Nil_conv)
  have u: "unat (word_of_nat k :: Prelude.u64) = k" using k(1) by (simp add: unat_of_nat)
  have "training_loop (Suc f) s (word_of_nat m) c st steps =
      training_loop f s (word_of_nat m) c' (trainer_step s (word_of_nat k) c c' st) (steps @ [k])"
    using n c'(1) u by (simp add: Let_def max_global_step_eq [OF assms(1)])
  with c'(2) show thesis by (rule that)
qed

lemma training_end:
  assumes "at_step h s n0 m c st" and "0 < m" and "m < 2 ^ 31"
  shows "training_loop (Suc f) s (word_of_nat m) c st steps = Some (if grown_at s n0 m then Stuck steps else Finished steps)"
proof -
  have st: "trainer_stops (word_of_nat m) (st p) \<longleftrightarrow> global_step (st p) = word_of_nat m" if "p \<in> set (workers c)" for p
  proof -
    have "\<not> detached (st p)" "global_step (st p) = word_of_nat 0 \<or> global_step (st p) = word_of_nat m"
      using assms(1) that by (auto simp: at_step_def)
    then show ?thesis using u64_of_nat_neq(2) [OF assms(3), of 0] u64_of_nat_neq(1) [OF assms(2,3)] assms(2)
      by (auto simp: trainer_stops_def)
  qed
  have "list_all (trainer_stops (word_of_nat m)) (map st (workers c)) \<longleftrightarrow> \<not> grown_at s n0 m"
    "list_ex (trainer_stops (word_of_nat m)) (map st (workers c))"
    using assms(1) st by (auto simp: at_step_def list_all_iff list_ex_iff)
  then show ?thesis by (simp add: Let_def)
qed

lemma training_run:
  assumes "at_step h s n0 k c st" and "k \<le> m" and "0 < m" and "m < 2 ^ 31" and "schedule_ok s m"
  shows "training_loop (Suc (m - k)) s (word_of_nat m) c st steps =
    Some ((if grown_at s n0 m then Stuck else Finished) (steps @ [k..<m]))"
  using assms(1,2)
proof (induction "m - k" arbitrary: k c st steps)
  case 0
  then have "k = m" by simp
  with training_end [OF _ assms(3,4)] 0 show ?case by (simp del: training_loop.simps)
next
  case (Suc d)
  then have k: "k < m" and d: "d = m - Suc k" by simp_all
  from training_step [OF Suc.prems(1) k assms(4,5), of "m - k" steps] obtain c' st' where
    s: "at_step h s n0 (Suc k) c' st'"
      "training_loop (Suc (m - k)) s (word_of_nat m) c st steps = training_loop (m - k) s (word_of_nat m) c' st' (steps @ [k])" by blast
  have "m - k = Suc (m - Suc k)" using k by simp
  moreover have "[k..<m] = k # [Suc k..<m]" using k by (rule upt_conv_Cons)
  ultimately show ?case using s(2) Suc.hyps(1) [OF d s(1), of "steps @ [k]"] k by (simp del: training_loop.simps)
qed

section \<open>Properties\<close>

lemma schedule_values: "fold (\<lambda>(k, v) s. s(int k \<mapsto> int v)) kvs s0 x = Some w \<Longrightarrow> s0 x = Some w \<or> (\<exists>(k, v)\<in>set kvs. w = int v)"
  by (induction kvs arbitrary: s0) (fastforce split: if_splits prod.splits)+

lemma training_from_start:
  assumes "0 < m" and "m < 2 ^ 31" and "schedule_ok s m" and "on_host h c"
  shows "training_loop (Suc m) s (word_of_int (int m)) c (\<lambda>_. new_trainer) [] =
    Some ((if size_at s (length (workers c)) (m - 1) < size_at s (length (workers c)) m then Stuck else Finished) [0..<m])"
proof -
  have "at_step h s (length (workers c)) 0 c (\<lambda>_. new_trainer)"
    using assms(4) hd_in_set [of "workers c"] by (auto simp: at_step_def on_host_def new_trainer_def grown_at_def simp del: hd_in_set)
  from training_run [OF this _ assms(1-3), of "[]"] show ?thesis using assms(1) by (simp add: grown_at_def del: training_loop.simps)
qed



end
