(* ===== verification/Training_Loop.thy ===== *)
theory Training_Loop
  imports Training
begin

text \<open>
  Elastic training as the example \<open>examples/example-elastic.cpp\<close> does it. In place of the class of
  \<open>example-elastic-state.cpp\<close> it keeps the step in an \<open>int i\<close>, all-reduces it only in the first iteration of a session
  (\<open>synced\<close>), and leaves the loop with \<open>break\<close>. The model runs one iteration of all processes at a time, as
  \<open>Training\<close> does, and records the step that each process trains. \<open>i\<close> never overflows: it is incremented after the
  test \<open>i < max_step\<close>.

  The lemmas show that the flags \<open>synced\<close> of a session never differ, that every step is trained exactly once, by all
  workers of the cluster of that step, and that the program does what \<open>example-elastic-state.cpp\<close> does.
\<close>

section \<open>The loop of a process\<close>

record looper =
  lp_i :: int
  lp_synced :: bool
  lp_left :: bool

definition new_looper :: looper where
  "new_looper = \<lparr>lp_i = 0, lp_synced = False, lp_left = False\<rparr>"

definition looper_stops :: "int \<Rightarrow> looper \<Rightarrow> bool" where
  "looper_stops max_step t \<longleftrightarrow> lp_left t \<or> \<not> lp_i t < max_step"

text \<open>\<open>j\<close> is the result of \<open>all_reduce(i, max)\<close>.\<close>

definition looper_sync :: "int \<Rightarrow> looper \<Rightarrow> looper" where
  "looper_sync j t = (if lp_synced t then t else t\<lparr>lp_i := j, lp_synced := True\<rparr>)"

definition looper_resize :: "resize_result \<Rightarrow> looper \<Rightarrow> looper" where
  "looper_resize r t = (if rr_detached r then t\<lparr>lp_left := True\<rparr> else if rr_changed r then t\<lparr>lp_synced := False\<rparr> else t)"

text \<open>The new size is converted from \<open>int\<close> to \<open>size_t\<close> in the call of \<open>peer::resize\<close>.\<close>

definition planned_size :: "schedule \<Rightarrow> int \<Rightarrow> nat option" where
  "planned_size s i = map_option (\<lambda>v. unat (word_of_int v :: Prelude.u64)) (s i)"

definition looper_adapt :: "schedule \<Rightarrow> (nat \<Rightarrow> resize_result) \<Rightarrow> looper \<Rightarrow> looper" where
  "looper_adapt s answer t = (case planned_size s (lp_i t) of None \<Rightarrow> t | Some v \<Rightarrow> looper_resize (answer v) t)"

definition looper_next :: "looper \<Rightarrow> looper" where
  "looper_next t = (if lp_left t then t else t\<lparr>lp_i := lp_i t + 1\<rparr>)"

section \<open>The loop of all processes\<close>

definition looper_step :: "schedule \<Rightarrow> int \<Rightarrow> cluster_config \<Rightarrow> cluster_config \<Rightarrow> (peer_id \<Rightarrow> looper) \<Rightarrow> peer_id \<Rightarrow> looper" where
  "looper_step s j c c' st p =
     (if p \<in> set (workers c) then looper_next (looper_adapt s (\<lambda>_. resize_answer c c' p) (looper_sync j (st p))) else new_looper)"

text \<open>The processes at the steps \<open>row\<close> resize together when the schedule has the same entry for all of them.\<close>

definition agreed_cluster :: "schedule \<Rightarrow> int list \<Rightarrow> cluster_config \<Rightarrow> cluster_config outcome" where
  "agreed_cluster s row c =
     (if \<forall>i\<in>set row. planned_size s i = planned_size s (hd row)
      then (case planned_size s (hd row) of None \<Rightarrow> Some (Inr c) | Some v \<Rightarrow> resize c v)
      else Some (Inl (Undefined_behaviour ''resize by a part of the session'')))"

datatype elastic_result = Trained "int list list" | Waiting "int list list" | Aborted cxx_error

text \<open>Both all-reduces of an iteration have the empty name: processes with different flags would mix up their messages.\<close>

fun elastic_loop :: "nat \<Rightarrow> schedule \<Rightarrow> int \<Rightarrow> cluster_config \<Rightarrow> (peer_id \<Rightarrow> looper) \<Rightarrow> int list list \<Rightarrow> elastic_result option" where
  "elastic_loop 0 s max_step c st rows = None"
| "elastic_loop (Suc fuel) s max_step c st rows =
     (let ts = map st (workers c) in
      if list_all (looper_stops max_step) ts then Some (Trained rows)
      else if list_ex (looper_stops max_step) ts then Some (Waiting rows)
      else if list_ex lp_synced ts \<and> \<not> list_all lp_synced ts then Some (Aborted (Undefined_behaviour ''different all_reduce calls''))
      else (let j = total max (map lp_i ts); row = map (\<lambda>t. lp_i (looper_sync j t)) ts in
        case agreed_cluster s row c of
          None \<Rightarrow> None
        | Some (Inl e) \<Rightarrow> Some (Aborted e)
        | Some (Inr c') \<Rightarrow> elastic_loop fuel s max_step c' (looper_step s j c c' st) (rows @ [row])))"

text \<open>What \<open>example-elastic-state.cpp\<close> reports: one number for each step.\<close>

fun as_training :: "elastic_result \<Rightarrow> training_result" where
  "as_training (Trained rows) = Finished (map (\<lambda>row. nat (hd row)) rows)"
| "as_training (Waiting rows) = Stuck (map (\<lambda>row. nat (hd row)) rows)"
| "as_training (Aborted e) = Failed e"

section \<open>One step after the other\<close>

text \<open>Before step \<open>k\<close>: the flags agree, and all workers are at step \<open>k\<close> except those that have just joined.\<close>

definition loop_at :: "u32 \<Rightarrow> schedule \<Rightarrow> nat \<Rightarrow> nat \<Rightarrow> cluster_config \<Rightarrow> (peer_id \<Rightarrow> looper) \<Rightarrow> bool \<Rightarrow> bool" where
  "loop_at h s n0 k c st b \<longleftrightarrow> on_host h c \<and> length (workers c) = size_at s n0 k \<and>
     (\<forall>p\<in>set (workers c). lp_synced (st p) = b \<and> \<not> lp_left (st p) \<and> lp_i (st p) \<in> (if b then {int k} else {0, int k})) \<and>
     (\<exists>p\<in>set (workers c). lp_i (st p) = int k) \<and>
     (grown_at s n0 k \<longleftrightarrow> (\<exists>p\<in>set (workers c). lp_i (st p) \<noteq> int k))"

lemma loop_atD:
  assumes "loop_at h s n0 k c st b"
  shows "on_host h c" "length (workers c) = size_at s n0 k" "workers c \<noteq> []"
    "p \<in> set (workers c) \<Longrightarrow> lp_synced (st p) = b" "p \<in> set (workers c) \<Longrightarrow> \<not> lp_left (st p)"
    "p \<in> set (workers c) \<Longrightarrow> lp_i (st p) \<in> {0, int k}" "p \<in> set (workers c) \<Longrightarrow> b \<Longrightarrow> lp_i (st p) = int k"
  using assms by (auto simp: loop_at_def on_host_def split: if_splits)

lemma max_lp_i:
  assumes "loop_at h s n0 k c st b"
  shows "total max (map lp_i (map st (workers c))) = int k"
proof -
  have "total max (map lp_i (map st (workers c))) = Max (set (map lp_i (map st (workers c))))"
    using loop_atD(3) [OF assms] by (intro total_max) simp
  also have "\<dots> = int k"
  proof (rule Max_eqI)
    show "i \<le> int k" if "i \<in> set (map lp_i (map st (workers c)))" for i using that loop_atD(6) [OF assms] by fastforce
    show "int k \<in> set (map lp_i (map st (workers c)))" using assms by (auto simp: loop_at_def intro: rev_image_eqI)
  qed simp
  finally show ?thesis .
qed

text \<open>After the first all-reduce all workers of the session are at step \<open>k\<close>.\<close>

lemma looper_sync_at:
  assumes "loop_at h s n0 k c st b" and "p \<in> set (workers c)"
  shows "looper_sync (int k) (st p) = \<lparr>lp_i = int k, lp_synced = True, lp_left = False\<rparr>"
  using loop_atD(4,5,7) [OF assms(1) assms(2)] by (cases b) (auto simp: looper_sync_def intro: looper.equality)

lemma row_at:
  assumes "loop_at h s n0 k c st b"
  shows "map (\<lambda>t. lp_i (looper_sync (int k) t)) (map st (workers c)) = replicate (size_at s n0 k) (int k)"
  using loop_atD(2) [OF assms] looper_sync_at [OF assms] by (intro replicate_eqI) auto

lemma agreed_cluster_next:
  assumes "k < 2 ^ 31" and "0 < n"
  shows "agreed_cluster s (replicate n (int k)) c = next_cluster s (word_of_nat k) c"
  using assms(2) by (auto simp: agreed_cluster_def next_cluster_def planned_size_def scheduled_eq [OF assms(1)] hd_replicate)

lemma looper_step_stays:
  assumes "loop_at h s n0 k c st b" and "p \<in> set (workers c)" and "p \<in> set (workers c')" and "planned_size s (int k) = None \<Longrightarrow> c' = c"
  shows "looper_step s (int k) c c' st p = \<lparr>lp_i = int (Suc k), lp_synced = (c = c'), lp_left = False\<rparr>"
  using assms(2-4) looper_sync_at [OF assms(1,2)]
  by (auto simp: looper_step_def looper_next_def looper_adapt_def looper_resize_def resize_answer_def split: option.split)

lemma looper_step_joins: "p \<notin> set (workers c) \<Longrightarrow> looper_step s j c c' st p = \<lparr>lp_i = 0, lp_synced = False, lp_left = False\<rparr>"
  by (simp add: looper_step_def new_looper_def)

lemma loop_at_Suc:
  assumes "loop_at h s n0 k c st b" and "on_host h c'" and "length (workers c') = size_at s n0 (Suc k)"
    and "size_at s n0 (Suc k) \<le> size_at s n0 k \<Longrightarrow> set (workers c') \<subseteq> set (workers c)"
    and "\<exists>p\<in>set (workers c). p \<in> set (workers c')"
    and "size_at s n0 k < size_at s n0 (Suc k) \<Longrightarrow> \<exists>p\<in>set (workers c'). p \<notin> set (workers c)"
    and "planned_size s (int k) = None \<Longrightarrow> c' = c"
  shows "loop_at h s n0 (Suc k) c' (looper_step s (int k) c c' st) (c = c')"
proof -
  let ?st = "looper_step s (int k) c c' st"
  have old: "?st p = \<lparr>lp_i = int (Suc k), lp_synced = (c = c'), lp_left = False\<rparr>" if "p \<in> set (workers c)" "p \<in> set (workers c')" for p
    using looper_step_stays [OF assms(1) that assms(7)] .
  have g: "grown_at s n0 (Suc k) \<longleftrightarrow> (\<exists>p\<in>set (workers c'). p \<notin> set (workers c))"
    using assms(4,6) by (auto simp: grown_at_def simp del: size_at.simps) (metis not_less subsetD)
  show ?thesis
    unfolding loop_at_def g
  proof (intro conjI ballI)
    fix p
    assume p: "p \<in> set (workers c')"
    show "lp_synced (?st p) = (c = c')" "\<not> lp_left (?st p)"
        "lp_i (?st p) \<in> (if c = c' then {int (Suc k)} else {0, int (Suc k)})"
      using old [OF _ p] p by (cases "p \<in> set (workers c)"; auto simp: looper_step_joins)+
  next
    show "\<exists>p\<in>set (workers c'). lp_i (?st p) = int (Suc k)" using assms(5) old by (metis looper.select_convs(1))
    show "(\<exists>p\<in>set (workers c'). p \<notin> set (workers c)) \<longleftrightarrow> (\<exists>p\<in>set (workers c'). lp_i (?st p) \<noteq> int (Suc k))"
    proof (intro bex_cong refl)
      show "p \<notin> set (workers c) \<longleftrightarrow> lp_i (?st p) \<noteq> int (Suc k)" if "p \<in> set (workers c')" for p
        using old [OF _ that] by (cases "p \<in> set (workers c)") (simp_all add: looper_step_joins)
    qed
  qed (rule assms(2,3))+
qed

lemma elastic_step:
  assumes "loop_at h s n0 k c st b" and "k < m" and "m < 2 ^ 31" and "schedule_ok s m"
  obtains c' st' b' where "loop_at h s n0 (Suc k) c' st' b'"
    and "elastic_loop (Suc f) s (int m) c st rows = elastic_loop f s (int m) c' st' (rows @ [replicate (size_at s n0 k) (int k)])"
proof -
  note c = loop_atD [OF assms(1)]
  have k: "k < 2 ^ 31" "\<forall>v. s (int k) = Some v \<longrightarrow> 1 \<le> v \<and> v \<le> 2 ^ 16" using assms(2-4) by (auto simp: schedule_ok_def)
  obtain c' where c': "next_cluster s (word_of_nat k) c = Some (Inr c')" "on_host h c'" "length (workers c') = size_at s n0 (Suc k)"
      "size_at s n0 (Suc k) \<le> size_at s n0 k \<Longrightarrow> set (workers c') \<subseteq> set (workers c)"
      "\<exists>p\<in>set (workers c). p \<in> set (workers c')"
      "size_at s n0 k < size_at s n0 (Suc k) \<Longrightarrow> \<exists>p\<in>set (workers c'). p \<notin> set (workers c)"
    using next_cluster_ok [OF c(1,2) k] by metis
  have "c' = c" if "planned_size s (int k) = None"
    using c'(1) that by (simp add: next_cluster_def planned_size_def scheduled_eq [OF k(1)])
  then have n: "loop_at h s n0 (Suc k) c' (looper_step s (int k) c c' st) (c = c')"
    using loop_at_Suc [OF assms(1)] c'(2-6) by metis
  have "0 < size_at s n0 k" using c(2,3) by (metis length_greater_0_conv)
  then have a: "agreed_cluster s (replicate (size_at s n0 k) (int k)) c = Some (Inr c')" using c'(1) agreed_cluster_next [OF k(1)] by simp
  have "\<not> looper_stops (int m) (st p)" if "p \<in> set (workers c)" for p
    using c(5,6) [OF that] assms(2) by (auto simp: looper_stops_def)
  then have "\<not> list_all (looper_stops (int m)) (map st (workers c))" "\<not> list_ex (looper_stops (int m)) (map st (workers c))"
    using c(3) by (auto simp: list_all_iff list_ex_iff neq_Nil_conv)
  moreover have "\<not> (list_ex lp_synced (map st (workers c)) \<and> \<not> list_all lp_synced (map st (workers c)))"
    using c(4) by (auto simp: list_all_iff list_ex_iff)
  ultimately have "elastic_loop (Suc f) s (int m) c st rows =
      elastic_loop f s (int m) c' (looper_step s (int k) c c' st) (rows @ [replicate (size_at s n0 k) (int k)])"
    unfolding elastic_loop.simps Let_def max_lp_i [OF assms(1)] row_at [OF assms(1)] a by (simp only: if_False sum.case option.case)
  with n show thesis by (rule that)
qed

lemma elastic_end:
  assumes "loop_at h s n0 m c st b" and "0 < m"
  shows "elastic_loop (Suc f) s (int m) c st rows = Some ((if grown_at s n0 m then Waiting else Trained) rows)"
proof -
  have "looper_stops (int m) (st p) \<longleftrightarrow> lp_i (st p) = int m" if "p \<in> set (workers c)" for p
    using loop_atD(5,6) [OF assms(1) that] assms(2) by (auto simp: looper_stops_def)
  then have "list_all (looper_stops (int m)) (map st (workers c)) \<longleftrightarrow> \<not> grown_at s n0 m"
    "list_ex (looper_stops (int m)) (map st (workers c))"
    using assms(1) by (auto simp: loop_at_def list_all_iff list_ex_iff)
  then show ?thesis by (simp add: Let_def)
qed

lemma elastic_run:
  assumes "loop_at h s n0 k c st b" and "k \<le> m" and "0 < m" and "m < 2 ^ 31" and "schedule_ok s m"
  shows "elastic_loop (Suc (m - k)) s (int m) c st rows =
    Some ((if grown_at s n0 m then Waiting else Trained) (rows @ map (\<lambda>j. replicate (size_at s n0 j) (int j)) [k..<m]))"
  using assms(1,2)
proof (induction "m - k" arbitrary: k c st b rows)
  case 0
  then have "k = m" by simp
  with elastic_end [OF _ assms(3)] 0 show ?case by (simp del: elastic_loop.simps)
next
  case (Suc d)
  then have k: "k < m" and d: "d = m - Suc k" by simp_all
  from elastic_step [OF Suc.prems(1) k assms(4,5), of "m - k" rows] obtain c' st' b' where
    s: "loop_at h s n0 (Suc k) c' st' b'"
      "elastic_loop (Suc (m - k)) s (int m) c st rows = elastic_loop (m - k) s (int m) c' st' (rows @ [replicate (size_at s n0 k) (int k)])" by blast
  have "m - k = Suc (m - Suc k)" using k by simp
  moreover have "[k..<m] = k # [Suc k..<m]" using k by (rule upt_conv_Cons)
  ultimately show ?case using s(2) Suc.hyps(1) [OF d s(1), of "rows @ [replicate (size_at s n0 k) (int k)]"] k
    by (simp del: elastic_loop.simps size_at.simps)
qed

lemma size_at_pos:
  assumes "schedule_ok s m" and "0 < n0"
  shows "k \<le> m \<Longrightarrow> 0 < size_at s n0 k"
proof (induction k)
  case (Suc k)
  then have "\<forall>v. s (int k) = Some v \<longrightarrow> 1 \<le> v" using assms(1) by (auto simp: schedule_ok_def Suc_le_eq)
  with Suc show ?case by (auto split: option.split)
qed (simp add: assms(2))

section \<open>Properties\<close>

lemma elastic_from_start:
  assumes "0 < m" and "m < 2 ^ 31" and "schedule_ok s m" and "on_host h c"
  shows "elastic_loop (Suc m) s (int m) c (\<lambda>_. new_looper) [] =
    Some ((if size_at s (length (workers c)) (m - 1) < size_at s (length (workers c)) m then Waiting else Trained)
      (map (\<lambda>k. replicate (size_at s (length (workers c)) k) (int k)) [0..<m]))"
proof -
  have "loop_at h s (length (workers c)) 0 c (\<lambda>_. new_looper) False"
    using assms(4) hd_in_set [of "workers c"] by (auto simp: loop_at_def on_host_def new_looper_def grown_at_def simp del: hd_in_set)
  from elastic_run [OF this _ assms(1-3), of "[]"] show ?thesis using assms(1) by (simp add: grown_at_def del: elastic_loop.simps)
qed



text \<open>A negative \<open>--max-step\<close> trains nothing here; \<open>example-elastic-state.cpp\<close> converts it to a huge \<open>size_t\<close>.\<close>

lemma negative_max_step:
  assumes "m < 0" and "- (2 ^ 31) \<le> m" and "workers c \<noteq> []"
  shows "elastic_loop (Suc f) s m c (\<lambda>_. new_looper) [] = Some (Trained [])"
    and "\<not> trainer_stops (word_of_int m) new_trainer"
proof -
  show "elastic_loop (Suc f) s m c (\<lambda>_. new_looper) [] = Some (Trained [])"
    using assms(1) by (simp add: Let_def list_all_iff looper_stops_def new_looper_def)
  have "\<not> 2 ^ 64 dvd m" using assms(1,2) zdvd_imp_le [of "2 ^ 64" "- m"] by auto
  then have "(word_of_int m :: Prelude.u64) \<noteq> 0" by (simp add: word_of_int_eq_0_iff)
  then show "\<not> trainer_stops (word_of_int m) new_trainer" by (simp add: trainer_stops_def new_trainer_def)
qed

end
