(* ===== verification/Execution.thy ===== *)
theory Execution
  imports Prelude
begin

text \<open>
  Execution policies: \<open>include/stdml/bits/collective/execution.hpp\<close>. A call of \<open>fmap\<close> is a small transition system:
  the caller starts threads one after the other, does its own share of the work and joins the threads; each thread
  applies the function to its element, as one step. A null pool falls back to threads; a pool is the subject of
  \<open>Pool_Loops\<close>.

  The lemmas show that every run of a policy is finite and never gets stuck, and that it applies the function to every
  element exactly once; if the applications commute, the result is that of the sequential policy.
\<close>

section \<open>Definitions\<close>

record 'a fork =
  to_start :: "'a list"
  own_work :: "'a list"
  started :: "'a list"
  applied :: "'a list"

datatype fork_label = Start_thread | Run_thread nat | Run_own

fun fork_exec :: "fork_label \<Rightarrow> 'a fork \<Rightarrow> 'a fork option" where
  "fork_exec Start_thread k = (case to_start k of [] \<Rightarrow> None
     | x # xs \<Rightarrow> Some (k\<lparr>to_start := xs, started := started k @ [x]\<rparr>))"
| "fork_exec (Run_thread i) k = (if i < length (started k)
     then Some (k\<lparr>started := take i (started k) @ drop (Suc i) (started k), applied := applied k @ [started k ! i]\<rparr>) else None)"
| "fork_exec Run_own k = (if to_start k \<noteq> [] then None else case own_work k of [] \<Rightarrow> None
     | x # xs \<Rightarrow> Some (k\<lparr>own_work := xs, applied := applied k @ [x]\<rparr>))"

text \<open>The call returns when all threads have been joined.\<close>

definition fork_returns :: "'a fork \<Rightarrow> bool" where
  "fork_returns k \<longleftrightarrow> to_start k = [] \<and> own_work k = [] \<and> started k = []"

definition fork_par0 :: "'a list \<Rightarrow> 'a fork" where
  "fork_par0 xs = \<lparr>to_start = xs, own_work = [], started = [], applied = []\<rparr>"

text \<open>The caller takes the first element itself.\<close>

definition fork_par1 :: "'a list \<Rightarrow> 'a fork" where
  "fork_par1 xs = (case xs of
       [] \<Rightarrow> \<lparr>to_start = [], own_work = [], started = [], applied = []\<rparr>
     | x # ys \<Rightarrow> \<lparr>to_start = ys, own_work = [x], started = [], applied = []\<rparr>)"

definition fork_par :: "bool \<Rightarrow> 'a list \<Rightarrow> 'a fork" where
  "fork_par ex_situ xs = (if ex_situ then fork_par0 xs else fork_par1 xs)"

definition fork_seq :: "'a list \<Rightarrow> 'a fork" where
  "fork_seq xs = \<lparr>to_start = [], own_work = xs, started = [], applied = []\<rparr>"

datatype 'p policy = parallel_policy | sequenced_policy | pool_policy "'p option"

datatype ('p, 'a) fmap_run = By_threads "'a fork" | By_pool 'p "'a list"

definition fmap :: "'p policy \<Rightarrow> 'a list \<Rightarrow> ('p, 'a) fmap_run" where
  "fmap p xs = (case p of
       parallel_policy \<Rightarrow> By_threads (fork_par False xs)
     | pool_policy (Some pool) \<Rightarrow> By_pool pool xs
     | pool_policy None \<Rightarrow> By_threads (fork_par False xs)
     | sequenced_policy \<Rightarrow> By_threads (fork_seq xs))"

section \<open>Every element once\<close>

definition fork_elems :: "'a fork \<Rightarrow> 'a multiset" where
  "fork_elems k = mset (to_start k @ own_work k @ started k @ applied k)"

definition fork_size :: "'a fork \<Rightarrow> nat" where
  "fork_size k = 2 * length (to_start k) + length (own_work k) + length (started k)"

lemma mset_remove_nth: "i < length xs \<Longrightarrow> add_mset (xs ! i) (mset (take i xs) + mset (drop (Suc i) xs)) = mset xs"
  by (metis append_take_drop_id Cons_nth_drop_Suc mset.simps(2) mset_append union_mset_add_mset_right)

lemma fork_exec_step:
  assumes "fork_exec l k = Some k'"
  shows "fork_elems k' = fork_elems k" "fork_size k' < fork_size k"
proof -
  have "fork_elems k' = fork_elems k \<and> fork_size k' < fork_size k"
  proof (cases l)
    case (Run_thread i)
    with assms have i: "i < length (started k)" and k': "k' = k\<lparr>started := take i (started k) @ drop (Suc i) (started k), applied := applied k @ [started k ! i]\<rparr>"
      by (auto split: if_splits)
    show ?thesis using i mset_remove_nth [OF i] by (simp add: k' fork_elems_def fork_size_def)
  qed (use assms in \<open>auto simp: fork_elems_def fork_size_def split: list.splits if_splits\<close>)
  then show "fork_elems k' = fork_elems k" "fork_size k' < fork_size k" by simp_all
qed

lemma fork_run:
  assumes "run_labels fork_exec ls k = Some k'"
  shows "fork_elems k' = fork_elems k \<and> length ls + fork_size k' \<le> fork_size k"
  using assms
proof (induction ls arbitrary: k)
  case (Cons l ls)
  then obtain k1 where k1: "fork_exec l k = Some k1" "run_labels fork_exec ls k1 = Some k'" by (auto split: option.splits)
  with Cons.IH [OF k1(2)] fork_exec_step [OF k1(1)] show ?case by simp
qed simp

lemma fork_progress:
  assumes "\<not> fork_returns k"
  shows "\<exists>l k'. fork_exec l k = Some k'"
proof (cases "to_start k = []")
  case False
  then show ?thesis by (intro exI [of _ Start_thread]) (auto simp: neq_Nil_conv)
next
  case True
  show ?thesis
  proof (cases "started k = []")
    case False
    then show ?thesis by (intro exI [of _ "Run_thread 0"]) simp
  next
    case none: True
    with True assms show ?thesis by (intro exI [of _ Run_own]) (auto simp: fork_returns_def neq_Nil_conv)
  qed
qed

lemma fmap_threads:
  assumes "fmap p xs = By_threads k"
  shows "fork_elems k = mset xs" "fork_size k \<le> 2 * length xs" "applied k = []"
  using assms by (auto simp: fmap_def fork_par_def fork_par1_def fork_seq_def fork_elems_def fork_size_def split: policy.splits option.splits list.splits)

section \<open>Properties\<close>

text \<open>C34: \<open>fmap\<close> with threads, whatever the policy: a schedule has at most two steps per element, a call that has not
  returned can go on, and when it returns, the function has been applied to every element exactly once. If the
  applications commute, the effect on the state is that of the loop over the elements.\<close>

theorem fmap_each_once:
  assumes "fmap p xs = By_threads k" and "run_labels fork_exec ls k = Some k'"
  shows "length ls \<le> 2 * length xs \<and> (\<not> fork_returns k' \<longrightarrow> (\<exists>l k''. fork_exec l k' = Some k'')) \<and>
    (fork_returns k' \<longrightarrow> mset (applied k') = mset xs \<and>
      (\<forall>f s. (\<forall>x\<in>set xs. \<forall>y\<in>set xs. f x \<circ> f y = f y \<circ> f x) \<longrightarrow> fold f (applied k') s = fold f xs s))"
proof (intro conjI impI allI)
  note r = fork_run [OF assms(2)] and t = fmap_threads [OF assms(1)]
  show "length ls \<le> 2 * length xs" using r t(2) by simp
  show "\<exists>l k''. fork_exec l k' = Some k''" if "\<not> fork_returns k'" using that by (rule fork_progress)
  show m: "mset (applied k') = mset xs" if "fork_returns k'"
    using that r t(1) by (simp add: fork_returns_def fork_elems_def)
  fix f s
  assume "fork_returns k'" and c: "\<forall>x\<in>set xs. \<forall>y\<in>set xs. f x \<circ> f y = f y \<circ> f x"
  from m [OF this(1)] have e: "mset (applied k') = mset xs" .
  from mset_eq_setD [OF e] c have "fold f (applied k') = fold f xs" by (intro fold_multiset_equiv [OF _ e]) simp
  then show "fold f (applied k') s = fold f xs s" by simp
qed

theorem fmap_each_once_witness:
  "\<exists>k k'. fmap parallel_policy [1, 2, 3 :: nat] = (By_threads k :: (unit, nat) fmap_run) \<and>
    run_labels fork_exec [Start_thread, Start_thread, Run_thread 1, Run_own, Run_thread 0] k = Some k' \<and>
    fork_returns k' \<and> applied k' = [3, 1, 2] \<and> fold (+) (applied k') 0 = fold (+) [1, 2, 3] 0"
proof -
  let ?ls = "[Start_thread, Start_thread, Run_thread 1, Run_own, Run_thread 0]"
  let ?k = "fork_par False [1, 2, 3 :: nat]" and ?k' = "\<lparr>to_start = [], own_work = [], started = [], applied = [3, 1, 2 :: nat]\<rparr>"
  have f: "fmap parallel_policy [1, 2, 3] = (By_threads ?k :: (unit, nat) fmap_run)" by (simp add: fmap_def)
  have r: "run_labels fork_exec ?ls ?k = Some ?k'" by (simp add: fork_par_def fork_par1_def)
  have ret: "fork_returns ?k'" by (simp add: fork_returns_def)
  have c: "\<forall>x\<in>set [1, 2, 3]. \<forall>y\<in>set [1, 2, 3]. (+) x \<circ> (+) y = (+) y \<circ> (+) (x :: nat)"
    by (simp add: fun_eq_iff)
  have "fold (+) (applied ?k') 0 = fold (+) [1, 2, 3 :: nat] 0"
    by (rule fmap_each_once [OF f r, THEN conjunct2, THEN conjunct2, rule_format, OF ret, THEN conjunct2, rule_format])
      (use c in blast)
  with f r ret show ?thesis by (intro exI [of _ ?k] exI [of _ ?k']) simp
qed

end
