(* ===== verification/Stat.thy ===== *)
theory Stat
  imports Config
begin

text \<open>
  Recording of events: the classes \<open>stat\<close>, \<open>scope\<close> and \<open>single_site_context\<close> of \<open>stat.hpp\<close> and \<open>stat.cpp\<close>.
  Times and thread identities are numbers given to the operations. The lemma says that the recorder
  holds exactly the scopes that ended while it was enabled, in the order of their ends; the report only
  prints them.
\<close>

section \<open>Definitions\<close>

record stat_event =
  ev_name :: string
  ev_tid :: nat
  ev_t0 :: nat
  ev_t1 :: nat
  ev_payload :: nat

record stat =
  st_enabled :: bool
  st_events :: "stat_event list"

definition new_stat :: "env \<Rightarrow> stat" where
  "new_stat e = \<lparr>st_enabled = parse_env_bool e ''STDML_COLLECTIVE_ENABLE_TRACE'', st_events = []\<rparr>"

definition stat_enable :: "stat \<Rightarrow> stat" where
  "stat_enable s = s\<lparr>st_enabled := True\<rparr>"

definition stat_disable :: "stat \<Rightarrow> stat" where
  "stat_disable s = s\<lparr>st_enabled := False\<rparr>"

definition stat_record :: "stat_event \<Rightarrow> stat \<Rightarrow> stat" where
  "stat_record e s = (if st_enabled s then s\<lparr>st_events := st_events s @ [e]\<rparr> else s)"

record scope =
  sc_name :: string
  sc_t0 :: nat
  sc_payload :: nat

definition new_scope :: "string \<Rightarrow> nat \<Rightarrow> nat \<Rightarrow> scope" where
  "new_scope name now payload = \<lparr>sc_name = name, sc_t0 = now, sc_payload = payload\<rparr>"

definition end_scope :: "nat \<Rightarrow> nat \<Rightarrow> scope \<Rightarrow> stat \<Rightarrow> stat" where
  "end_scope tid now sc = stat_record \<lparr>ev_name = sc_name sc, ev_tid = tid, ev_t0 = sc_t0 sc, ev_t1 = now, ev_payload = sc_payload sc\<rparr>"

text \<open>\<open>single_site_context::begin\<close> numbers the executions of one place in the code.\<close>

definition site_begin :: "nat \<Rightarrow> nat \<times> nat" where
  "site_begin c = (c + 1, c + 1)"

section \<open>Lemmas\<close>

datatype stat_op = Enable | Disable | End_scope nat nat scope

fun stat_run :: "stat_op \<Rightarrow> stat \<Rightarrow> stat" where
  "stat_run Enable s = stat_enable s"
| "stat_run Disable s = stat_disable s"
| "stat_run (End_scope tid now sc) s = end_scope tid now sc s"

fun recorded :: "bool \<Rightarrow> stat_op list \<Rightarrow> stat_event list" where
  "recorded b [] = []"
| "recorded b (Enable # ops) = recorded True ops"
| "recorded b (Disable # ops) = recorded False ops"
| "recorded b (End_scope tid now sc # ops) =
     (if b then [\<lparr>ev_name = sc_name sc, ev_tid = tid, ev_t0 = sc_t0 sc, ev_t1 = now, ev_payload = sc_payload sc\<rparr>] else []) @ recorded b ops"

lemma stat_events_recorded: "st_events (fold stat_run ops s) = st_events s @ recorded (st_enabled s) ops"
proof (induction ops arbitrary: s)
  case (Cons x ops)
  then show ?case by (cases x) (simp_all add: stat_enable_def stat_disable_def end_scope_def stat_record_def)
qed simp

lemma stat_starts_disabled: "e ''STDML_COLLECTIVE_ENABLE_TRACE'' = None \<Longrightarrow> \<not> st_enabled (new_stat e)"
  by (simp add: new_stat_def parse_env_bool_def safe_getenv_def)

end
