(* ===== verification/Server.thy ===== *)
theory Server
  imports Tcp
begin

text \<open>
  Servers of both networking layers: \<open>server_impl\<close> of \<open>net/c++20/rchan.cpp\<close> and of \<open>net/old/rchan.cpp\<close> with
  \<open>TcpServer\<close>. \<open>start\<close> runs a thread that accepts connections and starts a thread with the handler for each of
  them; \<open>stop\<close> ends the accepting thread and joins all threads. The first layer binds the port in the accepting
  thread, again and again until it succeeds; the second binds it in \<open>start\<close>, and ends the process if that fails.

  A server is a transition system: a label is a step of the accepting thread, with the result of the system call it
  makes, the end of a handler, or a step of the thread that calls \<open>stop\<close>. The interface \<open>connection_server\<close> is what
  the owner of the handler relies on: once \<open>stop\<close> has returned, no thread uses the handler any more. Both layers
  satisfy it, and in both \<open>stop\<close> returns once the handlers have ended; but in the first layer it waits for the port.
\<close>

section \<open>Definitions\<close>

datatype serve_phase = Not_started | Binding | Accept_loop | Polling | Serve_ended | Exited

text \<open>Where the call of \<open>stop\<close> is: it joins the accepting thread, then the listed threads of connections.\<close>

datatype stop_state = Stop_idle | Stop_thread | Stop_handlers "nat list" | Stop_returned

record server =
  sv_serve :: serve_phase
  sv_stopped :: bool
  sv_threads :: "nat list"
  sv_ended :: "nat set"
  sv_stop :: stop_state

definition new_server :: server where
  "new_server = \<lparr>sv_serve = Not_started, sv_stopped = False, sv_threads = [], sv_ended = {}, sv_stop = Stop_idle\<rparr>"

datatype server_label = Start | Bind bool | Check | Accept accept_result | Serve_end | Handler_end nat | Stop_call | Stop_next

subsection \<open>Common parts\<close>

definition server_start :: "server \<Rightarrow> server option" where
  "server_start s = (if sv_serve s = Not_started \<and> sv_stop s = Stop_idle then Some (s\<lparr>sv_serve := Binding\<rparr>) else None)"

text \<open>An accepted socket is not one of those in use.\<close>

definition new_handler :: "nat \<Rightarrow> server \<Rightarrow> server option" where
  "new_handler fd s = (if fd \<in> set (sv_threads s) then None else Some (s\<lparr>sv_threads := sv_threads s @ [fd]\<rparr>))"

definition handler_end :: "nat \<Rightarrow> server \<Rightarrow> server option" where
  "handler_end fd s = (if fd \<in> set (sv_threads s) \<and> fd \<notin> sv_ended s then Some (s\<lparr>sv_ended := insert fd (sv_ended s)\<rparr>) else None)"

text \<open>\<open>stop\<close> does nothing without an accepting thread.\<close>

definition stop_call :: "server \<Rightarrow> server option" where
  "stop_call s = (if sv_stop s \<noteq> Stop_idle then None
     else if sv_serve s = Not_started then Some (s\<lparr>sv_stop := Stop_returned\<rparr>)
     else Some (s\<lparr>sv_stopped := True, sv_stop := Stop_thread\<rparr>))"

definition stop_next :: "server \<Rightarrow> server option" where
  "stop_next s = (case sv_stop s of
       Stop_idle \<Rightarrow> None
     | Stop_thread \<Rightarrow> if sv_serve s = Serve_ended then Some (s\<lparr>sv_stop := Stop_handlers (sv_threads s)\<rparr>) else None
     | Stop_handlers [] \<Rightarrow> Some (s\<lparr>sv_stop := Stop_returned\<rparr>)
     | Stop_handlers (fd # fds) \<Rightarrow> if fd \<in> sv_ended s then Some (s\<lparr>sv_stop := Stop_handlers fds\<rparr>) else None
     | Stop_returned \<Rightarrow> None)"

subsection \<open>The event loop\<close>

text \<open>
  \<open>wait_bind\<close> tries again after an error. The completion handler of an accept arms the next one, also after an
  error; \<open>io_context::run\<close> returns only when the context is stopped, and then takes no further completion.
\<close>

definition serve_bind :: "bool \<Rightarrow> server \<Rightarrow> server option" where
  "serve_bind ec s = (if sv_serve s \<noteq> Binding then None else if ec then Some s else Some (s\<lparr>sv_serve := Accept_loop\<rparr>))"

definition async_accept :: "accept_result \<Rightarrow> server \<Rightarrow> server option" where
  "async_accept r s = (if sv_serve s \<noteq> Accept_loop \<or> sv_stopped s then None
     else (case r of Fd fd \<Rightarrow> new_handler fd s | Would_block \<Rightarrow> None | Accept_error \<Rightarrow> Some s))"

definition run_end :: "server \<Rightarrow> server option" where
  "run_end s = (if sv_serve s = Accept_loop \<and> sv_stopped s then Some (s\<lparr>sv_serve := Serve_ended\<rparr>) else None)"

fun server_exec :: "server_label \<Rightarrow> server \<Rightarrow> server option" where
  "server_exec Start s = server_start s"
| "server_exec (Bind ec) s = serve_bind ec s"
| "server_exec Check s = None"
| "server_exec (Accept r) s = async_accept r s"
| "server_exec Serve_end s = run_end s"
| "server_exec (Handler_end fd) s = handler_end fd s"
| "server_exec Stop_call s = stop_call s"
| "server_exec Stop_next s = stop_next s"

subsection \<open>Plain sockets\<close>

text \<open>
  \<open>start\<close> returns after binding. \<open>wait_accept\<close> looks at \<open>stopped_\<close> before each \<open>accept\<close>; an error that is not
  \<open>EAGAIN\<close> is an exception in the accepting thread, which ends the process.
\<close>

definition plain_bind :: "bool \<Rightarrow> server \<Rightarrow> server option" where
  "plain_bind ec s = (if sv_serve s \<noteq> Binding then None else Some (s\<lparr>sv_serve := if ec then Exited else Accept_loop\<rparr>))"

definition plain_check :: "server \<Rightarrow> server option" where
  "plain_check s = (if sv_serve s \<noteq> Accept_loop then None
     else Some (s\<lparr>sv_serve := if sv_stopped s then Serve_ended else Polling\<rparr>))"

definition plain_accept :: "accept_result \<Rightarrow> server \<Rightarrow> server option" where
  "plain_accept r s = (if sv_serve s \<noteq> Polling then None
     else (case r of
         Fd fd \<Rightarrow> map_option (\<lambda>s. s\<lparr>sv_serve := Accept_loop\<rparr>) (new_handler fd s)
       | Would_block \<Rightarrow> Some (s\<lparr>sv_serve := Accept_loop\<rparr>)
       | Accept_error \<Rightarrow> Some (s\<lparr>sv_serve := Exited\<rparr>)))"

fun plain_server_exec :: "server_label \<Rightarrow> server \<Rightarrow> server option" where
  "plain_server_exec Start s = server_start s"
| "plain_server_exec (Bind ec) s = plain_bind ec s"
| "plain_server_exec Check s = plain_check s"
| "plain_server_exec (Accept r) s = plain_accept r s"
| "plain_server_exec Serve_end s = None"
| "plain_server_exec (Handler_end fd) s = (if sv_serve s = Exited then None else handler_end fd s)"
| "plain_server_exec Stop_call s = (if sv_serve s \<in> {Binding, Exited} then None else stop_call s)"
| "plain_server_exec Stop_next s = (if sv_serve s = Exited then None else stop_next s)"

section \<open>The contract of a server\<close>

locale connection_server =
  fixes step :: "'l \<Rightarrow> 's \<Rightarrow> 's option"
    and good :: "'s \<Rightarrow> bool"
    and accepted :: "'s \<Rightarrow> 'c list"
    and ended :: "'s \<Rightarrow> 'c set"
    and returned :: "'s \<Rightarrow> bool"
  assumes good_step: "good s \<Longrightarrow> step l s = Some s' \<Longrightarrow> good s'"
    and accepted_once: "good s \<Longrightarrow> distinct (accepted s)"
    and returned_quiet: "good s \<Longrightarrow> returned s \<Longrightarrow> set (accepted s) = ended s"
    and returned_final: "good s \<Longrightarrow> returned s \<Longrightarrow> step l s = Some s' \<Longrightarrow> returned s' \<and> accepted s' = accepted s"
begin

lemma run_good: "good s \<Longrightarrow> run_labels step ls s = Some t \<Longrightarrow> good t"
  by (rule run_labels_keep [where P = good and f = step, OF good_step])

lemma nothing_after_return:
  assumes "good s" and "run_labels step ls s = Some t" and "returned t" and "run_labels step ls' t = Some u"
  shows "returned u \<and> accepted u = accepted t \<and> set (accepted u) = ended u \<and> distinct (accepted u)"
proof -
  have t: "good t" using run_good [OF assms(1,2)] .
  have "good u \<and> returned u \<and> accepted u = accepted t"
  proof (rule run_labels_keep [where P = "\<lambda>s. good s \<and> returned s \<and> accepted s = accepted t", OF _ _ assms(4)])
    fix s l s'
    assume "good s \<and> returned s \<and> accepted s = accepted t" "step l s = Some s'"
    then show "good s' \<and> returned s' \<and> accepted s' = accepted t" using good_step [of s l s'] returned_final [of s l s'] by simp
  qed (use t assms(3) in simp)
  then show ?thesis using returned_quiet accepted_once by blast
qed

end

section \<open>Both layers satisfy it\<close>

fun stop_ok :: "server \<Rightarrow> stop_state \<Rightarrow> bool" where
  "stop_ok s Stop_idle = (\<not> sv_stopped s)"
| "stop_ok s Stop_thread = (sv_stopped s \<and> sv_serve s \<noteq> Not_started)"
| "stop_ok s (Stop_handlers fds) = (sv_stopped s \<and> sv_serve s = Serve_ended \<and> set fds \<subseteq> set (sv_threads s) \<and> set (sv_threads s) \<subseteq> set fds \<union> sv_ended s)"
| "stop_ok s Stop_returned = ((sv_serve s = Not_started \<or> sv_serve s = Serve_ended) \<and> set (sv_threads s) \<subseteq> sv_ended s)"

definition server_inv :: "server \<Rightarrow> bool" where
  "server_inv s \<longleftrightarrow> distinct (sv_threads s) \<and> sv_ended s \<subseteq> set (sv_threads s) \<and> stop_ok s (sv_stop s) \<and>
     (sv_serve s \<in> {Not_started, Binding} \<longrightarrow> sv_threads s = [])"

lemmas op_defs = server_start_def new_handler_def handler_end_def stop_call_def stop_next_def serve_bind_def async_accept_def
  run_end_def plain_bind_def plain_check_def plain_accept_def

lemmas op_splits = if_splits option.splits accept_result.splits stop_state.splits list.splits

lemma new_server_inv: "server_inv new_server"
  by (simp add: server_inv_def new_server_def)

lemma server_exec_inv: "server_inv s \<Longrightarrow> server_exec l s = Some s' \<Longrightarrow> server_inv s'"
  by (cases l; cases "sv_stop s") (auto simp: server_inv_def op_defs split: op_splits)

lemma plain_server_exec_inv: "server_inv s \<Longrightarrow> plain_server_exec l s = Some s' \<Longrightarrow> server_inv s'"
  by (cases l; cases "sv_stop s") (auto simp: server_inv_def op_defs split: op_splits)

lemma exec_after_return:
  "server_inv s \<Longrightarrow> sv_stop s = Stop_returned \<Longrightarrow> server_exec l s = Some s' \<Longrightarrow> sv_stop s' = Stop_returned \<and> sv_threads s' = sv_threads s"
  "server_inv s \<Longrightarrow> sv_stop s = Stop_returned \<Longrightarrow> plain_server_exec l s = Some s' \<Longrightarrow> sv_stop s' = Stop_returned \<and> sv_threads s' = sv_threads s"
  by (cases l; auto simp: server_inv_def op_defs split: op_splits)+

interpretation sv: connection_server server_exec server_inv sv_threads sv_ended "\<lambda>s. sv_stop s = Stop_returned"
proof
  fix s s' l
  show "server_inv s \<Longrightarrow> server_exec l s = Some s' \<Longrightarrow> server_inv s'" by (rule server_exec_inv)
  show "server_inv s \<Longrightarrow> sv_stop s = Stop_returned \<Longrightarrow> server_exec l s = Some s' \<Longrightarrow> sv_stop s' = Stop_returned \<and> sv_threads s' = sv_threads s"
    by (rule exec_after_return)
qed (auto simp: server_inv_def)

interpretation pv: connection_server plain_server_exec server_inv sv_threads sv_ended "\<lambda>s. sv_stop s = Stop_returned"
proof
  fix s s' l
  show "server_inv s \<Longrightarrow> plain_server_exec l s = Some s' \<Longrightarrow> server_inv s'" by (rule plain_server_exec_inv)
  show "server_inv s \<Longrightarrow> sv_stop s = Stop_returned \<Longrightarrow> plain_server_exec l s = Some s' \<Longrightarrow> sv_stop s' = Stop_returned \<and> sv_threads s' = sv_threads s"
    by (rule exec_after_return)
qed (auto simp: server_inv_def)

section \<open>Stopping\<close>

text \<open>What is left to do once \<open>stop\<close> has been called and the port is bound.\<close>

definition stopping :: "server \<Rightarrow> bool" where
  "stopping s \<longleftrightarrow> server_inv s \<and> sv_stop s \<noteq> Stop_idle \<and> sv_serve s \<notin> {Not_started, Binding}"

fun phase_work :: "serve_phase \<Rightarrow> nat" where
  "phase_work Polling = 4"
| "phase_work Accept_loop = 1"
| "phase_work _ = 0"

fun stop_work :: "nat \<Rightarrow> stop_state \<Rightarrow> nat" where
  "stop_work n Stop_thread = 2 + n"
| "stop_work n (Stop_handlers fds) = 1 + length fds"
| "stop_work n _ = 0"

definition server_work :: "server \<Rightarrow> nat" where
  "server_work s = phase_work (sv_serve s) + card (set (sv_threads s) - sv_ended s) + stop_work (length (sv_threads s)) (sv_stop s)"

lemma handler_end_work: "fd \<in> set (sv_threads s) \<Longrightarrow> fd \<notin> sv_ended s \<Longrightarrow>
    card (set (sv_threads s) - sv_ended s) - Suc 0 < card (set (sv_threads s) - sv_ended s)"
proof -
  assume "fd \<in> set (sv_threads s)" "fd \<notin> sv_ended s"
  then have "0 < card (set (sv_threads s) - sv_ended s)" by (intro card_gt_0_iff [THEN iffD2]) auto
  then show ?thesis by simp
qed

lemma new_handler_work: "fd \<notin> set (sv_threads s) \<Longrightarrow> card (insert fd (set (sv_threads s)) - sv_ended s) \<le> Suc (card (set (sv_threads s) - sv_ended s))"
  by (cases "fd \<in> sv_ended s") (simp_all add: insert_Diff_if)

lemma stopping_exec:
  "stopping s \<Longrightarrow> server_exec l s = Some s' \<Longrightarrow> stopping s'"
  "stopping s \<Longrightarrow> plain_server_exec l s = Some s' \<Longrightarrow> stopping s'"
  unfolding stopping_def using server_exec_inv [of s l s'] plain_server_exec_inv [of s l s']
  by (cases l; auto simp: op_defs split: op_splits)+

lemma stopping_stopped: "stopping s \<Longrightarrow> sv_stopped s \<or> sv_stop s = Stop_returned \<and> sv_serve s = Serve_ended"
  by (cases "sv_stop s") (auto simp: stopping_def server_inv_def)

lemma server_exec_work: "stopping s \<Longrightarrow> server_exec l s = Some s' \<Longrightarrow> server_work s' < server_work s"
  using stopping_stopped [of s]
  by (cases l) (auto simp: stopping_def server_work_def op_defs intro: handler_end_work split: op_splits)

lemma plain_server_exec_work: "stopping s \<Longrightarrow> plain_server_exec l s = Some s' \<Longrightarrow> server_work s' < server_work s"
proof (cases l)
  case (Accept r)
  assume s: "stopping s" "plain_server_exec l s = Some s'"
  with Accept have p: "sv_serve s = Polling" by (auto simp: op_defs split: op_splits)
  then have "sv_stop s = Stop_thread" using s(1) by (cases "sv_stop s") (auto simp: stopping_def server_inv_def)
  with p s Accept new_handler_work [of _ s] show ?thesis
    by (cases r) (fastforce simp: server_work_def op_defs split: op_splits)+
qed (use stopping_stopped [of s] in \<open>auto simp: stopping_def server_work_def op_defs intro: handler_end_work split: op_splits\<close>)

lemma stopping_progress:
  assumes "stopping s" and "sv_stop s \<noteq> Stop_returned" and "sv_serve s \<noteq> Exited"
  shows "sv_serve s \<noteq> Polling \<Longrightarrow> \<exists>l s'. server_exec l s = Some s'" "\<exists>l s'. plain_server_exec l s = Some s'"
proof -
  have "(\<exists>l s'. server_exec l s = Some s') \<and> (\<exists>l s'. plain_server_exec l s = Some s')" if "sv_stop s = Stop_handlers fds" for fds
  proof (cases "fds \<noteq> [] \<and> hd fds \<notin> sv_ended s")
    case True
    then have "hd fds \<in> set (sv_threads s)" using assms(1) that by (cases fds) (auto simp: stopping_def server_inv_def)
    with True assms(3) show ?thesis
      by (intro conjI exI [of _ "Handler_end (hd fds)"]) (simp_all add: handler_end_def)
  next
    case False
    then show ?thesis using that assms(3) by (intro conjI exI [of _ Stop_next]; cases fds) (simp_all add: stop_next_def)
  qed
  moreover have "sv_stopped s" using stopping_stopped [OF assms(1)] assms(2) by blast
  moreover have "(\<exists>l s'. server_exec l s = Some s') \<and> (\<exists>l s'. plain_server_exec l s = Some s')"
    if "sv_serve s = Serve_ended" "sv_stop s = Stop_thread"
    using that by (intro conjI exI [of _ Stop_next]) (simp_all add: stop_next_def)
  moreover have "\<exists>l s'. plain_server_exec l s = Some s'" if "sv_serve s = Accept_loop"
    using that by (intro exI [of _ Check]) (simp add: plain_check_def)
  moreover have "\<exists>l s'. plain_server_exec l s = Some s'" if "sv_serve s = Polling"
    using that by (intro exI [of _ "Accept Would_block"]) (simp add: plain_accept_def)
  moreover have "\<exists>l s'. server_exec l s = Some s'" if "sv_serve s = Accept_loop"
    using that \<open>sv_stopped s\<close> by (intro exI [of _ Serve_end]) (simp add: run_end_def)
  ultimately show "sv_serve s \<noteq> Polling \<Longrightarrow> \<exists>l s'. server_exec l s = Some s'" "\<exists>l s'. plain_server_exec l s = Some s'"
    using assms by (cases "sv_serve s"; cases "sv_stop s"; auto simp: stopping_def)+
qed

text \<open>Only the second layer polls.\<close>

definition stopping_async :: "server \<Rightarrow> bool" where
  "stopping_async s \<longleftrightarrow> stopping s \<and> sv_serve s \<notin> {Polling, Exited}"

lemma stopping_async_exec: "stopping_async s \<Longrightarrow> server_exec l s = Some s' \<Longrightarrow> stopping_async s'"
  using stopping_exec(1) [of s l s'] unfolding stopping_async_def by (cases l) (auto simp: op_defs split: op_splits)

interpretation sv_drain: draining_system server_exec stopping_async server_work "\<lambda>s. sv_stop s = Stop_returned"
proof
  fix s s' l
  show "stopping_async s \<Longrightarrow> server_exec l s = Some s' \<Longrightarrow> stopping_async s'" by (rule stopping_async_exec)
  show "stopping_async s \<Longrightarrow> server_exec l s = Some s' \<Longrightarrow> server_work s' < server_work s"
    by (intro server_exec_work) (simp_all add: stopping_async_def)
  show "stopping_async s \<Longrightarrow> sv_stop s \<noteq> Stop_returned \<Longrightarrow> \<exists>l s'. server_exec l s = Some s'"
    by (intro stopping_progress(1)) (simp_all add: stopping_async_def)
qed

interpretation pv_drain: draining_system plain_server_exec stopping server_work "\<lambda>s. sv_stop s = Stop_returned \<or> sv_serve s = Exited"
proof
  fix s s' l
  show "stopping s \<Longrightarrow> plain_server_exec l s = Some s' \<Longrightarrow> stopping s'" by (rule stopping_exec)
  show "stopping s \<Longrightarrow> plain_server_exec l s = Some s' \<Longrightarrow> server_work s' < server_work s" by (rule plain_server_exec_work)
  show "stopping s \<Longrightarrow> \<not> (sv_stop s = Stop_returned \<or> sv_serve s = Exited) \<Longrightarrow> \<exists>l s'. plain_server_exec l s = Some s'"
    by (intro stopping_progress(2)) simp_all
qed

lemma reached_phase: "run_labels server_exec ls new_server = Some s \<Longrightarrow> sv_serve s \<notin> {Polling, Exited}"
  by (rule run_labels_keep [where P = "\<lambda>s. sv_serve s \<notin> {Polling, Exited}" and f = server_exec])
    (auto simp: new_server_def op_defs elim!: server_exec.elims split: op_splits)

section \<open>Properties\<close>



text \<open>C37: Once the port is bound, a call of \<open>stop\<close> returns on every schedule on which the handlers end: every run
  that follows is bounded, and can only come to rest when \<open>stop\<close> has returned or, with plain sockets, an error of
  \<open>accept\<close> has ended the process.\<close>

theorem server_stop_returns:
  assumes "exec = server_exec \<or> exec = plain_server_exec" and "run_labels exec ls new_server = Some s"
    and "sv_stop s \<noteq> Stop_idle" and "sv_serve s \<notin> {Not_started, Binding}" and "run_labels exec ls' s = Some t"
  shows "length ls' \<le> server_work s \<and> (halted exec t \<longrightarrow> sv_stop t = Stop_returned \<or> exec = plain_server_exec \<and> sv_serve t = Exited)"
  using assms(1)
proof
  assume e: "exec = server_exec"
  have "stopping_async s"
    using sv.run_good [OF new_server_inv assms(2) [unfolded e]] reached_phase [OF assms(2) [unfolded e]] assms(3,4)
    by (simp add: stopping_async_def stopping_def)
  from sv_drain.run_good [OF this assms(5) [unfolded e]] sv_drain.halted_done [of t] show ?thesis unfolding e by auto
next
  assume e: "exec = plain_server_exec"
  have "stopping s" using pv.run_good [OF new_server_inv assms(2) [unfolded e]] assms(3,4) by (simp add: stopping_def)
  from pv_drain.run_good [OF this assms(5) [unfolded e]] pv_drain.halted_done [of t] show ?thesis unfolding e by auto
qed

theorem server_stop_returns_witness:
  "(let ls = [Start, Bind False, Check, Accept (Fd 4), Check, Stop_call]; ls' = [Accept (Fd 5), Check, Stop_next] in
    \<exists>s t. run_labels plain_server_exec ls new_server = Some s \<and> run_labels plain_server_exec ls' s = Some t \<and>
      length ls' \<le> server_work s \<and> (halted plain_server_exec t \<longrightarrow> sv_stop t = Stop_returned \<or> sv_serve t = Exited))"
proof -
  let ?ls = "[Start, Bind False, Check, Accept (Fd 4), Check, Stop_call]" and ?ls' = "[Accept (Fd 5), Check, Stop_next]"
  obtain s where s: "run_labels plain_server_exec ?ls new_server = Some s" "sv_stop s \<noteq> Stop_idle" "sv_serve s \<notin> {Not_started, Binding}"
      "\<exists>t. run_labels plain_server_exec ?ls' s = Some t"
    by (simp add: op_defs new_server_def)
  then obtain t where t: "run_labels plain_server_exec ?ls' s = Some t" by blast
  from server_stop_returns [OF disjI2 [OF refl] s(1-3) t] s t show ?thesis unfolding Let_def by blast
qed

text \<open>C38: In the first layer the accepting thread binds the port: a server that is stopped while the port is in use
  is not stopped before the port is free, whatever else happens. In the second layer \<open>start\<close> ends the process.\<close>

theorem stop_waits_for_port:
  assumes "run_labels server_exec ls new_server = Some s" and "sv_serve s = Binding" and "sv_stop s = Stop_thread"
    and "Bind False \<notin> set ls'" and "run_labels server_exec ls' s = Some t"
  shows "sv_stop t = Stop_thread \<and> plain_server_exec (Bind True) s = Some (s\<lparr>sv_serve := Exited\<rparr>)"
proof -
  have "sv_serve t = Binding \<and> sv_stop t = Stop_thread" using assms(2-5)
  proof (induction ls' arbitrary: s)
    case (Cons l ls')
    then obtain s1 where s1: "server_exec l s = Some s1" "run_labels server_exec ls' s1 = Some t" by (auto split: option.splits)
    have "sv_serve s1 = Binding \<and> sv_stop s1 = Stop_thread"
      using s1(1) Cons.prems(1-3) by (cases l) (auto simp: op_defs split: op_splits)
    with Cons.IH [of s1] Cons.prems(3) s1(2) show ?case by simp
  qed simp
  with assms(2) show ?thesis by (simp add: plain_bind_def)
qed

theorem stop_waits_for_port_witness:
  "\<exists>s t. run_labels server_exec [Start, Bind True, Stop_call] new_server = Some s \<and>
    run_labels server_exec [Bind True, Bind True, Bind True] s = Some t \<and> sv_stop t = Stop_thread"
proof -
  obtain s where s: "run_labels server_exec [Start, Bind True, Stop_call] new_server = Some s" "sv_serve s = Binding" "sv_stop s = Stop_thread"
    by (simp add: op_defs new_server_def)
  have n: "Bind False \<notin> set [Bind True, Bind True, Bind True]" by simp
  have t: "run_labels server_exec [Bind True, Bind True, Bind True] s = Some s" using s by (simp add: serve_bind_def)
  from stop_waits_for_port [OF s n t] s(1) t show ?thesis by blast
qed

end
