(* ===== verification/Logging.thy ===== *)
theory Logging
  imports Config
begin

text \<open>
  Logging: \<open>log.hpp\<close> and \<open>log.cpp\<close>. \<open>log()\<close> returns an object that holds a mutex from its construction to its
  destruction, prints a prefix when it is made, each operand of \<open><<\<close> when it is evaluated, and a line end when it is
  destroyed; all of this only if logging is enabled, while the mutex is always taken. The threads of a process are a
  transition system whose state holds the text written to both streams; \<open>tid\<close> is how a thread id is printed.

  The lemmas show that lines are never mixed up: each stream holds whole lines, in the order in which the mutex was
  taken, and those of one thread in the order of its program.
\<close>

section \<open>Definitions\<close>

datatype log_level = DEBUG | INFO | PRINT | WARN | ERROR

datatype out_stream = Cout | Cerr

definition log_enabled :: "env \<Rightarrow> bool" where
  "log_enabled env = parse_env_bool env ''STDML_COLLECTIVE_ENABLE_LOG''"

definition log_target :: "log_level \<Rightarrow> out_stream" where
  "log_target level = (if level = PRINT then Cout else Cerr)"

text \<open>A statement of a thread: \<open>enable_log()\<close>, or \<open>log(level) << x << ...\<close> with the operands as they are printed.\<close>

datatype log_stmt = Enable_log | Log_line log_level "string list"

text \<open>\<open>lg_holder\<close> is the object that holds the mutex: its thread, its stream and the operands that are still to come.\<close>

record logging =
  lg_enabled :: bool
  lg_holder :: "(nat \<times> out_stream \<times> string list) option"
  lg_out :: "out_stream \<Rightarrow> string"
  lg_todo :: "nat \<Rightarrow> log_stmt list"

definition start_logging :: "env \<Rightarrow> (nat \<Rightarrow> log_stmt list) \<Rightarrow> logging" where
  "start_logging env todo = \<lparr>lg_enabled = log_enabled env, lg_holder = None, lg_out = (\<lambda>_. []), lg_todo = todo\<rparr>"

definition log_write :: "out_stream \<Rightarrow> string \<Rightarrow> logging \<Rightarrow> logging" where
  "log_write os text s = (if lg_enabled s then s\<lparr>lg_out := (lg_out s)(os := lg_out s os @ text)\<rparr> else s)"

definition log_prefix :: "(nat \<Rightarrow> string) \<Rightarrow> nat \<Rightarrow> string" where
  "log_prefix tid t = ''[D] '' @ tid t"

text \<open>The constructor, \<open>operator<<\<close> and the destructor of \<open>logger\<close>.\<close>

definition new_logger :: "(nat \<Rightarrow> string) \<Rightarrow> nat \<Rightarrow> log_level \<Rightarrow> string list \<Rightarrow> logging \<Rightarrow> logging" where
  "new_logger tid t level ps s = log_write (log_target level) (log_prefix tid t) (s\<lparr>lg_holder := Some (t, log_target level, ps)\<rparr>)"

definition logger_put :: "nat \<Rightarrow> out_stream \<Rightarrow> string \<Rightarrow> string list \<Rightarrow> logging \<Rightarrow> logging" where
  "logger_put t os x ps s = log_write os ('' '' @ x) (s\<lparr>lg_holder := Some (t, os, ps)\<rparr>)"

definition delete_logger :: "out_stream \<Rightarrow> logging \<Rightarrow> logging" where
  "delete_logger os s = log_write os [CHR 0x0A] (s\<lparr>lg_holder := None\<rparr>)"

definition enable_log :: "logging \<Rightarrow> logging" where
  "enable_log s = s\<lparr>lg_enabled := True\<rparr>"

text \<open>
  A step of thread \<open>t\<close>: the next step of the object it holds, or the start of its next statement, which waits for
  the mutex when it makes a logger.
\<close>

definition log_exec :: "(nat \<Rightarrow> string) \<Rightarrow> nat \<Rightarrow> logging \<Rightarrow> logging option" where
  "log_exec tid t s =
     (case lg_holder s of
        Some (u, os, ps) \<Rightarrow>
          if u = t then (case ps of [] \<Rightarrow> Some (delete_logger os s) | x # xs \<Rightarrow> Some (logger_put t os x xs s))
          else (case lg_todo s t of Enable_log # rest \<Rightarrow> Some (enable_log (s\<lparr>lg_todo := (lg_todo s)(t := rest)\<rparr>)) | _ \<Rightarrow> None)
      | None \<Rightarrow>
          (case lg_todo s t of
             [] \<Rightarrow> None
           | Enable_log # rest \<Rightarrow> Some (enable_log (s\<lparr>lg_todo := (lg_todo s)(t := rest)\<rparr>))
           | Log_line level ps # rest \<Rightarrow> Some (new_logger tid t level ps (s\<lparr>lg_todo := (lg_todo s)(t := rest)\<rparr>))))"

section \<open>Whole lines\<close>

definition log_rest :: "string list \<Rightarrow> string" where
  "log_rest ps = concat (map (\<lambda>x. '' '' @ x) ps) @ [CHR 0x0A]"

definition log_line :: "(nat \<Rightarrow> string) \<Rightarrow> nat \<times> log_level \<times> string list \<Rightarrow> string" where
  "log_line tid = (\<lambda>(t, level, ps). log_prefix tid t @ log_rest ps)"

text \<open>What is still missing of the current line, and the loggers that a run makes, in order.\<close>

definition line_rest :: "logging \<Rightarrow> out_stream \<Rightarrow> string" where
  "line_rest s os = (case lg_holder s of None \<Rightarrow> [] | Some (t, os', ps) \<Rightarrow> if os' = os then log_rest ps else [])"

fun loggers :: "(nat \<Rightarrow> string) \<Rightarrow> nat list \<Rightarrow> logging \<Rightarrow> (nat \<times> log_level \<times> string list) list" where
  "loggers tid [] s = []"
| "loggers tid (t # ts) s = (case log_exec tid t s of
       None \<Rightarrow> []
     | Some s' \<Rightarrow> (if lg_holder s = None then (case lg_todo s t of Log_line level ps # rest \<Rightarrow> [(t, level, ps)] | _ \<Rightarrow> []) else []) @ loggers tid ts s')"

definition lines_to :: "out_stream \<Rightarrow> (nat \<times> log_level \<times> string list) list \<Rightarrow> (nat \<times> log_level \<times> string list) list" where
  "lines_to os ls = filter (\<lambda>(t, level, ps). log_target level = os) ls"

definition log_lines_of :: "log_stmt list \<Rightarrow> (log_level \<times> string list) list" where
  "log_lines_of stmts = concat (map (\<lambda>st. case st of Enable_log \<Rightarrow> [] | Log_line level ps \<Rightarrow> [(level, ps)]) stmts)"

definition lines_by :: "nat \<Rightarrow> (nat \<times> log_level \<times> string list) list \<Rightarrow> (log_level \<times> string list) list" where
  "lines_by t ls = map snd (filter (\<lambda>l. fst l = t) ls)"

lemmas log_defs = log_write_def new_logger_def logger_put_def delete_logger_def enable_log_def log_line_def log_rest_def lines_to_def
  lines_by_def log_lines_of_def line_rest_def

lemma log_exec_cases:
  assumes "log_exec tid t s = Some s'"
  obtains (delete) os where "lg_holder s = Some (t, os, [])" and "s' = delete_logger os s"
    | (put) os x xs where "lg_holder s = Some (t, os, x # xs)" and "s' = logger_put t os x xs s"
    | (enable) rest where "lg_todo s t = Enable_log # rest" and "s' = enable_log (s\<lparr>lg_todo := (lg_todo s)(t := rest)\<rparr>)"
    | (new) level ps rest where "lg_holder s = None" and "lg_todo s t = Log_line level ps # rest"
        and "s' = new_logger tid t level ps (s\<lparr>lg_todo := (lg_todo s)(t := rest)\<rparr>)"
  using assms by (auto simp: log_exec_def split: option.split_asm if_split_asm list.split_asm log_stmt.split_asm)

lemma log_step:
  assumes "log_exec tid t s = Some s'" and "lg_enabled s"
  shows "lg_enabled s' \<and>
    lg_out s' os @ line_rest s' os = lg_out s os @ line_rest s os @ concat (map (log_line tid) (lines_to os (loggers tid [t] s))) \<and>
    lines_by u (loggers tid [t] s) @ log_lines_of (lg_todo s' u) = log_lines_of (lg_todo s u)"
proof -
  have l: "loggers tid [t] s = (if lg_holder s = None then (case lg_todo s t of Log_line level ps # rest \<Rightarrow> [(t, level, ps)] | _ \<Rightarrow> []) else [])"
    using assms(1) by simp
  from assms(1) show ?thesis
  proof (cases rule: log_exec_cases)
    case (delete os')
    then show ?thesis using assms(2) by (simp add: log_defs l del: loggers.simps)
  next
    case (put os' x xs)
    then show ?thesis using assms(2) by (simp add: log_defs l del: loggers.simps)
  next
    case (enable rest)
    then have n: "loggers tid [t] s = []" unfolding l by simp
    show ?thesis unfolding n using enable assms(2) by (auto simp: log_defs)
  next
    case (new level ps rest)
    then have n: "loggers tid [t] s = [(t, level, ps)]" unfolding l by simp
    show ?thesis unfolding n using new assms(2) by (auto simp: log_defs)
  qed
qed

lemma loggers_Cons: "log_exec tid t s = Some s' \<Longrightarrow> loggers tid (t # ts) s = loggers tid [t] s @ loggers tid ts s'"
  unfolding loggers.simps option.simps by simp

lemmas log_step_facts = log_step [THEN conjunct1] log_step [THEN conjunct2, THEN conjunct1] log_step [THEN conjunct2, THEN conjunct2]

lemma log_run:
  assumes "run_labels (log_exec tid) ts s = Some s'" and "lg_enabled s"
  shows "lg_out s' os @ line_rest s' os = lg_out s os @ line_rest s os @ concat (map (log_line tid) (lines_to os (loggers tid ts s))) \<and>
    lines_by u (loggers tid ts s) @ log_lines_of (lg_todo s' u) = log_lines_of (lg_todo s u)"
  using assms
proof (induction ts arbitrary: s)
  case Nil
  then show ?case by (simp add: lines_to_def lines_by_def)
next
  case (Cons t ts)
  then obtain s1 where s1: "log_exec tid t s = Some s1" "run_labels (log_exec tid) ts s1 = Some s'" by (auto split: option.splits)
  note st = log_step_facts [OF s1(1) Cons.prems(2)]
  note ih = Cons.IH [OF s1(2) st(1)]
  have a: "lines_to os (xs @ ys) = lines_to os xs @ lines_to os ys" "lines_by u (xs @ ys) = lines_by u xs @ lines_by u ys" for xs ys
    by (simp_all add: lines_to_def lines_by_def)
  have "lg_out s' os @ line_rest s' os = (lg_out s1 os @ line_rest s1 os) @ concat (map (log_line tid) (lines_to os (loggers tid ts s1)))"
    using ih by simp
  moreover have "lines_by u (loggers tid [t] s) @ lines_by u (loggers tid ts s1) @ log_lines_of (lg_todo s' u) = log_lines_of (lg_todo s u)"
    using ih st(3) by simp
  moreover have "loggers tid (t # ts) s = loggers tid [t] s @ loggers tid ts s1" by (rule loggers_Cons [OF s1(1)])
  ultimately show ?case using st(2) [of os] by (simp only: a append_assoc concat_append map_append)
qed

section \<open>Properties\<close>

text \<open>C39: With logging enabled by the environment, whenever no thread holds the mutex, each stream holds exactly the
  lines of the loggers made so far, whole and in the order in which they were made; the loggers of a thread are those
  of its program, in order.\<close>

theorem log_lines_whole:
  assumes "log_enabled env" and "run_labels (log_exec tid) ts (start_logging env todo) = Some s" and "lg_holder s = None"
  shows "\<exists>ls. (\<forall>os. lg_out s os = concat (map (log_line tid) (lines_to os ls))) \<and>
    (\<forall>t. log_lines_of (todo t) = lines_by t ls @ log_lines_of (lg_todo s t))"
proof (intro exI conjI allI)
  let ?ls = "loggers tid ts (start_logging env todo)"
  have "lg_enabled (start_logging env todo)" using assms(1) by (simp add: start_logging_def)
  note r = log_run [OF assms(2) this]
  show "lg_out s os = concat (map (log_line tid) (lines_to os ?ls))" for os
    using r [of os] assms(3) by (simp add: start_logging_def line_rest_def)
  show "log_lines_of (todo t) = lines_by t ?ls @ log_lines_of (lg_todo s t)" for t
    using r [of _ t] by (simp add: start_logging_def)
qed

theorem log_lines_whole_witness:
  "(let env = [''STDML_COLLECTIVE_ENABLE_LOG'' \<mapsto> ''on'']; tid = (\<lambda>t. [CHR ''7'']);
        todo = (\<lambda>t. if t = 0 then [Log_line INFO [''a'', ''b'']] else if t = 1 then [Log_line PRINT [''c'']] else []) in
    \<exists>s ls. run_labels (log_exec tid) [0, 0, 0, 0, 1, 1, 1] (start_logging env todo) = Some s \<and>
      lg_out s Cerr = concat (map (log_line tid) (lines_to Cerr ls)) \<and> log_lines_of (todo 1) = lines_by 1 ls @ log_lines_of (lg_todo s 1))"
proof -
  let ?env = "[''STDML_COLLECTIVE_ENABLE_LOG'' \<mapsto> ''on'']" and ?tid = "\<lambda>t :: nat. [CHR ''7'']"
  let ?todo = "\<lambda>t :: nat. if t = 0 then [Log_line INFO [''a'', ''b'']] else if t = 1 then [Log_line PRINT [''c'']] else []"
  have e: "log_enabled ?env" by (simp add: log_enabled_def parse_env_bool_def safe_getenv_def tolower_def)
  obtain s where s: "run_labels (log_exec ?tid) [0, 0, 0, 0, 1, 1, 1] (start_logging ?env ?todo) = Some s" "lg_holder s = None"
    using e by (simp add: log_exec_def start_logging_def log_write_def new_logger_def logger_put_def delete_logger_def log_target_def log_prefix_def)
  from log_lines_whole [OF e s] s(1) show ?thesis unfolding Let_def by blast
qed

end
