(* ===== verification/Send_Bench.thy ===== *)
theory Send_Bench
  imports Client
begin

text \<open>
  The benchmark of messages: \<open>src/apps/stdml_collective_bench_send_recv.cpp\<close>. A server counts the messages of each
  connection and reads their bodies; a client opens one connection and sends \<open>100 * 100\<close> messages of the given size.

  The lemmas compose the client, the connection and the receiving loop: the thread of the connection counts exactly the
  messages sent, whatever pieces their bytes arrive in.
\<close>

section \<open>The server\<close>

text \<open>\<open>customized_msg_handler_1\<close>: the number of messages, and the lines logged, one for every hundredth message.\<close>

record bench_handler =
  bh_seq :: nat
  bh_logged :: "(nat \<times> string \<times> nat) list"

definition new_bench_handler :: bench_handler where
  "new_bench_handler = \<lparr>bh_seq = 0, bh_logged = []\<rparr>"

definition bench_count :: "string \<Rightarrow> nat \<Rightarrow> bench_handler \<Rightarrow> bench_handler" where
  "bench_count name len h =
     (let sq = bh_seq h + 1 in
      \<lparr>bh_seq = sq, bh_logged = (if sq mod 100 = 0 then bh_logged h @ [(sq, name, len)] else bh_logged h)\<rparr>)"

definition bench_msg_handler :: "'i message_reader \<Rightarrow> ('i, bench_handler) handler" where
  "bench_msg_handler rd mh s h = reading_handler rd (\<lambda>mh _. bench_count (h_name mh) (h_len mh)) mh s h"

text \<open>\<open>customized_handler_1\<close>, in the thread of an accepted connection; connections of all types are handled.\<close>

definition bench_serve_conn :: "stream \<Rightarrow> (nat \<times> bench_handler) res option" where
  "bench_serve_conn s =
     (case upgrade_from s of
        Inl e \<Rightarrow> Some (Inl e)
      | Inr (c, ack, s') \<Rightarrow> handle_to_end stream_reader (bench_msg_handler stream_reader) s' new_bench_handler)"

section \<open>The client\<close>

definition bench_send :: "nat \<Rightarrow> connection \<Rightarrow> connection" where
  "bench_send buffer_size = conn_send_msg ''hello world'' (replicate buffer_size 0) 0"

definition main_client :: "peer_id \<Rightarrow> nat \<Rightarrow> connection res" where
  "main_client target buffer_size =
     (case parse_peer_id ''0.0.0.0:0'' of
        None \<Rightarrow> Inl (Exception ''std::bad_optional_access'')
      | Some self \<Rightarrow> Inr (((bench_send buffer_size ^^ 100) ^^ 100) (dial target conn_send self)))"

section \<open>The program\<close>

datatype bench_run = Exit_code nat | Run_server peer_id nat | Run_client connection

text \<open>The \<open>int\<close> that \<open>stoi\<close> returns becomes a \<open>size_t\<close>.\<close>

definition bench_main :: "string list \<Rightarrow> bench_run res" where
  "bench_main argv =
     (case argv of
        _ # mode # host # size_arg # _ \<Rightarrow>
          (case parse_peer_id host of
             None \<Rightarrow> Inl (Exception ''std::bad_optional_access'')
           | Some pid \<Rightarrow>
               res_bind (stoi size_arg) (\<lambda>v.
                 (let buffer_size = unat (word_of_int v :: u64) in
                  if mode = ''s'' then Inr (Run_server pid buffer_size)
                  else if mode = ''c'' then res_map Run_client (main_client pid buffer_size)
                  else Inr (Exit_code 0))))
      | _ \<Rightarrow> Inr (Exit_code 1))"

section \<open>Lemmas\<close>

lemma bench_reading: "bench_msg_handler rd = reading_handler rd (\<lambda>mh _. bench_count (h_name mh) (h_len mh))"
  by (intro ext) (simp add: bench_msg_handler_def)

lemma bench_sends: "(bench_send n ^^ k) cn = cn\<lparr>cn_bytes := cn_bytes cn @ concat (replicate k (msg_bytes (''hello world'', replicate n 0, 0)))\<rparr>"
proof (induction k)
  case (Suc k)
  have "concat (replicate k b) @ b = b @ concat (replicate k b)" for b :: "byte list" by (induction k) simp_all
  with Suc show ?case by (simp add: bench_send_def conn_send_msg_def msg_bytes_def)
qed simp

lemma bench_counts: "(bench_count name len ^^ k) new_bench_handler =
    \<lparr>bh_seq = k, bh_logged = map (\<lambda>i. (100 * (i + 1), name, len)) [0..<k div 100]\<rparr>"
proof (induction k)
  case (Suc k)
  have "Suc k mod 100 = 0 \<Longrightarrow> Suc k div 100 = Suc (k div 100) \<and> Suc k = 100 * (k div 100 + 1)"
    using div_mult_mod_eq [of "Suc k" 100] by (simp add: div_Suc)
  moreover have "Suc k mod 100 \<noteq> 0 \<Longrightarrow> Suc k div 100 = k div 100" by (simp add: div_Suc)
  ultimately show ?case using Suc by (auto simp: bench_count_def Let_def)
qed (simp add: new_bench_handler_def)

lemma fold_replicate: "fold f (replicate k x) s = (f x ^^ k) s"
  by (induction k arbitrary: s) (simp_all add: funpow_swap1)

section \<open>Properties\<close>

text \<open>C40: Client and server of the benchmark together: for every target and buffer size, the client writes a header and
  10000 messages to its connection, and the server's thread of this connection, whatever pieces the bytes arrive in,
  handles exactly 10000 messages of that size, logs every hundredth and ends.\<close>

theorem send_bench_counts:
  assumes "n < 2 ^ 31" and "parse_peer_id host = Some target"
  shows "\<exists>cn. bench_main [prog, ''c'', host, to_string n] = Inr (Run_client cn) \<and> cn_remote cn = target \<and>
    (\<forall>s. pieces s \<and> concat s = cn_bytes cn \<longrightarrow> bench_serve_conn s = Some (Inr (10000,
      \<lparr>bh_seq = 10000, bh_logged = map (\<lambda>i. (100 * (i + 1), ''hello world'', n)) [0..<100]\<rparr>)))"
proof -
  let ?self = "\<lparr>ipv4 = 0, port = 0\<rparr> :: peer_id" and ?m = "(''hello world'', replicate n 0, 0) :: string \<times> byte list \<times> u32"
  let ?ms = "replicate 10000 ?m"
  have "peer_string ?self = ''0.0.0.0:0''" by code_simp
  then have p: "parse_peer_id ''0.0.0.0:0'' = Some ?self" using parse_peer_string [of "[]" ?self] by simp
  have u: "unat (word_of_nat n :: u64) = n" using assms(1) by (simp add: unat_of_nat)
  define cn where "cn = ((bench_send n ^^ 100) ^^ 100) (dial target conn_send ?self)"
  have cn: "cn = dial target conn_send ?self\<lparr>cn_bytes := cn_bytes (dial target conn_send ?self) @ concat (map msg_bytes ?ms)\<rparr>"
    using bench_sends [of 10000 n] by (simp add: cn_def funpow_mult)
  have main: "bench_main [prog, ''c'', host, to_string n] = Inr (Run_client cn)"
    using assms p u by (simp add: bench_main_def stoi_to_string Let_def main_client_def cn_def)
  have "bench_serve_conn s = Some (Inr (10000, \<lparr>bh_seq = 10000, bh_logged = map (\<lambda>i. (100 * (i + 1), ''hello world'', n)) [0..<100]\<rparr>))"
    if s: "pieces s" "concat s = cn_bytes cn" for s
  proof -
    have "concat s = enc_conn_header (upgrade_to_header conn_send ?self) @ concat (map msg_bytes ?ms)"
      unfolding s(2) cn by (simp add: dial_def)
    from upgrade_from_enc [OF s(1) this] obtain s' where
      s': "upgrade_from s = Inr (\<lparr>c_type = word_of_nat (conn_type_value conn_send), c_src = ?self\<rparr>, le_enc 4 0, s')"
        "concat s' = concat (map msg_bytes ?ms)" "pieces s'" by blast
    have "list_all sendable ?ms" using assms(1) by (simp add: list_all_iff sendable_def)
    from sr.handle_loop_reading [OF this s'(3,2), of "\<lambda>mh _. bench_count (h_name mh) (h_len mh)" 0 new_bench_handler]
    have "handle_to_end stream_reader (bench_msg_handler stream_reader) s' new_bench_handler =
        Some (Inr (10000, (bench_count ''hello world'' n ^^ 10000) new_bench_handler))"
      by (simp only: handle_to_end_def bench_reading fold_replicate) (simp add: header_of_def)
    with s'(1) show ?thesis by (simp add: bench_serve_conn_def bench_counts)
  qed
  with main cn show ?thesis by (intro exI [of _ cn]) (simp add: dial_def)
qed

theorem send_bench_counts_witness:
  "\<exists>cn. bench_main [''bench'', ''c'', peer_string \<lparr>ipv4 = 0x7f000001, port = 9000\<rparr>, to_string 1024] = Inr (Run_client cn) \<and>
    cn_remote cn = \<lparr>ipv4 = 0x7f000001, port = 9000\<rparr> \<and>
    bench_serve_conn [cn_bytes cn] = Some (Inr (10000, \<lparr>bh_seq = 10000, bh_logged = map (\<lambda>i. (100 * (i + 1), ''hello world'', 1024)) [0..<100]\<rparr>))"
proof -
  let ?p = "\<lparr>ipv4 = 0x7f000001, port = 9000\<rparr> :: peer_id"
  have p: "parse_peer_id (peer_string ?p) = Some ?p" using parse_peer_string [of "[]" ?p] by simp
  have n: "1024 < (2 ^ 31 :: nat)" by simp
  from send_bench_counts [OF n p, of "''bench''"] obtain cn where
    cn: "bench_main [''bench'', ''c'', peer_string ?p, to_string 1024] = Inr (Run_client cn)" "cn_remote cn = \<lparr>ipv4 = 0x7f000001, port = 9000\<rparr>"
      "\<forall>s. pieces s \<and> concat s = cn_bytes cn \<longrightarrow> bench_serve_conn s = Some (Inr (10000,
        \<lparr>bh_seq = 10000, bh_logged = map (\<lambda>i. (100 * (i + 1), ''hello world'', 1024)) [0..<100]\<rparr>))" by blast
  have "cn_bytes cn \<noteq> []"
  proof
    assume e: "cn_bytes cn = []"
    have "pieces []" "concat [] = cn_bytes cn" using e by (simp_all add: pieces_def)
    with cn(3) have "bench_serve_conn [] = Some (Inr (10000, \<lparr>bh_seq = 10000, bh_logged = map (\<lambda>i. (100 * (i + 1), ''hello world'', 1024)) [0..<100]\<rparr>))" by blast
    moreover have "bench_serve_conn [] = Some (Inl unexpected_eof)" by code_simp
    ultimately show False by simp
  qed
  then have "pieces [cn_bytes cn]" by (simp add: pieces_def)
  with cn show ?thesis by (intro exI [of _ cn]) simp
qed

section \<open>The example of channels\<close>

text \<open>\<open>examples/example-rchan.cpp\<close>: a server that logs the body of each message, and a client that sends ten of them.\<close>

definition echo_msg_handler :: "'i message_reader \<Rightarrow> ('i, string list) handler" where
  "echo_msg_handler rd mh s lines = reading_handler rd (\<lambda>mh b lines. lines @ [string_of_bytes (take (h_len mh) b)]) mh s lines"

definition echo_serve_conn :: "stream \<Rightarrow> (nat \<times> string list) res option" where
  "echo_serve_conn s =
     (case upgrade_from s of
        Inl e \<Rightarrow> Some (Inl e)
      | Inr (c, ack, s') \<Rightarrow> handle_to_end stream_reader (echo_msg_handler stream_reader) s' [])"

definition greeting :: "nat \<Rightarrow> string" where
  "greeting i = ''hello world!'' @ replicate (i + 1) CHR ''!''"

definition echo_client :: "peer_id \<Rightarrow> peer_id \<Rightarrow> connection" where
  "echo_client self target = fold (\<lambda>i. conn_send_msg [] (bytes_of_string (greeting i)) 0) [0..<10] (dial target conn_send self)"

lemma sends_bytes: "fold (\<lambda>i. conn_send_msg (nm i) (dat i) 0) is cn =
    cn\<lparr>cn_bytes := cn_bytes cn @ concat (map (\<lambda>i. msg_bytes (nm i, dat i, 0)) is)\<rparr>"
  by (induction "is" arbitrary: cn) (simp_all add: conn_send_msg_def msg_bytes_def)

text \<open>The server logs the ten greetings of the client, in order.\<close>

theorem echo_example:
  assumes "pieces s" and "concat s = cn_bytes (echo_client self target)"
  shows "echo_serve_conn s = Some (Inr (10, map greeting [0..<10]))"
proof -
  let ?m = "\<lambda>i. ([], bytes_of_string (greeting i), 0) :: string \<times> byte list \<times> u32"
  let ?ms = "map ?m [0..<10]"
  have "concat s = enc_conn_header (upgrade_to_header conn_send self) @ concat (map msg_bytes ?ms)"
    unfolding assms(2) echo_client_def sends_bytes by (simp add: dial_def comp_def)
  from upgrade_from_enc [OF assms(1) this] obtain s' where
    s': "upgrade_from s = Inr (\<lparr>c_type = word_of_nat (conn_type_value conn_send), c_src = self\<rparr>, le_enc 4 0, s')"
      "concat s' = concat (map msg_bytes ?ms)" "pieces s'" by blast
  have l: "list_all sendable ?ms" by (auto simp: list_all_iff sendable_def greeting_def)
  have h: "echo_msg_handler rd = reading_handler rd (\<lambda>mh b lines. lines @ [string_of_bytes (take (h_len mh) b)])" for rd :: "stream message_reader"
    by (intro ext) (simp add: echo_msg_handler_def)
  have f: "fold (\<lambda>m lines. lines @ [string_of_bytes (take (h_len (header_of m)) (fst (snd m)))]) (map ?m is) lines = lines @ map greeting is" for "is" lines
    by (induction "is" arbitrary: lines) (simp_all add: header_of_def)
  have "handle_to_end stream_reader (echo_msg_handler stream_reader) s' [] = Some (Inr (10, map greeting [0..<10]))"
    unfolding handle_to_end_def h sr.handle_loop_reading [OF l s'(3,2)] f by simp
  with s'(1) show ?thesis by (simp add: echo_serve_conn_def)
qed

end
