(* ===== verification/Spec2Isabelle.thy ===== *)
theory Spec2Isabelle
  imports Gather Resize Group Plain_Channel Shutdown Pool_Loops Programs Elastic Training_Loop Execution Stat Server Logging Send_Bench
begin

text \<open>
  A verification library for a collective-communication library in C++: the sources in
  \<open>src/stdml/collective\<close> and the headers in \<open>include/stdml/bits/collective\<close>. A group of processes, the
  peers of a cluster, runs the same program; each of them calls \<open>all_reduce\<close>, \<open>broadcast\<close>, \<open>all_gather\<close>,
  \<open>group_all_reduce\<close>, \<open>send\<close>, \<open>recv\<close>, \<open>consistent\<close> or \<open>barrier\<close> on its session, and the library moves and combines the
  bytes. A cluster can be resized while it runs.

  \<^bold>\<open>The program and its parts.\<close> A \<open>peer\<close> is made from the environment a launcher prepares
  (\<open>peer.cpp\<close>, \<open>init_config.cpp\<close>, \<open>kungfu.cpp\<close>), starts a server and joins a \<open>session\<close> of the peers of its
  cluster. A session (\<open>session.cpp\<close>) has a list of pairs of graphs (\<open>topology.cpp\<close>), a reduce graph and a
  broadcast graph each. \<open>all_reduce\<close> cuts the workspace (\<open>buffer.hpp\<close>) into chunks, picks a pair for each
  chunk by a hash of its name, and gives the list to a runtime: \<open>run_graph_pair_list_multi_thread.cpp\<close>, which
  runs chunk after chunk with a thread per neighbour, or \<open>run_graph_pair_list_async.cpp\<close>, a tree of tasks (\<open>task.cpp\<close>) on
  a thread pool (\<open>thread_pool.cpp\<close>). Messages leave through a client pool (\<open>client.cpp\<close>) over connections
  (\<open>connection.hpp\<close>, \<open>net/*/rchan.cpp\<close>); at the receiver a handler (\<open>collective_handler.cpp\<close>) puts them into
  a mailbox, or, when the sender asked for it, straight into the buffer of a waiting receiver
  (\<open>mailbox.hpp\<close>, \<open>channel.hpp\<close>). \<open>elastic_state.cpp\<close> keeps the progress of training in step while a
  configuration server, reached over HTTP (\<open>http.cpp\<close>), proposes new clusters.

  \<^bold>\<open>Theories, in the order of the code.\<close>

  \<^item> \<open>Prelude\<close>: errors of C++ calls (\<open>cxx_error\<close>: an exception, \<open>exit\<close>, a failed \<open>assert\<close>, undefined
    behaviour), bytes and little-endian numbers, byte memories, runs of labelled transition systems, and three
    interfaces on such systems: \<open>measured_system\<close> (every run is bounded), \<open>draining_system\<close> (and never
    stuck before it is done) and \<open>diamond_system\<close> (different steps commute, so all runs end in the same
    state). \<open>Cxx_Std\<close>: \<open>sscanf\<close>, \<open>to_string\<close>, \<open>stoi\<close> and iostream formatting as the sources use them.
  \<^item> \<open>Address\<close>, \<open>Cluster\<close>: \<open>address.hpp\<close>, \<open>address.cpp\<close>, \<open>json.hpp\<close>. Printing and parsing of peers and lists
    are inverse, the binary form of a cluster decodes to it, \<open>resize\<close> gives a cluster of the requested
    size with different workers, and what it does on a host without workers.
  \<^item> \<open>Topology\<close>: \<open>topology.hpp\<close>, \<open>topology.cpp\<close>. Both strategies give well-formed pairs of graphs.
  \<^item> \<open>Dtype\<close>: \<open>dtype.hpp\<close>, \<open>dtype.cpp\<close>. The integer types at their width; \<open>reduce\<close> is pointwise and the
    order of the operands does not matter (the interface \<open>reduction\<close>).
  \<^item> \<open>Buffer\<close>: \<open>buffer.hpp\<close> on an explicit byte memory: partitions tile their interval, parts of a workspace
    cover it and have different names.
  \<^item> \<open>Collective\<close>, \<open>Confluence\<close>, \<open>Runs\<close>, \<open>Star_Ring\<close>, \<open>All_Reduce\<close>, \<open>Broadcast\<close>: the multi-threaded runtime of all
    processes as one transition system, \<open>exec\<close>; a label is a step of one thread, the end of a section, or
    the delivery of a message by a handler. Steps commute and keep an invariant; sections, graphs and
    strategies are run once in a convenient order, and confluence carries the result to all schedules.
    \<open>Session\<close>, \<open>Schedules\<close>: \<open>split_work\<close>, \<open>all_reduce\<close>, \<open>broadcast\<close>, \<open>barrier\<close>, and from one pass to whole
    operations.
  \<^item> \<open>Gather\<close>: \<open>all_gather.cpp\<close>, \<open>send_recv.cpp\<close>; jobs and handlers of all processes as a draining system.
    \<open>Group\<close>: \<open>session::group_all_reduce\<close>; it completes when all processes use one order or there are
    enough workers, and deadlocks when two processes start with disjoint workspaces.
  \<^item> \<open>Consistent\<close>, \<open>Consistent_Ring\<close>: \<open>session::consistent\<close>; on the star all processes learn whether they
    passed the same bytes, on the ring they get different answers.
  \<^item> \<open>Registry\<close>, \<open>Channel\<close>: \<open>channel.hpp\<close>, \<open>mailbox.hpp\<close>. The interface \<open>registry\<close> is the contract of the
    \<open>require\<close> operations of mailboxes, clients and client pools; \<open>bounded_queue\<close> that of channels.
  \<^item> \<open>Wire\<close>, \<open>Client\<close>: \<open>connection.hpp\<close>, \<open>rchan.hpp\<close>, \<open>net/ioutil.hpp\<close>, \<open>net/c++20/rchan.cpp\<close>, \<open>client.cpp\<close>,
    \<open>collective_handler.cpp\<close>. What is sent is what is handled, in order, however the bytes are cut.
    The interface \<open>message_channel\<close> is the contract of a reader of messages; the readers of both
    networking layers satisfy it. \<open>Tcp\<close>, \<open>Plain_Channel\<close>: the sockets and connections of \<open>net/old\<close>, which
    agree with the others on every sequence of bytes with messages below 2 GiB, and use a freed socket at the end of a connection.
    \<open>Shutdown\<close>: \<open>peer::stop\<close> and the end of servers; it completes when all peers stop.
    \<open>Server\<close>: the servers of both layers, \<open>server_impl\<close> and \<open>TcpServer\<close>, as transition systems: when \<open>stop\<close>
    returns all threads have ended (the interface \<open>connection_server\<close>), and it does return once the port is bound.
    \<open>Send_Bench\<close>: the programs \<open>apps/stdml_collective_bench_send_recv.cpp\<close> and \<open>examples/example-rchan.cpp\<close> over
    these connections. \<open>Http\<close>: \<open>http.cpp\<close> and the client in \<open>net/c++20/rchan.cpp\<close>.
  \<^item> \<open>Thread_Pool\<close>, \<open>Pool_Loops\<close>: \<open>thread_pool.cpp\<close>, \<open>waitgroup.cpp\<close>. Loops of simple jobs end on every
    schedule; nested loops can deadlock; the destructor of a busy pool hangs. \<open>Task\<close>, \<open>Async\<close>: \<open>task.cpp\<close> and
    the asynchronous runtime.
  \<^item> \<open>Config\<close>, \<open>Peer\<close>, \<open>Waiting\<close>, \<open>Elastic\<close>: \<open>env.cpp\<close>, \<open>config.cpp\<close>, \<open>init_config.cpp\<close>, \<open>kungfu.cpp\<close>,
    \<open>affinity.cpp\<close>, \<open>peer.cpp\<close>, \<open>fork.cpp\<close>, \<open>elastic.cpp\<close>, \<open>elastic_state.cpp\<close>: peers that resize together agree
    on the next cluster, and stay in step; a detached peer hangs. \<open>Resize\<close> runs the rounds of \<open>peer::resize\<close> on
    the cluster model of \<open>consistent\<close>: agreement on the star, and peers that part on the ring.
    \<open>Training\<close>: the training loop of \<open>examples/example-elastic-state.cpp\<close> in all processes; every step is
    trained once. \<open>Training_Loop\<close>: \<open>examples/example-elastic.cpp\<close>, which agrees with it. \<open>Logging\<close>: \<open>log.cpp\<close> and
    \<open>log.hpp\<close>; lines of several threads are not mixed. \<open>Stat\<close>: what \<open>stat.cpp\<close> records.
  \<^item> \<open>Execution\<close>: the policies of \<open>execution.hpp\<close>; each element is handled once, whatever the schedule.
    \<open>Runtimes\<close>, \<open>Mpi\<close>: the choice of a runtime in \<open>session::all_reduce\<close>, the empty Go runtime of
    \<open>runtimes/go.cpp\<close>, and the interface of \<open>mpi.cpp\<close>. \<open>Programs\<close>: \<open>examples/example_collective.cpp\<close>,
    \<open>example-1.cpp\<close> and \<open>example_fork.cpp\<close> from the environment to the answers of all processes, on both strategies.

  \<^bold>\<open>How state and operations correspond.\<close> A struct or class is a record, an enum a datatype, a function
  a definition of the same name where HOL allows it. Fallible calls return \<open>cxx_error + 'a\<close>. A pointer is
  an address of a memory \<open>nat \<Rightarrow> byte\<close>; each process has its own. Blocking calls of concurrent code are
  guards of steps: a step that would block is not enabled. A condition variable is the condition that
  is waited for. What other code decides (system calls, the environment, the host's name
  service, the configuration server, floating-point arithmetic) is an argument of the definitions.

  \<^bold>\<open>Bounds, fuel and assumptions.\<close> Only \<open>training_loop\<close> and \<open>elastic_loop\<close> have fuel, one unit per iteration; the theorems show that
  the number of steps plus one is enough. Other loops that may not end are
  \<open>partial_function (option)\<close> (\<open>skip_used\<close>, \<open>agree_loop\<close>, \<open>finish\<close>, the receiving loops) and the
  theorems say when they return; schedules are lists of labels, and the liveness theorems bound their
  length and show that they can always be completed. Sizes and counts of elements are natural
  numbers; what the program computes at a fixed width (ports, addresses, hashes, lengths on the wire,
  progress and step counters, elements) is a word or has its modulus written out. Signed elements wrap around.
  The theorems on all-reduce, broadcast and consistency are for integer elements; gather holds for
  all types that have a size. The delivery of a message into a waiting buffer is one step.
  A client's connections are modelled from the time the remote end has answered. In \<open>Group\<close> a call of
  \<open>all_reduce\<close> returns at some time after all processes have entered it, and in \<open>Shutdown\<close> the thread of a
  connection ends at some time after the remote end has closed it. In \<open>Peer\<close> and \<open>Elastic\<close> the results
  of \<open>consistent\<close> and of the all-reduce of the progress are arguments, instantiated by what
  \<open>Resize\<close> and \<open>Schedules\<close> show these operations return. The rounds of \<open>Resize\<close> and the iterations of
  \<open>Training\<close> and \<open>Training_Loop\<close> follow each other: all processes end one before the next begins.

  \<^bold>\<open>Not modelled.\<close> Reports of statistics and terminal colours (clocks and output), the
  scheduler of the Go runtime (an argument), socket options, process control
  (signals, \<open>fork\<close>, \<open>prun\<close>), the event loop of the networking library below the servers (its completions are
  labels), a second call of \<open>stop\<close> on a server, and the
  other examples and benchmarks, which only call the library and print timings.
\<close>

section \<open>Steps of a cluster\<close>

text \<open>Two different steps that are both possible in a state of the cluster can be taken in either
  order and lead to the same state.\<close>

theorem steps_commute:
  assumes "cluster_inv c" and "l \<noteq> l'" and "exec fo l c = Some c1" and "exec fo l' c = Some c2"
  shows "\<exists>t. exec fo l' c1 = Some t \<and> exec fo l c2 = Some t"
  using assms by (rule exec_diamond)

text \<open>Every step keeps the invariant: no process fails, every section runs receives from different
  sources or sends to different targets, and the slot queues hold exactly the pointer that is waited for.\<close>

theorem steps_keep_invariant:
  assumes "cluster_inv c" and "run_labels (exec fo) ls c = Some c'"
  shows "cluster_inv c'"
  using assms by (rule cl.inv_run)

theorem steps_commute_witness:
  "(let w = \<lparr>w_send = 0, w_recv = 8, w_count = 1, w_dt = u8, w_op = sum_op, w_name = ''x''\<rparr>;
        c = start_cluster 2 (\<lambda>_ _. 0) (\<lambda>_. [New_state w]) in
    \<exists>c1 c2 t. exec first_operand (Join 0) c = Some c1 \<and> exec first_operand (Join 1) c = Some c2 \<and>
      exec first_operand (Join 1) c1 = Some t \<and> exec first_operand (Join 0) c2 = Some t)"
proof -
  let ?w = "\<lparr>w_send = 0, w_recv = 8, w_count = 1, w_dt = u8, w_op = sum_op, w_name = ''x''\<rparr>"
  let ?c = "start_cluster 2 (\<lambda>_ _. 0) (\<lambda>_. [New_state ?w])"
  have inv: "cluster_inv ?c"
    by (rule start_cluster_inv) (simp add: wf_ws_def disjoint_or_same_def elem_size_def)
  obtain c1 c2 where c: "exec first_operand (Join 0) ?c = Some c1" "exec first_operand (Join 1) ?c = Some c2"
    by (simp add: start_cluster_def start_proc_def Let_def)
  have "Join 0 \<noteq> Join 1" by simp
  from steps_commute [OF inv this c] c show ?thesis unfolding Let_def by blast
qed

theorem steps_keep_invariant_witness:
  "(let w = \<lparr>w_send = 0, w_recv = 8, w_count = 1, w_dt = u8, w_op = sum_op, w_name = ''x''\<rparr>;
        c = start_cluster 2 (\<lambda>_ _. 0) (\<lambda>_. [New_state w]) in
    \<exists>c'. run_labels (exec first_operand) [Join 0, Join 1] c = Some c' \<and> cluster_inv c')"
proof -
  let ?w = "\<lparr>w_send = 0, w_recv = 8, w_count = 1, w_dt = u8, w_op = sum_op, w_name = ''x''\<rparr>"
  let ?c = "start_cluster 2 (\<lambda>_ _. 0) (\<lambda>_. [New_state ?w])"
  have inv: "cluster_inv ?c"
    by (rule start_cluster_inv) (simp add: wf_ws_def disjoint_or_same_def elem_size_def)
  obtain c' where c: "run_labels (exec first_operand) [Join 0, Join 1] ?c = Some c'"
    by (simp add: start_cluster_def start_proc_def Let_def set_proc_def)
  with steps_keep_invariant [OF inv c] show ?thesis unfolding Let_def by blast
qed

section \<open>All-reduce\<close>

text \<open>C1: \<open>session::all_reduce\<close> on the star, for integer elements: when all processes call it with
  buffers of the same size, every schedule of their threads, handlers and connections ends, none
  deadlocks, and all processes return with the reduction of all send buffers in their receive buffer and
  the rest of their memory unchanged, whatever the number of chunks.\<close>

theorem all_reduce_star:
  assumes "agree n w0 ws" and "0 < n" and "0 < w_count w0"
  shows "\<exists>prog. (\<forall>i<n. all_reduce_prog (make_graph_pair_list star n) i (ws i) = Inr (prog i)) \<and>
    every_schedule fo (start_cluster n M prog) (stores n ws (\<lambda>_. result_of fo n w0 ws M) M)"
proof -
  let ?g = "make_graph_pair_list star n"
  have ne: "?g \<noteq> []" using assms(2) by (rule make_graph_pair_list_nonempty)
  obtain prog where prog: "\<And>i. i < n \<Longrightarrow> all_reduce_prog ?g i (ws i) = Inr (prog i)"
    using all_reduce_succeeds [OF assms ne] by blast
  have "every_schedule fo (start_cluster n M prog) (stores n ws (\<lambda>_. result_of fo n w0 ws M) M)"
    by (rule all_reduce_exact [OF assms ne _ _ prog]) (use wf_pair star_pass [OF assms(1,2)] assms(2) in auto)
  with prog show ?thesis by blast
qed

theorem all_reduce_star_witness:
  "(let w = \<lparr>w_send = 0, w_recv = 8, w_count = 2, w_dt = u8, w_op = sum_op, w_name = ''x''\<rparr>;
        M = (\<lambda>i _. word_of_nat (i + 1)) in
    (\<exists>prog. (\<forall>i<3. all_reduce_prog (make_graph_pair_list star 3) i w = Inr (prog i)) \<and>
      every_schedule first_operand (start_cluster 3 M prog) (stores 3 (\<lambda>_. w) (\<lambda>_. result_of first_operand 3 w (\<lambda>_. w) M) M)) \<and>
    result_of first_operand 3 w (\<lambda>_. w) M = [6, 6])"
  unfolding Let_def
proof
  let ?w = "\<lparr>w_send = 0, w_recv = 8, w_count = 2, w_dt = u8, w_op = sum_op, w_name = ''x''\<rparr>"
  let ?M = "\<lambda>i _. word_of_nat (i + 1) :: byte"
  show "\<exists>prog. (\<forall>i<3. all_reduce_prog (make_graph_pair_list star 3) i ?w = Inr (prog i)) \<and>
      every_schedule first_operand (start_cluster 3 ?M prog) (stores 3 (\<lambda>_. ?w) (\<lambda>_. result_of first_operand 3 ?w (\<lambda>_. ?w) ?M) ?M)"
    by (rule all_reduce_star) (simp_all add: agree_def wf_ws_def disjoint_or_same_def elem_size_def)
  show "result_of first_operand 3 ?w (\<lambda>_. ?w) ?M = [6, 6]" by code_simp
qed

text \<open>C3: The same on the ring when all processes reduce in place.\<close>

theorem all_reduce_ring_in_place:
  assumes "agree n w0 ws" and "0 < n" and "0 < w_count w0" and "\<forall>i<n. w_send (ws i) = w_recv (ws i)"
  shows "\<exists>prog. (\<forall>i<n. all_reduce_prog (make_graph_pair_list ring n) i (ws i) = Inr (prog i)) \<and>
    every_schedule fo (start_cluster n M prog) (stores n ws (\<lambda>_. result_of fo n w0 ws M) M)"
proof -
  let ?g = "make_graph_pair_list ring n"
  have ne: "?g \<noteq> []" using assms(2) by (rule make_graph_pair_list_nonempty)
  obtain prog where prog: "\<And>i. i < n \<Longrightarrow> all_reduce_prog ?g i (ws i) = Inr (prog i)"
    using all_reduce_succeeds [OF assms(1-3) ne] by blast
  have "every_schedule fo (start_cluster n M prog) (stores n ws (\<lambda>_. result_of fo n w0 ws M) M)"
  proof (rule all_reduce_exact [OF assms(1-3) ne _ _ prog])
    fix gp and p :: interval
    assume "gp \<in> set ?g" and p: "i_begin p \<le> i_end p" "i_end p \<le> w_count w0"
    then obtain r where gp: "gp = make_circular_graph_pair n r"
      by (auto simp: make_graph_pair_list_def make_graph_pair_list_ring_def)
    have "w_send (slice_of (ws ((r + 1) mod n)) p) = w_recv (slice_of (ws ((r + 1) mod n)) p)"
      using assms(2,4) by (simp add: slice_of_def)
    then show "passes fo n (graphs gp) (\<lambda>i. slice_of (ws i) p) (\<lambda>M _. result_of fo n (slice_of w0 p) (\<lambda>i. slice_of (ws i) p) M)"
      unfolding gp by (intro passes_cong [OF ring_chunk [OF agree_slice [OF assms(1) p]]] ring_value_in_place)
  qed (use wf_pair assms(2) in auto)
  with prog show ?thesis by blast
qed

theorem all_reduce_ring_in_place_witness:
  "(let w = \<lparr>w_send = 8, w_recv = 8, w_count = 2, w_dt = u8, w_op = max_op, w_name = ''x''\<rparr>;
        M = (\<lambda>i _. word_of_nat (i + 1)) in
    \<exists>prog. (\<forall>i<3. all_reduce_prog (make_graph_pair_list ring 3) i w = Inr (prog i)) \<and>
      every_schedule first_operand (start_cluster 3 M prog) (stores 3 (\<lambda>_. w) (\<lambda>_. result_of first_operand 3 w (\<lambda>_. w) M) M))"
  unfolding Let_def
  by (rule all_reduce_ring_in_place) (simp_all add: agree_def wf_ws_def disjoint_or_same_def elem_size_def)

text \<open>C2: On the ring, with different send and receive buffers, a pass over one pair of graphs is wrong
  for three and more processes: the process after the one where the reduction ends relays its own send
  buffer, and all further processes return with that buffer instead of the result.\<close>

theorem all_reduce_ring_relays:
  assumes "agree n w0 ws" and "2 \<le> k" and "k < n" and "w_send (ws ((r + 1) mod n)) \<noteq> w_recv (ws ((r + 1) mod n))"
    and "\<forall>i<n. prog i = run_graphs_prog i (ws i) [reduce_graph (make_circular_graph_pair n r), broadcast_graph (make_circular_graph_pair n r)]"
  shows "\<exists>M'. every_schedule fo (start_cluster n M prog) M' \<and>
    read_mem (M' ((r + k) mod n)) (w_recv (ws ((r + k) mod n))) (bytes w0) =
      contrib (ws ((r + 1) mod n)) (M ((r + 1) mod n))"
proof -
  let ?x = "(r + k) mod n" and ?y = "(r + 1) mod n"
  let ?M' = "stores n ws (ring_value fo n r w0 ws M) M"
  have n: "0 < n" using assms(3) by simp
  have "every_schedule fo (start_cluster n M prog) ?M'"
  proof (rule one_pass_every_schedule [OF ring_chunk [OF assms(1)]])
    show "wf_graph n g" if "g \<in> set (graphs (make_circular_graph_pair n r))" for g
      using that wf_ring_pair [of n r] by auto
  qed (use assms in \<open>simp_all add: agreeD(1)\<close>)
  moreover have "ring_pos n r ?x = k" using ring_pos_vertex [OF assms(3), of r] by (simp add: ring_vertex_def)
  then have "ring_value fo n r w0 ws M ?x = contrib (ws ?y) (M ?y)"
    using assms(2,4) by (simp add: ring_value_def relayed_def Let_def)
  moreover have "length (contrib (ws ?y) (M ?y)) = bytes w0" using agreeD(2) [OF assms(1), of ?y] n by simp
  ultimately show ?thesis using n by (intro exI [of _ ?M']) (simp add: stores_def)
qed

text \<open>Three processes reduce one byte each, 1, 2 and 3, over the first rotation of the ring: the last one
  returns with 2, the contribution of its predecessor, instead of 6.\<close>

theorem all_reduce_ring_relays_witness:
  "(let w = \<lparr>w_send = 0, w_recv = 8, w_count = 1, w_dt = u8, w_op = sum_op, w_name = ''x''\<rparr>;
        M = (\<lambda>i _. word_of_nat (i + 1));
        prog = (\<lambda>i. run_graphs_prog i w [reduce_graph (make_circular_graph_pair 3 0), broadcast_graph (make_circular_graph_pair 3 0)]) in
    (\<exists>M'. every_schedule first_operand (start_cluster 3 M prog) M' \<and> read_mem (M' 2) 8 1 = [2]) \<and>
    result_of first_operand 3 w (\<lambda>_. w) M = [6])"
  unfolding Let_def
proof
  let ?w = "\<lparr>w_send = 0, w_recv = 8, w_count = 1, w_dt = u8, w_op = sum_op, w_name = ''x''\<rparr>"
  let ?M = "\<lambda>i _. word_of_nat (i + 1) :: byte"
  let ?prog = "\<lambda>i. run_graphs_prog i ?w [reduce_graph (make_circular_graph_pair 3 0), broadcast_graph (make_circular_graph_pair 3 0)]"
  have "agree 3 ?w (\<lambda>_. ?w)" by (simp add: agree_def wf_ws_def disjoint_or_same_def elem_size_def)
  then have "\<exists>M'. every_schedule first_operand (start_cluster 3 ?M ?prog) M' \<and>
      read_mem (M' ((0 + 2) mod 3)) (w_recv ?w) (bytes ?w) = contrib ?w (?M ((0 + 1) mod 3))"
    by (rule all_reduce_ring_relays) simp_all
  then obtain M' where M': "every_schedule first_operand (start_cluster 3 ?M ?prog) M'"
      "read_mem (M' ((0 + 2) mod 3)) (w_recv ?w) (bytes ?w) = contrib ?w (?M ((0 + 1) mod 3))" by blast
  have "read_mem (M' 2) 8 1 = [2]" using M'(2) by (simp add: contrib_def bytes_def elem_size_def read_mem_def numeral_2_eq_2)
  with M'(1) show "\<exists>M'. every_schedule first_operand (start_cluster 3 ?M ?prog) M' \<and> read_mem (M' 2) 8 1 = [2]" by blast
  show "result_of first_operand 3 ?w (\<lambda>_. ?w) ?M = [6]" by code_simp
qed

section \<open>Broadcast\<close>

lemma agree_broadcast:
  "is_integer dt \<Longrightarrow> \<forall>i<n. disjoint_or_same (out i) (inp i) (k * elem_size dt) \<Longrightarrow>
     agree n (broadcast_ws (inp 0) (out 0) k dt name) (\<lambda>i. broadcast_ws (inp i) (out i) k dt name)"
  by (simp add: agree_def broadcast_ws_def wf_ws_def del: is_integer.simps)

lemma broadcast_everywhere:
  assumes "0 < n" and "is_integer dt" and "\<forall>i<n. disjoint_or_same (out i) (inp i) (k * elem_size dt)"
  shows "\<exists>prog. (\<forall>i<n. broadcast_prog (make_graph_pair_list star n) i (broadcast_ws (inp i) (out i) k dt name) = Inr (prog i)) \<and>
    every_schedule fo (start_cluster n M prog)
      (\<lambda>i. if i < n then write_mem (M i) (out i) (read_mem (M 0) (inp 0) (k * elem_size dt)) else M i)"
proof -
  let ?ws = "\<lambda>i. broadcast_ws (inp i) (out i) k dt name" and ?g = "broadcast_graph (star_pair n 0)"
  note a = agree_broadcast [OF assms(2,3), of name]
  let ?prog = "\<lambda>i. run_graphs_prog i (?ws i) [?g]"
  have "every_schedule fo (start_cluster n M ?prog) (stores n ?ws (\<lambda>_. contrib (?ws 0) (M 0)) M)"
    by (rule one_pass_every_schedule [OF star_broadcast [OF a assms(1)]])
      (use agreeD(1) [OF a] wf_star_pair(2) [OF assms(1)] in auto)
  moreover have "stores n ?ws (\<lambda>_. contrib (?ws 0) (M 0)) M =
      (\<lambda>i. if i < n then write_mem (M i) (out i) (read_mem (M 0) (inp 0) (k * elem_size dt)) else M i)"
    by (auto simp: stores_def contrib_def bytes_def broadcast_ws_def)
  moreover have "broadcast_prog (make_graph_pair_list star n) i (?ws i) = Inr (?prog i)" for i
    by (simp add: broadcast_prog_def make_graph_pair_list_def make_star)
  ultimately show ?thesis by (intro exI [of _ ?prog]) simp
qed

text \<open>The overload for one object of \<open>sz\<close> bytes returns the object of process 0 everywhere.\<close>

lemma broadcast_value_everywhere:
  assumes "0 < n" and "\<forall>i<n. disjoint_or_same (y i) (x i) sz"
  shows "\<exists>prog. (\<forall>i<n. broadcast_prog (make_graph_pair_list star n) i (broadcast_value_ws (x i) (y i) sz) = Inr (prog i)) \<and>
    every_schedule fo (start_cluster n M prog) (\<lambda>i. if i < n then write_mem (M i) (y i) (read_mem (M 0) (x 0) sz) else M i)"
proof -
  have e: "sz * elem_size i8 = sz" by (simp add: elem_size_def)
  show ?thesis using broadcast_everywhere [OF assms(1), of i8 y x sz "[]" fo M, unfolded e] assms(2) by (simp add: broadcast_value_ws_def)
qed



text \<open>\<open>session::broadcast\<close> on the ring with different send and receive buffers: with three and more
  processes, the third returns with the send buffer of process 1 instead of that of process 0.\<close>

theorem broadcast_ring_relays:
  assumes "2 < n" and "is_integer dt" and "\<forall>i<n. disjoint_or_same (out i) (inp i) (k * elem_size dt)" and "inp 1 \<noteq> out 1"
  shows "\<exists>prog M'. (\<forall>i<n. broadcast_prog (make_graph_pair_list ring n) i (broadcast_ws (inp i) (out i) k dt name) = Inr (prog i)) \<and>
    every_schedule fo (start_cluster n M prog) M' \<and>
    read_mem (M' 2) (out 2) (k * elem_size dt) = read_mem (M 1) (inp 1) (k * elem_size dt)"
proof -
  let ?ws = "\<lambda>i. broadcast_ws (inp i) (out i) k dt name" and ?g = "broadcast_graph (make_circular_graph_pair n 0)"
  note a = agree_broadcast [OF assms(2,3), of name]
  let ?prog = "\<lambda>i. run_graphs_prog i (?ws i) [?g]" and ?M' = "stores n ?ws (ring_bcast_value n 0 ?ws M) M"
  have "every_schedule fo (start_cluster n M ?prog) ?M'"
    by (rule one_pass_every_schedule [OF ring_broadcast [OF a]])
      (use agreeD(1) [OF a] wf_ring_pair(2) [of n 0] in auto)
  moreover have "broadcast_prog (make_graph_pair_list ring n) i (?ws i) = Inr (?prog i)" for i
    using assms(1) by (cases n) (simp_all add: broadcast_prog_def make_graph_pair_list_def make_graph_pair_list_ring_def upt_conv_Cons del: upt_Suc)
  moreover have "read_mem (?M' 2) (out 2) (k * elem_size dt) = read_mem (M 1) (inp 1) (k * elem_size dt)"
  proof -
    have "ring_vertex n 0 1 = 1" "ring_vertex n 0 2 = 2" using assms(1) by (simp_all add: ring_vertex_def)
    moreover from this(2) have "ring_pos n 0 2 = 2" using ring_pos_vertex [OF assms(1), of 0] by simp
    ultimately have "ring_bcast_value n 0 ?ws M 2 = contrib (?ws 1) (M 1)"
      using assms(4) by (simp add: ring_bcast_value_def relayed_def broadcast_ws_def)
    then show ?thesis using assms(1) by (simp add: stores_def contrib_def bytes_def broadcast_ws_def)
  qed
  ultimately show ?thesis by (intro exI [of _ ?prog] exI [of _ ?M']) simp
qed

theorem broadcast_ring_relays_witness:
  "\<exists>prog M'. (\<forall>i<3. broadcast_prog (make_graph_pair_list ring 3) i (broadcast_ws 0 8 1 u8 ''x'') = Inr (prog i)) \<and>
    every_schedule first_operand (start_cluster 3 (\<lambda>i _. word_of_nat i) prog) M' \<and>
    read_mem (M' 2) 8 (1 * elem_size u8) = read_mem (\<lambda>_. word_of_nat 1) 0 (1 * elem_size u8)"
  by (rule broadcast_ring_relays) (simp_all add: disjoint_or_same_def elem_size_def)

end
